theory Spec2Isabelle
  imports Complex_Main "HOL-Library.Multiset" "HOL-Library.Monad_Syntax"
    "HOL-Library.Code_Target_Numeral"
begin

section \<open>Common conventions of the three C modules\<close>

text \<open>
  The three modules \<^verbatim>\<open>stock_span.c\<close>, \<^verbatim>\<open>segment_tree.c\<close> and \<^verbatim>\<open>sliding_window.c\<close> share
  their conventions, which the embedding fixes once:

  \<^item> A C \<^verbatim>\<open>double\<close> is a \<open>cdouble\<close>: a finite value, one of the two infinities, or NaN.
    Arithmetic is that of IEEE 754 binary64 in the default rounding mode: every
    \<^verbatim>\<open>+\<close>, \<^verbatim>\<open>-\<close>, \<^verbatim>\<open>*\<close>, \<^verbatim>\<open>/\<close> and \<^verbatim>\<open>sqrt\<close> computes the exact result and rounds it once to the
    nearest double, ties to the even significand, and to an infinity on overflow; no
    operation is carried out in a wider format and no multiplication is fused with an
    addition. The two zeros are one value: no test of the three modules tells them
    apart. Comparisons of finite doubles are exact. After the validation loop of an
    operation every price is finite, and the prices are then handled as real numbers.
  \<^item> An array argument together with its \<^verbatim>\<open>length\<close> argument is a HOL list; a pointer that
    may be NULL is an \<open>option\<close>.
  \<^item> \<^verbatim>\<open>malloc\<close> is modelled by a list of outcomes that is consumed call by call, so that
    every allocation failure path of the source is a branch of the model.
  \<^item> A call returns its \<^verbatim>\<open>int\<close> status together with what it stored through its output
    pointer. The diagnostic text buffer (\<^verbatim>\<open>err_buf\<close>) influences neither and is left out.
  \<^item> Every array access is checked: an access outside the allocated block makes the
    model return \<open>None\<close>, as does a loop that never ends.
\<close>

definition MAX_ARRAY_SIZE :: nat where
  "MAX_ARRAY_SIZE = 10000000"

datatype cdouble = Finite real | PosInf | NegInf | NaN

subsection \<open>Double arithmetic\<close>

text \<open>
  Rounding of a real number to binary64. \<open>pow2 e\<close> is \<open>2\<close> to the power \<open>e\<close>, \<open>round_even\<close>
  rounds to the nearest integer with ties to the even one, \<open>expo x\<close> is the binary
  exponent of \<open>x\<close>. A double with exponent \<open>e\<close> is a multiple of \<open>pow2 (e - 52)\<close>, and of
  \<open>pow2 (- 1074)\<close> in the subnormal range; a rounded value of magnitude \<open>pow2 1024\<close> or more
  is an infinity.
\<close>

definition pow2 :: "int \<Rightarrow> real" where
  "pow2 e = (if 0 \<le> e then 2 ^ nat e else 1 / 2 ^ nat (- e))"

definition round_even :: "real \<Rightarrow> int" where
  "round_even y =
     (let f = \<lfloor>y\<rfloor>
      in if y - of_int f < 1 / 2 then f
         else if y - of_int f > 1 / 2 then f + 1
         else if even f then f else f + 1)"

definition expo :: "real \<Rightarrow> int" where
  "expo x = \<lfloor>log 2 \<bar>x\<bar>\<rfloor>"

definition rnd :: "real \<Rightarrow> cdouble" where
  "rnd x =
     (if x = 0 then Finite 0
      else let t = max (expo x - 52) (- 1074);
               y = of_int (round_even (x / pow2 t)) * pow2 t
           in if pow2 1024 \<le> \<bar>y\<bar> then (if 0 < x then PosInf else NegInf) else Finite y)"

text \<open>
  The operations on doubles, with the results of IEEE 754 for infinities and NaN. A
  division of a non-zero number by zero gives an infinity whose sign here is that of
  the dividend: the modules divide by zero only where the divisor is an absolute value
  or the quotient is passed to \<^verbatim>\<open>fabs\<close>. A comparison with NaN is false.
\<close>

fun dadd :: "cdouble \<Rightarrow> cdouble \<Rightarrow> cdouble" where
  "dadd (Finite x) (Finite y) = rnd (x + y)"
| "dadd NaN b = NaN"
| "dadd a NaN = NaN"
| "dadd PosInf NegInf = NaN"
| "dadd NegInf PosInf = NaN"
| "dadd PosInf b = PosInf"
| "dadd NegInf b = NegInf"
| "dadd (Finite x) PosInf = PosInf"
| "dadd (Finite x) NegInf = NegInf"

fun dneg :: "cdouble \<Rightarrow> cdouble" where
  "dneg (Finite x) = Finite (- x)"
| "dneg PosInf = NegInf"
| "dneg NegInf = PosInf"
| "dneg NaN = NaN"

definition dsub :: "cdouble \<Rightarrow> cdouble \<Rightarrow> cdouble" where
  "dsub a b = dadd a (dneg b)"

fun dmul :: "cdouble \<Rightarrow> cdouble \<Rightarrow> cdouble" where
  "dmul (Finite x) (Finite y) = rnd (x * y)"
| "dmul NaN b = NaN"
| "dmul a NaN = NaN"
| "dmul PosInf (Finite y) = (if y = 0 then NaN else if 0 < y then PosInf else NegInf)"
| "dmul NegInf (Finite y) = (if y = 0 then NaN else if 0 < y then NegInf else PosInf)"
| "dmul (Finite x) PosInf = (if x = 0 then NaN else if 0 < x then PosInf else NegInf)"
| "dmul (Finite x) NegInf = (if x = 0 then NaN else if 0 < x then NegInf else PosInf)"
| "dmul PosInf PosInf = PosInf"
| "dmul PosInf NegInf = NegInf"
| "dmul NegInf PosInf = NegInf"
| "dmul NegInf NegInf = PosInf"

fun ddiv :: "cdouble \<Rightarrow> cdouble \<Rightarrow> cdouble" where
  "ddiv (Finite x) (Finite y) =
     (if y \<noteq> 0 then rnd (x / y) else if x = 0 then NaN else if 0 < x then PosInf else NegInf)"
| "ddiv NaN b = NaN"
| "ddiv a NaN = NaN"
| "ddiv (Finite x) PosInf = Finite 0"
| "ddiv (Finite x) NegInf = Finite 0"
| "ddiv PosInf (Finite y) = (if 0 \<le> y then PosInf else NegInf)"
| "ddiv NegInf (Finite y) = (if 0 \<le> y then NegInf else PosInf)"
| "ddiv PosInf b = NaN"
| "ddiv NegInf b = NaN"

fun dfabs :: "cdouble \<Rightarrow> cdouble" where
  "dfabs (Finite x) = Finite \<bar>x\<bar>"
| "dfabs PosInf = PosInf"
| "dfabs NegInf = PosInf"
| "dfabs NaN = NaN"

fun dsqrt :: "cdouble \<Rightarrow> cdouble" where
  "dsqrt (Finite x) = (if x < 0 then NaN else rnd (sqrt x))"
| "dsqrt PosInf = PosInf"
| "dsqrt NegInf = NaN"
| "dsqrt NaN = NaN"

fun dlt :: "cdouble \<Rightarrow> cdouble \<Rightarrow> bool" where
  "dlt (Finite x) (Finite y) = (x < y)"
| "dlt NaN b = False"
| "dlt a NaN = False"
| "dlt a NegInf = False"
| "dlt PosInf b = False"
| "dlt NegInf b = True"
| "dlt (Finite x) PosInf = True"

definition dgt :: "cdouble \<Rightarrow> cdouble \<Rightarrow> bool" where
  "dgt a b = dlt b a"

text \<open>
  The conversion of a \<^verbatim>\<open>size_t\<close> to \<^verbatim>\<open>double\<close>, and the doubles that the literals \<^verbatim>\<open>0.05\<close>
  and \<^verbatim>\<open>0.1\<close> denote.
\<close>

definition d_of_nat :: "nat \<Rightarrow> cdouble" where
  "d_of_nat n = rnd (real n)"

definition lit_0_05 :: real where
  "lit_0_05 = 3602879701896397 / 2 ^ 56"

definition lit_0_1 :: real where
  "lit_0_1 = 3602879701896397 / 2 ^ 55"

fun isnan :: "cdouble \<Rightarrow> bool" where
  "isnan NaN = True"
| "isnan _ = False"

fun isinf :: "cdouble \<Rightarrow> bool" where
  "isinf PosInf = True"
| "isinf NegInf = True"
| "isinf _ = False"

text \<open>The value of a double that has passed validation.\<close>

fun fin :: "cdouble \<Rightarrow> real" where
  "fin (Finite x) = x"
| "fin _ = 0"

text \<open>
  The validation loop
  \<^verbatim>\<open>for (i = 0; i < length; i++) if (isnan(prices[i]) || isinf(prices[i])) return -4;\<close>
  as a scan of the list: \<open>True\<close> when the loop runs to its end.
\<close>

fun validate_prices :: "cdouble list \<Rightarrow> bool" where
  "validate_prices [] = True"
| "validate_prices (p # ps) = (if isnan p \<or> isinf p then False else validate_prices ps)"

text \<open>\<^verbatim>\<open>malloc\<close>: the next outcome of the list; an exhausted list means success.\<close>

fun malloc :: "bool list \<Rightarrow> bool \<times> bool list" where
  "malloc [] = (True, [])"
| "malloc (b # bs) = (b, bs)"

text \<open>What a call did to the caller's variable behind its output pointer.\<close>

datatype 'a out_effect = Untouched | StoredNull | Stored 'a

text \<open>Checked array read and write.\<close>

definition rd :: "'a list \<Rightarrow> nat \<Rightarrow> 'a option" where
  "rd xs i = (if i < length xs then Some (xs ! i) else None)"

definition wr :: "'a list \<Rightarrow> nat \<Rightarrow> 'a \<Rightarrow> 'a list option" where
  "wr xs i v = (if i < length xs then Some (xs[i := v]) else None)"

text \<open>
  The cast \<^verbatim>\<open>(int)\<close> of a \<^verbatim>\<open>size_t\<close>: the low 32 bits, read as a two's complement number.
\<close>

definition int_of_size_t :: "nat \<Rightarrow> int" where
  "int_of_size_t n = (int n + 2 ^ 31) mod 2 ^ 32 - 2 ^ 31"

text \<open>
  Arithmetic of \<^verbatim>\<open>size_t\<close> (64 bits) where the source adds or subtracts without a guard
  in sight: the result wraps around.
\<close>

definition size_add :: "nat \<Rightarrow> nat \<Rightarrow> nat" where
  "size_add a b = (a + b) mod 2 ^ 64"

definition size_sub :: "nat \<Rightarrow> nat \<Rightarrow> nat" where
  "size_sub a b = (a + (2 ^ 64 - b mod 2 ^ 64)) mod 2 ^ 64"

text \<open>
  A block from \<^verbatim>\<open>malloc\<close> whose cells the source does not all write holds \<open>None\<close> in a
  cell that was never written; reading such a cell, or a cell outside the block, does
  not yield a value.
\<close>

definition rdi :: "'a option list \<Rightarrow> nat \<Rightarrow> 'a option" where
  "rdi xs i = (if i < length xs then xs ! i else None)"

section \<open>Stock span (\<^verbatim>\<open>stock_span.c\<close>)\<close>

record IndexStack =
  st_data :: "nat list"
  st_top :: nat
  st_capacity :: nat

definition createStack :: "bool list \<Rightarrow> nat \<Rightarrow> IndexStack option \<times> bool list" where
  "createStack al capacity =
     (case malloc al of
        (False, al1) \<Rightarrow> (None, al1)
      | (True, al1) \<Rightarrow>
          (case malloc al1 of
             (False, al2) \<Rightarrow> (None, al2)
           | (True, al2) \<Rightarrow>
               (Some \<lparr>st_data = replicate capacity 0, st_top = 0, st_capacity = capacity\<rparr>,
                al2)))"

definition isEmpty :: "IndexStack \<Rightarrow> bool" where
  "isEmpty stack = (st_top stack = 0)"

text \<open>\<^verbatim>\<open>stack->data[stack->top++] = value\<close>\<close>

definition push :: "IndexStack \<Rightarrow> nat \<Rightarrow> IndexStack option" where
  "push stack v =
     (case wr (st_data stack) (st_top stack) v of
        None \<Rightarrow> None
      | Some d \<Rightarrow> Some (stack\<lparr>st_data := d, st_top := st_top stack + 1\<rparr>))"

text \<open>
  \<^verbatim>\<open>return stack->data[--stack->top]\<close>; on an empty stack the decrement wraps around and
  the read is far outside the block.
\<close>

definition pop :: "IndexStack \<Rightarrow> (nat \<times> IndexStack) option" where
  "pop stack =
     (if st_top stack = 0 then None
      else (case rd (st_data stack) (st_top stack - 1) of
              None \<Rightarrow> None
            | Some v \<Rightarrow> Some (v, stack\<lparr>st_top := st_top stack - 1\<rparr>)))"

text \<open>\<^verbatim>\<open>return stack->data[stack->top - 1]\<close>\<close>

definition peek :: "IndexStack \<Rightarrow> nat option" where
  "peek stack = (if st_top stack = 0 then None else rd (st_data stack) (st_top stack - 1))"

text \<open>
  The inner loop
  \<^verbatim>\<open>while (!isEmpty(stack) && prices[peek(stack)] <= prices[i]) pop(stack);\<close>
\<close>

function span_pop_loop :: "real list \<Rightarrow> nat \<Rightarrow> IndexStack \<Rightarrow> IndexStack option" where
  "span_pop_loop prices i stack =
     (if isEmpty stack then Some stack
      else (case peek stack of
              None \<Rightarrow> None
            | Some j \<Rightarrow>
                (case (rd prices j, rd prices i) of
                   (Some pj, Some pc) \<Rightarrow>
                     if pj \<le> pc then
                       (case pop stack of
                          None \<Rightarrow> None
                        | Some (_, stack') \<Rightarrow> span_pop_loop prices i stack')
                     else Some stack
                 | _ \<Rightarrow> None)))"
  by pat_completeness auto
termination
  by (relation "measure (\<lambda>(prices, i, stack). st_top stack)")
     (auto simp: pop_def isEmpty_def split: option.splits if_splits)

declare span_pop_loop.simps [simp del]

text \<open>
  The outer loop \<^verbatim>\<open>for (i = 0; i < length; i++)\<close>, from index \<open>i\<close> on, on the stack and the
  output array.
\<close>

function span_loop ::
  "real list \<Rightarrow> nat \<Rightarrow> IndexStack \<Rightarrow> int list \<Rightarrow> (IndexStack \<times> int list) option" where
  "span_loop prices i stack spans =
     (if i < length prices then
        (case span_pop_loop prices i stack of
           None \<Rightarrow> None
         | Some stack1 \<Rightarrow>
             (case (if isEmpty stack1 then Some (int_of_size_t (i + 1))
                    else map_option (\<lambda>j. int_of_size_t (size_sub i j)) (peek stack1)) of
                None \<Rightarrow> None
              | Some v \<Rightarrow>
                  (case wr spans i v of
                     None \<Rightarrow> None
                   | Some spans1 \<Rightarrow>
                       (case push stack1 i of
                          None \<Rightarrow> None
                        | Some stack2 \<Rightarrow> span_loop prices (i + 1) stack2 spans1))))
      else Some (stack, spans))"
  by pat_completeness auto
termination
  by (relation "measure (\<lambda>(prices, i, stack, spans). length prices - i)") auto

declare span_loop.simps [simp del]

text \<open>
  \<^verbatim>\<open>calculateStockSpan(prices, length, out_spans, ...)\<close>. \<open>prices = None\<close> is a NULL array,
  \<open>out_spans\<close> tells whether the output pointer is non-NULL. The result is the status,
  what was stored in \<^verbatim>\<open>*out_spans\<close>, and \<open>None\<close> when the call does not return normally.
\<close>

definition calculateStockSpan ::
  "bool list \<Rightarrow> cdouble list option \<Rightarrow> bool \<Rightarrow> (int \<times> int list out_effect) option" where
  "calculateStockSpan al prices out_spans =
     (case prices of
        None \<Rightarrow> Some (- 1, Untouched)
      | Some ps \<Rightarrow>
          if \<not> out_spans then Some (- 1, Untouched)
          else if length ps = 0 \<or> length ps > MAX_ARRAY_SIZE then Some (- 2, Untouched)
          else if \<not> validate_prices ps then Some (- 4, Untouched)
          else
            (case malloc al of
               (False, al1) \<Rightarrow> Some (- 3, StoredNull)
             | (True, al1) \<Rightarrow>
                 (case createStack al1 (length ps) of
                    (None, al2) \<Rightarrow> Some (- 3, StoredNull)
                  | (Some stack, al2) \<Rightarrow>
                      (case span_loop (map fin ps) 0 stack (replicate (length ps) 0) of
                         None \<Rightarrow> None
                       | Some (stack', spans) \<Rightarrow> Some (0, Stored spans)))))"

text \<open>
  The span of the specification: the number of consecutive positions ending at \<open>i\<close>
  (inclusive) whose price is at most the price at \<open>i\<close>.
\<close>

definition span_spec :: "real list \<Rightarrow> nat \<Rightarrow> nat" where
  "span_spec prices i =
     length (takeWhile (\<lambda>p. p \<le> prices ! i) (rev (take (Suc i) prices)))"

section \<open>Range aggregation tree (\<^verbatim>\<open>segment_tree.c\<close>)\<close>

record TreeNode =
  n_min :: cdouble
  n_max :: cdouble
  n_sum :: cdouble
  n_sum_sq :: cdouble
  n_count :: nat

record SegmentTree =
  t_nodes :: "TreeNode option list"
  t_length :: nat
  t_tree_size :: nat

definition DBL_MAX :: real where
  "DBL_MAX = (2 - 1 / 2 ^ 52) * 2 ^ 1023"

definition mergeNodes :: "TreeNode \<Rightarrow> TreeNode \<Rightarrow> TreeNode" where
  "mergeNodes left right =
     \<lparr>n_min = (if dlt (n_min left) (n_min right) then n_min left else n_min right),
      n_max = (if dgt (n_max left) (n_max right) then n_max left else n_max right),
      n_sum = dadd (n_sum left) (n_sum right),
      n_sum_sq = dadd (n_sum_sq left) (n_sum_sq right),
      n_count = n_count left + n_count right\<rparr>"

text \<open>
  The first loop of \<^verbatim>\<open>buildSegmentTree\<close>: leaf \<open>i\<close> is written at index \<open>length + i\<close>.
\<close>

function leaf_loop ::
  "real list \<Rightarrow> nat \<Rightarrow> TreeNode option list \<Rightarrow> TreeNode option list option" where
  "leaf_loop prices i nodes =
     (if i < length prices then
        (case wr nodes (length prices + i)
                (Some \<lparr>n_min = Finite (prices ! i), n_max = Finite (prices ! i),
                        n_sum = Finite (prices ! i),
                        n_sum_sq = dmul (Finite (prices ! i)) (Finite (prices ! i)),
                        n_count = 1\<rparr>) of
           None \<Rightarrow> None
         | Some nodes' \<Rightarrow> leaf_loop prices (i + 1) nodes')
      else Some nodes)"
  by pat_completeness auto
termination
  by (relation "measure (\<lambda>(prices, i, nodes). length prices - i)") auto

declare leaf_loop.simps [simp del]

text \<open>
  The second loop, \<^verbatim>\<open>for (i = length - 1; i > 0; i--)\<close>: node \<open>i\<close> is the merge of its
  children \<open>2 * i\<close> and \<open>2 * i + 1\<close>.
\<close>

function merge_loop :: "nat \<Rightarrow> TreeNode option list \<Rightarrow> TreeNode option list option" where
  "merge_loop i nodes =
     (if i > 0 then
        (case (rdi nodes (2 * i), rdi nodes (2 * i + 1)) of
           (Some l, Some r) \<Rightarrow>
             (case wr nodes i (Some (mergeNodes l r)) of
                None \<Rightarrow> None
              | Some nodes' \<Rightarrow> merge_loop (i - 1) nodes')
         | _ \<Rightarrow> None)
      else Some nodes)"
  by pat_completeness auto
termination
  by (relation "measure (\<lambda>(i, nodes). i)") auto

declare merge_loop.simps [simp del]

text \<open>
  \<^verbatim>\<open>buildSegmentTree(prices, length, out_tree_handle, ...)\<close>; \<open>out_tree_handle\<close> tells
  whether the output pointer is non-NULL.
\<close>

definition buildSegmentTree ::
  "bool list \<Rightarrow> cdouble list option \<Rightarrow> bool \<Rightarrow> (int \<times> SegmentTree out_effect) option" where
  "buildSegmentTree al prices out_tree_handle =
     (case prices of
        None \<Rightarrow> Some (- 1, Untouched)
      | Some ps \<Rightarrow>
          if \<not> out_tree_handle then Some (- 1, Untouched)
          else if length ps = 0 \<or> length ps > MAX_ARRAY_SIZE then Some (- 2, Untouched)
          else if \<not> validate_prices ps then Some (- 4, Untouched)
          else
            (case malloc al of
               (False, al1) \<Rightarrow> Some (- 3, Untouched)
             | (True, al1) \<Rightarrow>
                 (case malloc al1 of
                    (False, al2) \<Rightarrow> Some (- 3, Untouched)
                  | (True, al2) \<Rightarrow>
                      (case leaf_loop (map fin ps) 0 (replicate (2 * length ps) None) of
                         None \<Rightarrow> None
                       | Some nodes1 \<Rightarrow>
                           (case merge_loop (length ps - 1) nodes1 of
                              None \<Rightarrow> None
                            | Some nodes2 \<Rightarrow>
                                Some (0, Stored \<lparr>t_nodes = nodes2, t_length = length ps,
                                                 t_tree_size = 2 * length ps\<rparr>))))))"

text \<open>
  The loop of \<^verbatim>\<open>querySegmentTree\<close>, \<^verbatim>\<open>while (left <= right)\<close>, on the accumulator
  \<open>result\<close> and the flag \<open>first\<close>. The loop need not end for arbitrary arguments (with
  \<open>left = 0\<close> it does not), so it is a partial function.
\<close>

partial_function (option) query_loop ::
  "TreeNode option list \<Rightarrow> nat \<Rightarrow> nat \<Rightarrow> TreeNode \<Rightarrow> bool \<Rightarrow> (TreeNode \<times> bool) option" where
  "query_loop nodes left right result first =
     (if left \<le> right then
        (case (if left mod 2 = 1 then
                 (case rdi nodes left of
                    None \<Rightarrow> None
                  | Some nd \<Rightarrow>
                      Some (if first then nd else mergeNodes result nd, False, size_add left 1))
               else Some (result, first, left)) of
           None \<Rightarrow> None
         | Some (result1, first1, left1) \<Rightarrow>
             (case (if right mod 2 = 0 then
                      (case rdi nodes right of
                         None \<Rightarrow> None
                       | Some nd \<Rightarrow>
                           Some (if first1 then nd else mergeNodes result1 nd, False,
                                 size_sub right 1))
                    else Some (result1, first1, right)) of
                None \<Rightarrow> None
              | Some (result2, first2, right1) \<Rightarrow>
                  query_loop nodes (left1 div 2) (right1 div 2) result2 first2))
      else Some (result, first))"

declare query_loop.simps [code]

text \<open>
  The output stage of \<^verbatim>\<open>querySegmentTree\<close>. Memory is a map from addresses to doubles;
  an output pointer is an address or NULL.
\<close>

definition store :: "nat option \<Rightarrow> cdouble \<Rightarrow> (nat \<Rightarrow> cdouble) \<Rightarrow> (nat \<Rightarrow> cdouble)" where
  "store p v mem = (case p of None \<Rightarrow> mem | Some a \<Rightarrow> mem(a := v))"

definition query_outputs ::
  "TreeNode \<Rightarrow> nat option \<Rightarrow> nat option \<Rightarrow> nat option \<Rightarrow> nat option \<Rightarrow>
   (nat \<Rightarrow> cdouble) \<Rightarrow> (nat \<Rightarrow> cdouble)" where
  "query_outputs result out_min out_max out_avg out_variance mem =
     (let mem1 = store out_min (n_min result) mem;
          mem2 = store out_max (n_max result) mem1;
          mem3 = store out_avg
                   (if n_count result > 0 then ddiv (n_sum result) (d_of_nat (n_count result))
                    else Finite 0) mem2
      in if n_count result > 0 then
           (let mean = ddiv (n_sum result) (d_of_nat (n_count result))
            in store out_variance
                 (dsub (ddiv (n_sum_sq result) (d_of_nat (n_count result))) (dmul mean mean))
                 mem3)
         else store out_variance (Finite 0) mem3)"

definition querySegmentTree ::
  "SegmentTree option \<Rightarrow> nat \<Rightarrow> nat \<Rightarrow> nat option \<Rightarrow> nat option \<Rightarrow> nat option \<Rightarrow>
   nat option \<Rightarrow> (nat \<Rightarrow> cdouble) \<Rightarrow> (int \<times> (nat \<Rightarrow> cdouble)) option" where
  "querySegmentTree tree_handle ql qr out_min out_max out_avg out_variance mem =
     (case tree_handle of
        None \<Rightarrow> Some (- 1, mem)
      | Some tree \<Rightarrow>
          if ql > qr \<or> qr \<ge> t_length tree then Some (- 2, mem)
          else
            (case query_loop (t_nodes tree) (size_add ql (t_length tree))
                    (size_add qr (t_length tree))
                    \<lparr>n_min = Finite DBL_MAX, n_max = Finite (- DBL_MAX), n_sum = Finite 0,
                     n_sum_sq = Finite 0, n_count = 0\<rparr>
                    True of
               None \<Rightarrow> None
             | Some (result, first) \<Rightarrow>
                 Some (0, query_outputs result out_min out_max out_avg out_variance mem)))"

text \<open>
  The direct scan of the specification over \<open>prices[ql..qr]\<close>: the slice and its four
  statistics.
\<close>

definition slice :: "'a list \<Rightarrow> nat \<Rightarrow> nat \<Rightarrow> 'a list" where
  "slice xs ql qr = take (Suc qr - ql) (drop ql xs)"

definition scan_min :: "real list \<Rightarrow> real" where
  "scan_min xs = Min (set xs)"

definition scan_max :: "real list \<Rightarrow> real" where
  "scan_max xs = Max (set xs)"

definition scan_avg :: "real list \<Rightarrow> real" where
  "scan_avg xs = sum_list xs / real (length xs)"

definition scan_variance :: "real list \<Rightarrow> real" where
  "scan_variance xs = sum_list (map (\<lambda>x. x * x) xs) / real (length xs) - scan_avg xs * scan_avg xs"


section \<open>Sliding window analysis (\<^verbatim>\<open>sliding_window.c\<close>)\<close>

text \<open>
  \<^verbatim>\<open>typedef struct { double max, min, avg; char pattern[32]; } WindowStats;\<close>
  The pattern is a buffer of 32 characters.
\<close>

record WindowStats =
  w_max :: cdouble
  w_min :: cdouble
  w_avg :: cdouble
  w_pattern :: "char list"

record WindowResult =
  r_windows :: "WindowStats list"
  r_num_windows :: nat
  r_window_size :: nat

record Deque =
  d_indices :: "nat list"
  d_front :: nat
  d_back :: nat
  d_capacity :: nat

definition createDeque :: "bool list \<Rightarrow> nat \<Rightarrow> Deque option \<times> bool list" where
  "createDeque al capacity =
     (case malloc al of
        (False, al1) \<Rightarrow> (None, al1)
      | (True, al1) \<Rightarrow>
          (case malloc al1 of
             (False, al2) \<Rightarrow> (None, al2)
           | (True, al2) \<Rightarrow>
               (Some \<lparr>d_indices = replicate capacity 0, d_front = 0, d_back = 0,
                       d_capacity = capacity\<rparr>, al2)))"

definition isEmptyDeque :: "Deque \<Rightarrow> bool" where
  "isEmptyDeque dq = (d_front dq = d_back dq)"

text \<open>
  The remainder \<^verbatim>\<open>% dq->capacity\<close>; a zero capacity is a division by zero.
\<close>

definition mod_capacity :: "nat \<Rightarrow> Deque \<Rightarrow> nat option" where
  "mod_capacity x dq = (if d_capacity dq = 0 then None else Some (x mod d_capacity dq))"

text \<open>\<^verbatim>\<open>dq->indices[dq->back] = idx; dq->back = (dq->back + 1) % dq->capacity;\<close>\<close>

definition pushBack :: "Deque \<Rightarrow> nat \<Rightarrow> Deque option" where
  "pushBack dq idx =
     do {
       ind \<leftarrow> wr (d_indices dq) (d_back dq) idx;
       b \<leftarrow> mod_capacity (size_add (d_back dq) 1) dq;
       Some (dq\<lparr>d_indices := ind, d_back := b\<rparr>)
     }"

text \<open>
  \<^verbatim>\<open>dq->back = (dq->back - 1 + dq->capacity) % dq->capacity;\<close> With \<open>back = 0\<close> the
  subtraction wraps around, and the addition wraps back.
\<close>

definition popBack :: "Deque \<Rightarrow> Deque option" where
  "popBack dq =
     do {
       b \<leftarrow> mod_capacity (size_add (size_sub (d_back dq) 1) (d_capacity dq)) dq;
       Some (dq\<lparr>d_back := b\<rparr>)
     }"

text \<open>\<^verbatim>\<open>dq->front = (dq->front + 1) % dq->capacity;\<close>\<close>

definition popFront :: "Deque \<Rightarrow> Deque option" where
  "popFront dq =
     do {
       f \<leftarrow> mod_capacity (size_add (d_front dq) 1) dq;
       Some (dq\<lparr>d_front := f\<rparr>)
     }"

text \<open>\<^verbatim>\<open>return dq->indices[dq->front];\<close>\<close>

definition front :: "Deque \<Rightarrow> nat option" where
  "front dq = rd (d_indices dq) (d_front dq)"

text \<open>
  The function \<^verbatim>\<open>back\<close>:
  \<^verbatim>\<open>size_t idx = (dq->back - 1 + dq->capacity) % dq->capacity; return dq->indices[idx];\<close>
\<close>

definition back_dq :: "Deque \<Rightarrow> nat option" where
  "back_dq dq =
     do {
       idx \<leftarrow> mod_capacity (size_add (size_sub (d_back dq) 1) (d_capacity dq)) dq;
       rd (d_indices dq) idx
     }"

subsection \<open>Pattern classification\<close>

definition NUL :: char where
  "NUL = CHR 0x00"

text \<open>The characters of a buffer before its first NUL.\<close>

definition c_str :: "char list \<Rightarrow> char list" where
  "c_str buf = takeWhile (\<lambda>c. c \<noteq> NUL) buf"

text \<open>
  \<^verbatim>\<open>strncpy(dest, src, n)\<close>: the first \<open>n\<close> characters of \<open>dest\<close> become the string in
  \<open>src\<close>, cut after \<open>n\<close> characters or padded with NUL up to \<open>n\<close>. A string literal is
  given without its final NUL.
\<close>

definition strncpy :: "char list \<Rightarrow> char list \<Rightarrow> nat \<Rightarrow> char list option" where
  "strncpy dest src n =
     (if n \<le> length dest then Some (take n (c_str src @ replicate n NUL) @ drop n dest)
      else None)"

text \<open>
  \<^verbatim>\<open>classifyPattern(first, last, variance, mean, pattern, pattern_len)\<close>, with the buffer
  and its length; the result is the buffer after the call. Both quotients are computed
  before the first test:
  \<^verbatim>\<open>double change_pct = fabs((last - first) / first);\<close>
  \<^verbatim>\<open>double cv = sqrt(variance) / fabs(mean);\<close>
  The thresholds are the doubles that \<^verbatim>\<open>0.05\<close> and \<^verbatim>\<open>0.1\<close> denote.
\<close>

definition classifyPattern ::
  "cdouble \<Rightarrow> cdouble \<Rightarrow> cdouble \<Rightarrow> cdouble \<Rightarrow> char list \<Rightarrow> nat \<Rightarrow> char list option" where
  "classifyPattern first_p last_p variance mean pattern pattern_len =
     (let change_pct = dfabs (ddiv (dsub last_p first_p) first_p);
          cv = ddiv (dsqrt variance) (dfabs mean)
      in do {
        p \<leftarrow> (if dgt change_pct (Finite lit_0_05) \<and> dgt last_p first_p then
                strncpy pattern ''bullish'' (size_sub pattern_len 1)
              else if dgt change_pct (Finite lit_0_05) \<and> dlt last_p first_p then
                strncpy pattern ''bearish'' (size_sub pattern_len 1)
              else if dgt cv (Finite lit_0_1) then
                strncpy pattern ''volatile'' (size_sub pattern_len 1)
              else
                strncpy pattern ''stable'' (size_sub pattern_len 1));
        wr p (size_sub pattern_len 1) NUL
      })"

subsection \<open>The analysis\<close>

text \<open>
  The four loops
  \<^verbatim>\<open>while (!isEmpty(dq) && prices[back(dq)] <= prices[i]) popBack(dq);\<close>
  (with \<^verbatim>\<open><=\<close> for the deque of maxima and \<^verbatim>\<open>>=\<close> for the deque of minima), with the
  comparison as a parameter.
\<close>

partial_function (option) pop_back_while ::
  "(real \<Rightarrow> real \<Rightarrow> bool) \<Rightarrow> real list \<Rightarrow> nat \<Rightarrow> Deque \<Rightarrow> Deque option" where
  "pop_back_while rel prices i dq =
     (if isEmptyDeque dq then Some dq
      else do {
        j \<leftarrow> back_dq dq;
        pj \<leftarrow> rd prices j;
        pc \<leftarrow> rd prices i;
        if rel pj pc then do { dq' \<leftarrow> popBack dq; pop_back_while rel prices i dq' }
        else Some dq
      })"

declare pop_back_while.simps [code]

text \<open>
  The two loops \<^verbatim>\<open>while (!isEmpty(dq) && front(dq) <= out_idx) popFront(dq);\<close>
\<close>

partial_function (option) pop_front_while :: "nat \<Rightarrow> Deque \<Rightarrow> Deque option" where
  "pop_front_while out_idx dq =
     (if isEmptyDeque dq then Some dq
      else do {
        j \<leftarrow> front dq;
        if j \<le> out_idx then do { dq' \<leftarrow> popFront dq; pop_front_while out_idx dq' }
        else Some dq
      })"

declare pop_front_while.simps [code]

text \<open>The local variables of \<^verbatim>\<open>analyzeSlidingWindow\<close> that the loops change.\<close>

record sw_state =
  s_sum :: cdouble
  s_sum_sq :: cdouble
  s_max_dq :: Deque
  s_min_dq :: Deque
  s_windows :: "WindowStats list"

text \<open>
  The first loop, \<^verbatim>\<open>for (i = 0; i < windowSize; i++)\<close>, from index \<open>i\<close> on, with
  \<^verbatim>\<open>sum += prices[i]; sum_sq += prices[i] * prices[i];\<close>
\<close>

function first_window_loop :: "real list \<Rightarrow> nat \<Rightarrow> nat \<Rightarrow> sw_state \<Rightarrow> sw_state option" where
  "first_window_loop prices windowSize i st =
     (if i < windowSize then
        do {
          p \<leftarrow> rd prices i;
          max1 \<leftarrow> pop_back_while (\<le>) prices i (s_max_dq st);
          max2 \<leftarrow> pushBack max1 i;
          min1 \<leftarrow> pop_back_while (\<ge>) prices i (s_min_dq st);
          min2 \<leftarrow> pushBack min1 i;
          first_window_loop prices windowSize (i + 1)
            (st\<lparr>s_sum := dadd (s_sum st) (Finite p),
                 s_sum_sq := dadd (s_sum_sq st) (dmul (Finite p) (Finite p)),
                 s_max_dq := max2, s_min_dq := min2\<rparr>)
        }
      else Some st)"
  by pat_completeness auto
termination
  by (relation "measure (\<lambda>(prices, windowSize, i, st). windowSize - i)") auto

declare first_window_loop.simps [simp del]

text \<open>
  Storing the result of window \<open>i\<close>, whose last index is \<open>in_idx\<close>: the mean and the
  variance from the running sums, the extrema from the fronts of the deques, and the
  pattern. The source has this block twice, for window 0 after the first loop (with
  \<open>i = 0\<close> and \<open>in_idx = windowSize - 1\<close>) and at the end of the body of the second loop:
  \<^verbatim>\<open>avg = sum / windowSize; variance = (sum_sq / windowSize) - (avg * avg);\<close>
\<close>

definition store_window :: "real list \<Rightarrow> nat \<Rightarrow> nat \<Rightarrow> nat \<Rightarrow> sw_state \<Rightarrow> sw_state option" where
  "store_window prices windowSize i in_idx st =
     (let avg = ddiv (s_sum st) (d_of_nat windowSize);
          variance = dsub (ddiv (s_sum_sq st) (d_of_nat windowSize)) (dmul avg avg)
      in do {
        jmax \<leftarrow> front (s_max_dq st);
        vmax \<leftarrow> rd prices jmax;
        jmin \<leftarrow> front (s_min_dq st);
        vmin \<leftarrow> rd prices jmin;
        first_p \<leftarrow> rd prices i;
        last_p \<leftarrow> rd prices in_idx;
        old \<leftarrow> rd (s_windows st) i;
        pat \<leftarrow> classifyPattern (Finite first_p) (Finite last_p) variance avg (w_pattern old) 32;
        ws \<leftarrow> wr (s_windows st) i
               \<lparr>w_max = Finite vmax, w_min = Finite vmin, w_avg = avg, w_pattern = pat\<rparr>;
        Some (st\<lparr>s_windows := ws\<rparr>)
      })"

text \<open>
  The second loop, \<^verbatim>\<open>for (i = 1; i < num_windows; i++)\<close>, from window \<open>i\<close> on, with
  \<^verbatim>\<open>sum = sum - prices[out_idx] + prices[in_idx];\<close>
  \<^verbatim>\<open>sum_sq = sum_sq - (prices[out_idx] * prices[out_idx]) + (prices[in_idx] * prices[in_idx]);\<close>
\<close>

function slide_loop :: "real list \<Rightarrow> nat \<Rightarrow> nat \<Rightarrow> nat \<Rightarrow> sw_state \<Rightarrow> sw_state option" where
  "slide_loop prices windowSize num_windows i st =
     (if i < num_windows then
        (let out_idx = size_sub i 1;
             in_idx = size_sub (size_add i windowSize) 1
         in do {
           pout \<leftarrow> rd prices out_idx;
           pin \<leftarrow> rd prices in_idx;
           max0 \<leftarrow> pop_front_while out_idx (s_max_dq st);
           min0 \<leftarrow> pop_front_while out_idx (s_min_dq st);
           max1 \<leftarrow> pop_back_while (\<le>) prices in_idx max0;
           max2 \<leftarrow> pushBack max1 in_idx;
           min1 \<leftarrow> pop_back_while (\<ge>) prices in_idx min0;
           min2 \<leftarrow> pushBack min1 in_idx;
           st' \<leftarrow> store_window prices windowSize i in_idx
                   (st\<lparr>s_sum := dadd (dsub (s_sum st) (Finite pout)) (Finite pin),
                        s_sum_sq := dadd (dsub (s_sum_sq st) (dmul (Finite pout) (Finite pout)))
                                      (dmul (Finite pin) (Finite pin)),
                        s_max_dq := max2, s_min_dq := min2\<rparr>);
           slide_loop prices windowSize num_windows (i + 1) st'
         })
      else Some st)"
  by pat_completeness auto
termination
  by (relation "measure (\<lambda>(prices, windowSize, num_windows, i, st). num_windows - i)") auto

declare slide_loop.simps [simp del]

text \<open>
  The contents of the block \<^verbatim>\<open>malloc(num_windows * sizeof(WindowStats))\<close> before
  anything is written to it are indeterminate; the model fills it with this record.
  Every field of every element is written before the call returns.
\<close>

definition fresh_window :: WindowStats where
  "fresh_window =
     \<lparr>w_max = Finite 0, w_min = Finite 0, w_avg = Finite 0, w_pattern = replicate 32 NUL\<rparr>"

text \<open>
  \<^verbatim>\<open>analyzeSlidingWindow(prices, length, windowSize, out_window_result_handle, ...)\<close>;
  \<open>out_handle\<close> tells whether the output pointer is non-NULL. Both deques are created
  before either is tested.
\<close>

definition analyzeSlidingWindow ::
  "bool list \<Rightarrow> cdouble list option \<Rightarrow> nat \<Rightarrow> bool \<Rightarrow> (int \<times> WindowResult out_effect) option" where
  "analyzeSlidingWindow al prices windowSize out_handle =
     (case prices of
        None \<Rightarrow> Some (- 1, Untouched)
      | Some ps \<Rightarrow>
          if \<not> out_handle then Some (- 1, Untouched)
          else if length ps = 0 \<or> length ps > MAX_ARRAY_SIZE \<or> windowSize = 0 \<or>
                  windowSize > length ps then Some (- 2, Untouched)
          else if \<not> validate_prices ps then Some (- 4, Untouched)
          else
            (let num_windows = size_add (size_sub (length ps) windowSize) 1 in
             case malloc al of
               (False, al1) \<Rightarrow> Some (- 3, Untouched)
             | (True, al1) \<Rightarrow>
                 (case malloc al1 of
                    (False, al2) \<Rightarrow> Some (- 3, Untouched)
                  | (True, al2) \<Rightarrow>
                      (case createDeque al2 (size_add windowSize 1) of
                         (max_dq, al3) \<Rightarrow>
                           (case createDeque al3 (size_add windowSize 1) of
                              (min_dq, al4) \<Rightarrow>
                                (case (max_dq, min_dq) of
                                   (Some max_dq, Some min_dq) \<Rightarrow>
                                     do {
                                       st1 \<leftarrow> first_window_loop (map fin ps) windowSize 0
                                               \<lparr>s_sum = Finite 0, s_sum_sq = Finite 0, s_max_dq = max_dq,
                                                s_min_dq = min_dq,
                                                s_windows = replicate num_windows fresh_window\<rparr>;
                                       st2 \<leftarrow> store_window (map fin ps) windowSize 0
                                               (size_sub windowSize 1) st1;
                                       st3 \<leftarrow> slide_loop (map fin ps) windowSize num_windows 1 st2;
                                       Some (0, Stored \<lparr>r_windows = s_windows st3,
                                                        r_num_windows = num_windows,
                                                        r_window_size = windowSize\<rparr>)
                                     }
                                 | _ \<Rightarrow> Some (- 3, Untouched)))))))"

text \<open>
  \<^verbatim>\<open>getWindowResult(window_handle, idx, out_max, out_min, out_avg, out_pattern,
  out_pattern_len, ...)\<close>. The three numeric outputs go to the memory of doubles; the
  pattern buffer of the caller is a list of \<open>out_pattern_len\<close> characters, or NULL.
  The result is the status, the memory and the buffer after the call.
\<close>

definition getWindowResult ::
  "WindowResult option \<Rightarrow> nat \<Rightarrow> nat option \<Rightarrow> nat option \<Rightarrow> nat option \<Rightarrow>
   char list option \<Rightarrow> (nat \<Rightarrow> cdouble) \<Rightarrow>
   (int \<times> (nat \<Rightarrow> cdouble) \<times> char list option) option" where
  "getWindowResult window_handle idx out_max out_min out_avg out_pattern mem =
     (case window_handle of
        None \<Rightarrow> Some (- 1, mem, out_pattern)
      | Some result \<Rightarrow>
          if idx \<ge> r_num_windows result then Some (- 2, mem, out_pattern)
          else do {
            w \<leftarrow> rd (r_windows result) idx;
            let mem1 = store out_max (w_max w) mem;
            let mem2 = store out_min (w_min w) mem1;
            let mem3 = store out_avg (w_avg w) mem2;
            (case out_pattern of
               None \<Rightarrow> Some (0, mem3, None)
             | Some buf \<Rightarrow>
                 if length buf > 0 then
                   do {
                     b1 \<leftarrow> strncpy buf (w_pattern w) (size_sub (length buf) 1);
                     b2 \<leftarrow> wr b1 (size_sub (length buf) 1) NUL;
                     Some (0, mem3, Some b2)
                   }
                 else Some (0, mem3, Some buf))
          })"

section \<open>Abstractions used in the proofs\<close>

text \<open>All allocations of a call succeed.\<close>

definition alloc_ok :: "bool list \<Rightarrow> bool" where
  "alloc_ok al = list_all (\<lambda>b. b) al"

subsection \<open>Stock span\<close>

text \<open>
  The contents of the index stack, top first, and the invariant of the outer loop: the
  stack cuts the prefix \<open>[0, hi)\<close> of the prices into consecutive blocks, each ending at
  a stacked index whose price is the largest of its block.
\<close>

definition stk :: "IndexStack \<Rightarrow> nat list" where
  "stk s = rev (take (st_top s) (st_data s))"

fun blocks :: "real list \<Rightarrow> nat list \<Rightarrow> nat \<Rightarrow> bool" where
  "blocks ps [] hi = (hi = 0)"
| "blocks ps (j # S) hi =
     (hi = Suc j \<and> (\<exists>lo\<le>j. (\<forall>m. lo \<le> m \<and> m \<le> j \<longrightarrow> ps ! m \<le> ps ! j) \<and> blocks ps S lo))"

subsection \<open>Range aggregation tree\<close>

text \<open>
  A leaf node and the layout of a built tree.
\<close>

definition leaf :: "real \<Rightarrow> TreeNode" where
  "leaf p = \<lparr>n_min = Finite p, n_max = Finite p, n_sum = Finite p,
             n_sum_sq = dmul (Finite p) (Finite p), n_count = 1\<rparr>"

definition tree_layout :: "real list \<Rightarrow> SegmentTree \<Rightarrow> bool" where
  "tree_layout ps t \<longleftrightarrow>
     t_length t = length ps \<and> t_tree_size t = 2 * length ps \<and>
     length (t_nodes t) = 2 * length ps \<and> t_nodes t ! 0 = None \<and>
     (\<forall>i<length ps. t_nodes t ! (length ps + i) = Some (leaf (ps ! i))) \<and>
     (\<forall>k. 1 \<le> k \<and> k < length ps \<longrightarrow>
        (\<exists>l r. t_nodes t ! (2 * k) = Some l \<and> t_nodes t ! (2 * k + 1) = Some r \<and>
               t_nodes t ! k = Some (mergeNodes l r)))"

text \<open>
  The sums that a multiset of prices allows to be computed without rounding: every sum
  of some of its elements is a double. The order in which the tree adds does not matter
  then.
\<close>

definition exact_sums :: "real multiset \<Rightarrow> bool" where
  "exact_sums M \<longleftrightarrow> (\<forall>N. N \<subseteq># M \<longrightarrow> rnd (sum_mset N) = Finite (sum_mset N))"

definition squares :: "real multiset \<Rightarrow> real multiset" where
  "squares M = image_mset (\<lambda>x. x * x) M"

text \<open>
  A double sum of a multiset of doubles: the result of adding exactly the elements of
  the multiset, each of them once, in some order and grouping of the additions, every
  addition rounded.
\<close>

inductive fp_sum :: "cdouble multiset \<Rightarrow> cdouble \<Rightarrow> bool" where
  fp_single: "fp_sum {#x#} x"
| fp_add: "fp_sum M a \<Longrightarrow> fp_sum N b \<Longrightarrow> fp_sum (M + N) (dadd a b)"

text \<open>
  A node that aggregates the multiset \<open>M\<close> of prices: its minimum, maximum and count are
  those of \<open>M\<close>, its sum is a double sum of the prices of \<open>M\<close> and its sum of squares a
  double sum of their squares (each a double product); they are the sums of \<open>M\<close> where
  these are computed without rounding.
\<close>

definition node_ok :: "real multiset \<Rightarrow> TreeNode \<Rightarrow> bool" where
  "node_ok M nd \<longleftrightarrow>
     n_min nd = Finite (Min (set_mset M)) \<and> n_max nd = Finite (Max (set_mset M)) \<and>
     n_count nd = size M \<and>
     fp_sum (image_mset Finite M) (n_sum nd) \<and>
     fp_sum (image_mset (\<lambda>p. dmul (Finite p) (Finite p)) M) (n_sum_sq nd) \<and>
     (exact_sums M \<longrightarrow> n_sum nd = Finite (sum_mset M)) \<and>
     (exact_sums (squares M) \<longrightarrow> n_sum_sq nd = Finite (sum_mset (squares M)))"

text \<open>The multiset of prices below node \<open>k\<close> of the tree over \<open>ps\<close>.\<close>

function cover :: "real list \<Rightarrow> nat \<Rightarrow> real multiset" where
  "cover ps k =
     (if k = 0 \<or> 2 * length ps \<le> k then {#}
      else if length ps \<le> k then {#ps ! (k - length ps)#}
      else cover ps (2 * k) + cover ps (2 * k + 1))"
  by pat_completeness auto

termination
  by (relation "measure (\<lambda>(ps, k). 2 * length ps - k)") auto

declare cover.simps [simp del]

definition query_init :: TreeNode where
  "query_init = \<lparr>n_min = Finite DBL_MAX, n_max = Finite (- DBL_MAX), n_sum = Finite 0,
                 n_sum_sq = Finite 0, n_count = 0\<rparr>"

text \<open>
  The mean and the variance that \<open>querySegmentTree\<close> derives from an accumulated node.
\<close>

definition node_avg :: "TreeNode \<Rightarrow> cdouble" where
  "node_avg nd = ddiv (n_sum nd) (d_of_nat (n_count nd))"

definition node_variance :: "TreeNode \<Rightarrow> cdouble" where
  "node_variance nd =
     dsub (ddiv (n_sum_sq nd) (d_of_nat (n_count nd))) (dmul (node_avg nd) (node_avg nd))"


subsection \<open>Sliding window analysis\<close>

text \<open>
  The contents of a circular deque from front to back, its well-formedness, the
  invariant of a monotonic deque over the window \<open>[lo, hi)\<close> (\<open>key\<close> is the price for the
  deque of maxima and the negated price for the deque of minima), and the label that
  \<open>classifyPattern\<close> writes with the buffer holding it.
\<close>

definition dq_size :: "Deque \<Rightarrow> nat" where
  "dq_size d = (d_back d + d_capacity d - d_front d) mod d_capacity d"

definition dq_list :: "Deque \<Rightarrow> nat list" where
  "dq_list d = map (\<lambda>k. d_indices d ! ((d_front d + k) mod d_capacity d)) [0..<dq_size d]"

definition dq_wf :: "Deque \<Rightarrow> bool" where
  "dq_wf d \<longleftrightarrow> 0 < d_capacity d \<and> d_capacity d < 2 ^ 63 \<and>
     length (d_indices d) = d_capacity d \<and> d_front d < d_capacity d \<and> d_back d < d_capacity d"

definition drop_back :: "('a \<Rightarrow> bool) \<Rightarrow> 'a list \<Rightarrow> 'a list" where
  "drop_back P xs = rev (dropWhile P (rev xs))"

definition mono_inv :: "(nat \<Rightarrow> real) \<Rightarrow> nat list \<Rightarrow> nat \<Rightarrow> nat \<Rightarrow> bool" where
  "mono_inv key L lo hi \<longleftrightarrow>
     sorted_wrt (<) L \<and> set L \<subseteq> {lo..<hi} \<and> sorted_wrt (\<lambda>a b. key b < key a) L \<and>
     (\<forall>m. lo \<le> m \<and> m < hi \<longrightarrow> (\<exists>j\<in>set L. m \<le> j \<and> key m \<le> key j))"

definition classify :: "cdouble \<Rightarrow> cdouble \<Rightarrow> cdouble \<Rightarrow> cdouble \<Rightarrow> string" where
  "classify first_p last_p variance mean =
     (let change_pct = dfabs (ddiv (dsub last_p first_p) first_p);
          cv = ddiv (dsqrt variance) (dfabs mean)
      in if dgt change_pct (Finite lit_0_05) \<and> dgt last_p first_p then ''bullish''
         else if dgt change_pct (Finite lit_0_05) \<and> dlt last_p first_p then ''bearish''
         else if dgt cv (Finite lit_0_1) then ''volatile''
         else ''stable'')"

definition pattern_buf :: "string \<Rightarrow> char list" where
  "pattern_buf label = label @ replicate (32 - length label) NUL"

text \<open>
  The doubles that the variables \<^verbatim>\<open>sum\<close> and \<^verbatim>\<open>sum_sq\<close> hold: after \<open>k\<close> iterations of the
  first loop, and when window \<open>i\<close> is stored. Window 0 is stored with the sums of the
  first loop, and window \<open>i + 1\<close> with the sums of window \<open>i\<close> after the price at \<open>i\<close> is
  subtracted and the price at \<open>i + w\<close> is added, each operation rounded.
\<close>

fun prefix_sum :: "real list \<Rightarrow> nat \<Rightarrow> cdouble" where
  "prefix_sum ps 0 = Finite 0"
| "prefix_sum ps (Suc k) = dadd (prefix_sum ps k) (Finite (ps ! k))"

fun prefix_sum_sq :: "real list \<Rightarrow> nat \<Rightarrow> cdouble" where
  "prefix_sum_sq ps 0 = Finite 0"
| "prefix_sum_sq ps (Suc k) =
     dadd (prefix_sum_sq ps k) (dmul (Finite (ps ! k)) (Finite (ps ! k)))"

fun win_sum :: "real list \<Rightarrow> nat \<Rightarrow> nat \<Rightarrow> cdouble" where
  "win_sum ps w 0 = prefix_sum ps w"
| "win_sum ps w (Suc i) =
     dadd (dsub (win_sum ps w i) (Finite (ps ! i))) (Finite (ps ! (i + w)))"

fun win_sum_sq :: "real list \<Rightarrow> nat \<Rightarrow> nat \<Rightarrow> cdouble" where
  "win_sum_sq ps w 0 = prefix_sum_sq ps w"
| "win_sum_sq ps w (Suc i) =
     dadd (dsub (win_sum_sq ps w i) (dmul (Finite (ps ! i)) (Finite (ps ! i))))
          (dmul (Finite (ps ! (i + w))) (Finite (ps ! (i + w))))"

text \<open>
  The mean and the variance that the analysis computes for window \<open>i\<close>, the invariant
  of its local variables, and the record that it stores for window \<open>i\<close>.
\<close>

definition win_avg :: "real list \<Rightarrow> nat \<Rightarrow> nat \<Rightarrow> cdouble" where
  "win_avg ps w i = ddiv (win_sum ps w i) (d_of_nat w)"

definition win_variance :: "real list \<Rightarrow> nat \<Rightarrow> nat \<Rightarrow> cdouble" where
  "win_variance ps w i =
     dsub (ddiv (win_sum_sq ps w i) (d_of_nat w)) (dmul (win_avg ps w i) (win_avg ps w i))"

definition sw_inv :: "real list \<Rightarrow> nat \<Rightarrow> nat \<Rightarrow> nat \<Rightarrow> sw_state \<Rightarrow> bool" where
  "sw_inv ps w lo hi st \<longleftrightarrow>
     dq_wf (s_max_dq st) \<and> dq_wf (s_min_dq st) \<and>
     d_capacity (s_max_dq st) = w + 1 \<and> d_capacity (s_min_dq st) = w + 1 \<and>
     mono_inv (\<lambda>j. ps ! j) (dq_list (s_max_dq st)) lo hi \<and>
     mono_inv (\<lambda>j. - ps ! j) (dq_list (s_min_dq st)) lo hi \<and>
     s_sum st = (if lo = 0 then prefix_sum ps hi else win_sum ps w lo) \<and>
     s_sum_sq st = (if lo = 0 then prefix_sum_sq ps hi else win_sum_sq ps w lo)"

definition window_stats :: "real list \<Rightarrow> nat \<Rightarrow> nat \<Rightarrow> WindowStats" where
  "window_stats ps w i =
     (let xs = slice ps i (i + w - 1)
      in \<lparr>w_max = Finite (Max (set xs)), w_min = Finite (Min (set xs)), w_avg = win_avg ps w i,
          w_pattern = pattern_buf (classify (Finite (ps ! i)) (Finite (ps ! (i + w - 1)))
                                     (win_variance ps w i) (win_avg ps w i))\<rparr>)"

definition fresh_deque :: "nat \<Rightarrow> Deque" where
  "fresh_deque c = \<lparr>d_indices = replicate c 0, d_front = 0, d_back = 0, d_capacity = c\<rparr>"

definition analyze_spec :: "real list \<Rightarrow> nat \<Rightarrow> WindowResult" where
  "analyze_spec ps w =
     \<lparr>r_windows = map (window_stats ps w) [0..<length ps - w + 1],
      r_num_windows = length ps - w + 1, r_window_size = w\<rparr>"

text \<open>
  The classification rule in the words of the specification, with
  \<open>changePct = |last - first| / first\<close>, to be compared with \<open>classify\<close>, the rule of
  the source; the operations are those of doubles in both.
\<close>

definition spec_pattern :: "cdouble \<Rightarrow> cdouble \<Rightarrow> cdouble \<Rightarrow> cdouble \<Rightarrow> string" where
  "spec_pattern first_p last_p variance mean =
     (let changePct = ddiv (dfabs (dsub last_p first_p)) first_p
      in if dgt changePct (Finite lit_0_05) \<and> dgt last_p first_p then ''bullish''
         else if dgt changePct (Finite lit_0_05) \<and> dlt last_p first_p then ''bearish''
         else (let cv = ddiv (dsqrt variance) (dfabs mean)
               in if dgt cv (Finite lit_0_1) then ''volatile'' else ''stable''))"

text \<open>
  A deque in the state the analysis keeps it in: capacity \<open>w + 1\<close>, both cursors inside
  the buffer, at most \<open>hi - lo \<le> w\<close> indices, all of them in \<open>[lo, hi)\<close>.
\<close>

definition deque_ok :: "nat \<Rightarrow> nat \<Rightarrow> nat \<Rightarrow> Deque \<Rightarrow> bool" where
  "deque_ok w lo hi d \<longleftrightarrow>
     d_capacity d = w + 1 \<and> length (d_indices d) = w + 1 \<and> d_front d \<le> w \<and> d_back d \<le> w \<and>
     dq_size d \<le> hi - lo \<and> hi - lo \<le> w \<and> set (dq_list d) \<subseteq> {lo..<hi}"

text \<open>
  Index \<open>hi\<close> enters the deque \<open>d\<close> and leaves it as \<open>d2\<close>: the loop that pops from the back
  returns a deque with fewer than \<open>w\<close> indices, and \<open>pushBack\<close> appends \<open>hi\<close> to them.
\<close>

definition add_index_ok ::
  "nat \<Rightarrow> nat \<Rightarrow> nat \<Rightarrow> (real \<Rightarrow> real \<Rightarrow> bool) \<Rightarrow> real list \<Rightarrow> Deque \<Rightarrow> Deque \<Rightarrow> bool" where
  "add_index_ok w lo hi rel ps d d2 \<longleftrightarrow>
     (\<exists>d1. pop_back_while rel ps hi d = Some d1 \<and> deque_ok w lo hi d1 \<and> dq_size d1 < w \<and>
           dq_size d1 \<le> dq_size d \<and> pushBack d1 hi = Some d2 \<and>
           dq_list d2 = dq_list d1 @ [hi] \<and> deque_ok w lo (Suc hi) d2)"

text \<open>The front of a non-empty deque is read and is an index in \<open>[lo, hi)\<close>.\<close>

definition front_ok :: "nat \<Rightarrow> nat \<Rightarrow> Deque \<Rightarrow> bool" where
  "front_ok lo hi d \<longleftrightarrow> \<not> isEmptyDeque d \<and> (\<exists>j. front d = Some j \<and> lo \<le> j \<and> j < hi)"

text \<open>The local variables of \<open>analyzeSlidingWindow\<close> when the first loop starts.\<close>

definition sw_init :: "real list \<Rightarrow> nat \<Rightarrow> sw_state" where
  "sw_init ps w =
     \<lparr>s_sum = Finite 0, s_sum_sq = Finite 0, s_max_dq = fresh_deque (w + 1), s_min_dq = fresh_deque (w + 1),
      s_windows = replicate (length ps - w + 1) fresh_window\<rparr>"

section \<open>Basic facts\<close>

lemma rd_Some [simp]: "i < length xs \<Longrightarrow> rd xs i = Some (xs ! i)"
  by (simp add: rd_def)

lemma wr_Some [simp]: "i < length xs \<Longrightarrow> wr xs i v = Some (xs[i := v])"
  by (simp add: wr_def)

lemma int_of_size_t_small: "n < 2 ^ 31 \<Longrightarrow> int_of_size_t n = int n"
proof -
  assume "n < 2 ^ 31"
  then have "int n < 2 ^ 31" by (metis of_nat_less_iff of_nat_numeral of_nat_power)
  then show ?thesis by (simp add: int_of_size_t_def)
qed

lemma validate_prices_iff: "validate_prices ps \<longleftrightarrow> (\<forall>p\<in>set ps. \<exists>x. p = Finite x)"
proof (induction ps)
  case Nil
  then show ?case by simp
next
  case (Cons p ps)
  then show ?case by (cases p) auto
qed

lemma validated_nth: "validate_prices ps \<Longrightarrow> j < length ps \<Longrightarrow> ps ! j = Finite (fin (ps ! j))"
proof -
  assume "validate_prices ps" "j < length ps"
  then obtain x where "ps ! j = Finite x" using validate_prices_iff nth_mem by blast
  then show ?thesis by simp
qed

lemma malloc_ok: "alloc_ok al \<Longrightarrow> \<exists>al'. malloc al = (True, al') \<and> alloc_ok al'"
  by (cases al) (auto simp: alloc_ok_def)

lemma size_add_small: "a + b < 2 ^ 64 \<Longrightarrow> size_add a b = a + b"
  by (simp add: size_add_def)

lemma size_sub_le: "b \<le> a \<Longrightarrow> a < 2 ^ 64 \<Longrightarrow> size_sub a b = a - b"
proof -
  assume a: "b \<le> a" "a < 2 ^ 64"
  then have "a + (2 ^ 64 - b mod 2 ^ 64) = (a - b) + 1 * 2 ^ 64" by simp
  then have "size_sub a b = (a - b) mod 2 ^ 64"
    unfolding size_sub_def by (metis mod_mult_self1)
  then show ?thesis using a by simp
qed

subsection \<open>Rounding\<close>

lemma pow2_powr: "pow2 e = 2 powr (of_int e)"
  by (simp add: pow2_def powr_real_of_int field_simps)

lemma pow2_pos [simp]: "0 < pow2 e"
  by (simp add: pow2_powr)

lemma pow2_not_le [simp]: "\<not> pow2 e \<le> 0"
  using pow2_pos[of e] by linarith

lemma pow2_abs [simp]: "\<bar>pow2 e\<bar> = pow2 e"
  using pow2_pos[of e] by linarith

lemma pow2_neq0 [simp]: "pow2 e \<noteq> 0"
  using pow2_pos[of e] by linarith

lemma pow2_add: "pow2 (a + b) = pow2 a * pow2 b"
  by (simp add: pow2_powr powr_add)

lemma pow2_div: "pow2 a / pow2 b = pow2 (a - b)"
  by (simp add: pow2_powr powr_diff)

lemma pow2_mono: "a \<le> b \<Longrightarrow> pow2 a \<le> pow2 b"
  by (simp add: pow2_powr)

lemma pow2_less: "a < b \<Longrightarrow> pow2 a < pow2 b"
  by (simp add: pow2_powr)

lemma pow2_nat: "0 \<le> e \<Longrightarrow> pow2 e = of_int (2 ^ nat e)"
  by (simp add: pow2_def)

lemma expo_eq:
  assumes "pow2 e \<le> \<bar>x\<bar>" "\<bar>x\<bar> < pow2 (e + 1)"
  shows "expo x = e"
proof -
  have "0 < \<bar>x\<bar>" using assms(1) pow2_pos[of e] by linarith
  then show ?thesis
    unfolding expo_def using assms
    by (subst floor_log_eq_powr_iff) (simp_all add: pow2_powr)
qed

lemma expo_bounds:
  assumes "x \<noteq> 0"
  shows "pow2 (expo x) \<le> \<bar>x\<bar>" "\<bar>x\<bar> < pow2 (expo x + 1)"
proof -
  have "0 < \<bar>x\<bar>" using assms by simp
  then have "2 powr (of_int (expo x)) \<le> \<bar>x\<bar> \<and> \<bar>x\<bar> < 2 powr (of_int (expo x + 1))"
    using floor_log_eq_powr_iff[of "\<bar>x\<bar>" 2 "expo x"] by (simp add: expo_def)
  then show "pow2 (expo x) \<le> \<bar>x\<bar>" "\<bar>x\<bar> < pow2 (expo x + 1)"
    by (simp_all add: pow2_powr)
qed

lemma round_even_int [simp]: "round_even (of_int m) = m"
  by (simp add: round_even_def)

lemma floor_step_bound: "(F::int) < B \<Longrightarrow> - B \<le> F \<Longrightarrow> R = F \<or> R = F + 1 \<Longrightarrow> \<bar>R\<bar> \<le> B"
  by auto

lemma rnd_eval:
  assumes "pow2 e \<le> \<bar>x\<bar>" "\<bar>x\<bar> < pow2 (e + 1)" "- 1022 \<le> e" "e < 1023"
    and "round_even (x / pow2 (e - 52)) = m"
  shows "rnd x = Finite (of_int m * pow2 (e - 52))"
proof -
  have x0: "x \<noteq> 0" using assms(1) pow2_pos[of e] by auto
  have e: "expo x = e" using expo_eq[OF assms(1,2)] .
  have t: "max (e - 52) (- 1074) = e - 52" using assms(3) by simp
  let ?q = "pow2 (e - 52)"
  let ?y = "x / ?q"
  have q: "0 < ?q" by simp
  have "\<bar>?y\<bar> < pow2 (e + 1) / ?q" using assms(2) q by (simp add: divide_strict_right_mono)
  also have "pow2 (e + 1) / ?q = pow2 53"
    by (simp add: pow2_div)
  finally have y: "\<bar>?y\<bar> < pow2 53" .
  have "\<bar>real_of_int (round_even ?y)\<bar> \<le> pow2 53"
  proof -
    have p: "pow2 53 = of_int (2 ^ 53)" by (simp add: pow2_def)
    have "?y < of_int (2 ^ 53)" "of_int (- (2 ^ 53)) \<le> ?y" using y p by linarith+
    then have F: "\<lfloor>?y\<rfloor> < 2 ^ 53" "- (2 ^ 53) \<le> \<lfloor>?y\<rfloor>"
      by (simp only: floor_less_iff, simp only: le_floor_iff)
    have "round_even ?y = \<lfloor>?y\<rfloor> \<or> round_even ?y = \<lfloor>?y\<rfloor> + 1"
      by (simp add: round_even_def Let_def)
    then have "\<bar>round_even ?y\<bar> \<le> 2 ^ 53" by (rule floor_step_bound[OF F])
    then have "real_of_int \<bar>round_even ?y\<bar> \<le> real_of_int (2 ^ 53)"
      by (simp only: of_int_le_iff)
    then show ?thesis unfolding p by simp
  qed
  then have "\<bar>real_of_int (round_even ?y) * ?q\<bar> \<le> pow2 53 * ?q"
    using q by (simp add: abs_mult mult_right_mono)
  also have "pow2 53 * ?q = pow2 (e + 1)" by (simp add: pow2_add[symmetric] add.commute)
  also have "\<dots> \<le> pow2 1023" using assms(4) by (intro pow2_mono) simp
  also have "\<dots> < pow2 1024" by (intro pow2_less) simp
  finally have "\<not> pow2 1024 \<le> \<bar>real_of_int (round_even ?y) * ?q\<bar>" by simp
  then show ?thesis
    unfolding rnd_def Let_def e t using x0 assms(5) by simp
qed

lemma rnd_exact:
  assumes "x = of_int m * pow2 j" "\<bar>m\<bar> < 2 ^ 53" "- 1074 \<le> j" "\<bar>x\<bar> < pow2 1024"
  shows "rnd x = Finite x"
proof (cases "x = 0")
  case True
  then show ?thesis by (simp add: rnd_def)
next
  case False
  define t where "t = max (expo x - 52) (- 1074)"
  have "\<bar>x\<bar> = \<bar>of_int m\<bar> * pow2 j" using assms(1) by (simp add: abs_mult)
  also have "\<dots> < of_int (2 ^ 53) * pow2 j"
  proof -
    have "\<bar>real_of_int m\<bar> < of_int (2 ^ 53)" using assms(2) by linarith
    then show ?thesis by (simp add: mult_strict_right_mono)
  qed
  also have "\<dots> = pow2 (53 + j)" using pow2_add[of 53 j] by (simp add: pow2_def)
  finally have "pow2 (expo x) < pow2 (53 + j)" using expo_bounds(1)[OF False] by linarith
  then have "expo x < 53 + j" by (simp add: pow2_powr)
  then have tj: "t \<le> j" using assms(3) by (simp add: t_def)
  have "x / pow2 t = of_int m * (pow2 j / pow2 t)" using assms(1) by simp
  also have "pow2 j / pow2 t = pow2 (j - t)" by (rule pow2_div)
  also have "pow2 (j - t) = of_int (2 ^ nat (j - t))" using tj by (simp add: pow2_def)
  finally have "x / pow2 t = of_int (m * 2 ^ nat (j - t))" by simp
  then have "round_even (x / pow2 t) = m * 2 ^ nat (j - t)"
    by (simp only: round_even_int)
  then have "of_int (round_even (x / pow2 t)) * pow2 t = x / pow2 t * pow2 t"
    using \<open>x / pow2 t = of_int (m * 2 ^ nat (j - t))\<close> by simp
  also have "\<dots> = x" by simp
  finally have y: "of_int (round_even (x / pow2 t)) * pow2 t = x" .
  show ?thesis
    unfolding rnd_def Let_def t_def[symmetric] y using False assms(4) by simp
qed

lemma rnd_int: "\<bar>m\<bar> < 2 ^ 53 \<Longrightarrow> rnd (of_int m) = Finite (of_int m)"
proof -
  assume a: "\<bar>m\<bar> < 2 ^ 53"
  have "\<bar>real_of_int m\<bar> < of_int (2 ^ 53)" using a by linarith
  also have "\<dots> \<le> pow2 1024" by (simp add: pow2_def)
  finally show ?thesis using a by (intro rnd_exact[of _ m 0]) (simp_all add: pow2_def)
qed


lemma lit_0_05: "rnd (5 / 100) = Finite lit_0_05"
proof -
  have "rnd (5 / 100) = Finite (of_int 7205759403792794 * pow2 (- 5 - 52))"
    by (rule rnd_eval) (simp_all add: pow2_def round_even_def)
  then show ?thesis by (simp add: pow2_def lit_0_05_def)
qed

lemma lit_0_1: "rnd (1 / 10) = Finite lit_0_1"
proof -
  have "rnd (1 / 10) = Finite (of_int 7205759403792794 * pow2 (- 4 - 52))"
    by (rule rnd_eval) (simp_all add: pow2_def round_even_def)
  then show ?thesis by (simp add: pow2_def lit_0_1_def)
qed

text \<open>Rounding is symmetric, and its result is a number or an infinity.\<close>

lemma round_even_neg: "round_even (- y) = - round_even y"
proof (cases "y = of_int \<lfloor>y\<rfloor>")
  case True
  then obtain k where k: "y = of_int k" by blast
  have "- y = of_int (- k)" using k by simp
  then have "round_even (- y) = - k" by (simp only: round_even_int)
  then show ?thesis unfolding k by simp
next
  case False
  have lt: "of_int \<lfloor>y\<rfloor> < y" using False of_int_floor_le[of y] by linarith
  have up: "y < of_int \<lfloor>y\<rfloor> + 1" by linarith
  have fl: "\<lfloor>- y\<rfloor> = - \<lfloor>y\<rfloor> - 1"
  proof (rule floor_unique)
    show "of_int (- \<lfloor>y\<rfloor> - 1) \<le> - y" using up by linarith
    show "- y < of_int (- \<lfloor>y\<rfloor> - 1) + 1" using lt by linarith
  qed
  show ?thesis
    unfolding round_even_def Let_def fl using lt up
    by (auto simp: algebra_simps)
qed

lemma rnd_neg: "rnd (- x) = dneg (rnd x)"
proof -
  have e: "expo (- x) = expo x" by (simp add: expo_def)
  show ?thesis
    unfolding rnd_def Let_def e
    by (simp add: round_even_neg)
qed

lemma round_even_nonneg: "0 \<le> y \<Longrightarrow> 0 \<le> round_even y"
  by (auto simp: round_even_def Let_def)

lemma rnd_nonneg: "0 \<le> x \<Longrightarrow> dfabs (rnd x) = rnd x"
proof -
  assume x: "0 \<le> x"
  have "0 \<le> round_even (x / pow2 t)" for t
  proof (rule round_even_nonneg)
    have "0 < pow2 t" by simp
    then show "0 \<le> x / pow2 t" using x by (intro divide_nonneg_pos)
  qed
  then have "0 \<le> real_of_int (round_even (x / pow2 t)) * pow2 t" for t
    using less_imp_le[OF pow2_pos[of t]] by (intro mult_nonneg_nonneg) (simp_all only: of_int_0_le_iff)
  then show ?thesis using x unfolding rnd_def Let_def by auto
qed

lemma dfabs_rnd: "dfabs (rnd x) = rnd \<bar>x\<bar>"
proof (cases "0 \<le> x")
  case True
  then show ?thesis using rnd_nonneg[of x] by simp
next
  case False
  then have a: "\<bar>x\<bar> = - x" "0 \<le> - x" by simp_all
  have "dfabs (rnd x) = dfabs (dneg (rnd (- x)))" using rnd_neg[of "- x"] 
    by (cases "rnd x"; cases "rnd (- x)") simp_all 
  also have "\<dots> = dfabs (rnd (- x))" by (cases "rnd (- x)") simp_all
  also have "\<dots> = rnd (- x)" using rnd_nonneg[OF a(2)] .
  finally show ?thesis unfolding a(1) .
qed

lemma rnd_not_NaN [simp]: "rnd x \<noteq> NaN"
  by (simp add: rnd_def Let_def)

lemma change_abs:
  assumes "0 < f"
  shows "dfabs (ddiv (dsub (Finite l) (Finite f)) (Finite f)) =
         ddiv (dfabs (dsub (Finite l) (Finite f))) (Finite f)"
proof (cases "rnd (l - f)")
  case (Finite d)
  have "dfabs (rnd (d / f)) = rnd (\<bar>d\<bar> / f)" using assms by (simp add: dfabs_rnd abs_divide)
  then show ?thesis using assms Finite by (simp add: dsub_def)
next
  case PosInf
  then show ?thesis using assms by (simp add: dsub_def)
next
  case NegInf
  then show ?thesis using assms by (simp add: dsub_def)
next
  case NaN
  then show ?thesis by simp
qed
section \<open>Verification of the stock span\<close>

lemma blocks_length: "blocks ps S hi \<Longrightarrow> length S \<le> hi"
  by (induction S arbitrary: hi) fastforce+

lemma blocks_less: "blocks ps S hi \<Longrightarrow> j \<in> set S \<Longrightarrow> j < hi"
proof (induction S arbitrary: hi)
  case Nil
  then show ?case by simp
next
  case (Cons a S)
  then show ?case by fastforce
qed

lemma stk_Nil: "stk s = [] \<longleftrightarrow> st_top s = 0 \<or> st_data s = []"
  by (auto simp: stk_def)

lemma stk_hd:
  "0 < st_top s \<Longrightarrow> st_top s \<le> length (st_data s) \<Longrightarrow>
   stk s = st_data s ! (st_top s - 1) # stk (s\<lparr>st_top := st_top s - 1\<rparr>)"
  by (cases "st_top s") (simp_all add: stk_def take_Suc_conv_app_nth)

lemma span_pop_loop_stk:
  "st_top s \<le> length (st_data s) \<Longrightarrow> \<forall>j\<in>set (stk s). j < length ps \<Longrightarrow> i < length ps \<Longrightarrow>
   \<exists>s'. span_pop_loop ps i s = Some s' \<and> st_data s' = st_data s \<and> st_top s' \<le> st_top s \<and>
        stk s' = dropWhile (\<lambda>j. ps ! j \<le> ps ! i) (stk s)"
proof (induction "st_top s" arbitrary: s)
  case 0
  then show ?case
    by (subst span_pop_loop.simps) (simp add: isEmpty_def stk_def)
next
  case (Suc n)
  let ?j = "st_data s ! (st_top s - 1)"
  let ?s1 = "s\<lparr>st_top := st_top s - 1\<rparr>"
  have hd: "stk s = ?j # stk ?s1"
    using Suc.hyps(2) Suc.prems(1) by (intro stk_hd) simp_all
  have jlt: "?j < length ps" using Suc.prems(2) hd by simp
  have pk: "peek s = Some ?j"
    using Suc.hyps(2) Suc.prems(1) by (simp add: peek_def)
  have pp: "pop s = Some (?j, ?s1)"
    using Suc.hyps(2) Suc.prems(1) by (simp add: pop_def)
  show ?case
  proof (cases "ps ! ?j \<le> ps ! i")
    case True
    have "\<exists>s'. span_pop_loop ps i ?s1 = Some s' \<and> st_data s' = st_data ?s1 \<and>
            st_top s' \<le> st_top ?s1 \<and> stk s' = dropWhile (\<lambda>j. ps ! j \<le> ps ! i) (stk ?s1)"
      using Suc.hyps(2) Suc.prems hd by (intro Suc.hyps(1)) simp_all
    then obtain s' where s': "span_pop_loop ps i ?s1 = Some s'" "st_data s' = st_data s"
      "st_top s' \<le> st_top s - 1" "stk s' = dropWhile (\<lambda>j. ps ! j \<le> ps ! i) (stk ?s1)"
      by auto
    have "span_pop_loop ps i s = Some s'"
      using Suc.hyps(2) pk pp jlt Suc.prems(3) True s'(1)
      by (subst span_pop_loop.simps) (simp add: isEmpty_def)
    then show ?thesis using s' hd True by auto
  next
    case False
    have "span_pop_loop ps i s = Some s"
      using Suc.hyps(2) pk jlt Suc.prems(3) False
      by (subst span_pop_loop.simps) (simp add: isEmpty_def)
    then show ?thesis using hd False by simp
  qed
qed


lemma blocks_suffix:
  "blocks ps (S1 @ g # S) hi \<Longrightarrow> blocks ps (g # S) (Suc g)"
  by (induction S1 arbitrary: hi) auto

lemma blocks_unique: "blocks ps S hi \<Longrightarrow> blocks ps S lo \<Longrightarrow> hi = lo"
  by (cases S) auto

lemma blocks_popped:
  "blocks ps (S1 @ S) hi \<Longrightarrow> \<forall>j\<in>set S1. ps ! j \<le> v \<Longrightarrow> blocks ps S lo \<Longrightarrow>
   lo \<le> m \<Longrightarrow> m < hi \<Longrightarrow> ps ! m \<le> (v::real)"
proof (induction S1 arbitrary: hi)
  case Nil
  then show ?case using blocks_unique by fastforce
next
  case (Cons a S1)
  from Cons.prems(1) obtain lo' where lo': "hi = Suc a" "lo' \<le> a"
    "\<forall>m. lo' \<le> m \<and> m \<le> a \<longrightarrow> ps ! m \<le> ps ! a" "blocks ps (S1 @ S) lo'"
    by auto
  show ?case
  proof (cases "lo' \<le> m")
    case True
    then have "ps ! m \<le> ps ! a" using lo' Cons.prems(5) by simp
    then show ?thesis using Cons.prems(2) by fastforce
  next
    case False
    then show ?thesis
      using Cons.IH[OF lo'(4) _ Cons.prems(3) Cons.prems(4)] Cons.prems(2) by simp
  qed
qed

lemma blocks_suffix_drop:
  "blocks ps S hi \<Longrightarrow> \<exists>lo. blocks ps (dropWhile P S) lo"
proof (induction S arbitrary: hi)
  case Nil
  then show ?case by auto
next
  case (Cons a S)
  then show ?case by (cases "P a") auto
qed

lemma span_spec_eq:
  assumes "i < length ps" "lo \<le> i"
    and "\<forall>m. lo \<le> m \<and> m \<le> i \<longrightarrow> ps ! m \<le> ps ! i"
    and "0 < lo \<longrightarrow> \<not> ps ! (lo - 1) \<le> ps ! i"
  shows "span_spec ps i = Suc i - lo"
proof -
  let ?xs = "rev (take (Suc i) ps)"
  have len: "length ?xs = Suc i" using assms(1) by simp
  have nth: "?xs ! k = ps ! (i - k)" if "k \<le> i" for k
    using that assms(1) by (simp add: rev_nth)
  have "takeWhile (\<lambda>p. p \<le> ps ! i) ?xs = take (Suc i - lo) ?xs"
  proof (rule takeWhile_eq_take_P_nth)
    fix k assume "k < Suc i - lo" "k < length ?xs"
    then show "?xs ! k \<le> ps ! i" using nth[of k] assms(3) by simp
  next
    assume "Suc i - lo < length ?xs"
    then have "0 < lo" "Suc i - lo \<le> i" using len by auto
    then have "?xs ! (Suc i - lo) = ps ! (lo - 1)"
      using nth[of "Suc i - lo"] assms(2) by simp
    then show "\<not> ?xs ! (Suc i - lo) \<le> ps ! i" using assms(4) \<open>0 < lo\<close> by simp
  qed
  then show ?thesis using len by (simp add: span_spec_def)
qed


lemma blocks_append_le: "blocks ps (S1 @ S) hi \<Longrightarrow> blocks ps S lo \<Longrightarrow> lo \<le> hi"
proof (induction S1 arbitrary: hi)
  case Nil
  then show ?case using blocks_unique by fastforce
next
  case (Cons a S1)
  then show ?case by fastforce
qed

lemma stk_length: "st_top s \<le> length (st_data s) \<Longrightarrow> length (stk s) = st_top s"
  by (simp add: stk_def)

lemma stk_push:
  "st_top s < length (st_data s) \<Longrightarrow>
   \<exists>s'. push s v = Some s' \<and> stk s' = v # stk s \<and> st_top s' = Suc (st_top s) \<and>
        length (st_data s') = length (st_data s)"
  by (simp add: push_def stk_def take_Suc_conv_app_nth)

lemma span_loop_correct:
  assumes "length ps \<le> MAX_ARRAY_SIZE" "i \<le> length ps" "length (st_data s) = length ps"
    "st_top s \<le> length (st_data s)" "blocks ps (stk s) i" "length spans = length ps"
  shows "\<exists>s' spans'. span_loop ps i s spans = Some (s', spans') \<and> length spans' = length ps \<and>
           (\<forall>k<i. spans' ! k = spans ! k) \<and>
           (\<forall>k. i \<le> k \<and> k < length ps \<longrightarrow> spans' ! k = int (span_spec ps k))"
  using assms
proof (induction "length ps - i" arbitrary: i s spans)
  case 0
  then show ?case by (subst span_loop.simps) simp
next
  case (Suc d)
  let ?P = "\<lambda>j. ps ! j \<le> ps ! i"
  have i: "i < length ps" using Suc.hyps(2) by simp
  have small: "Suc i < 2 ^ 31" using i Suc.prems(1) by (simp add: MAX_ARRAY_SIZE_def)
  have "\<forall>j\<in>set (stk s). j < length ps"
    using blocks_less[OF Suc.prems(5)] i by fastforce
  from span_pop_loop_stk[OF Suc.prems(4) this i]
  obtain s1 where s1: "span_pop_loop ps i s = Some s1" "st_data s1 = st_data s"
    "st_top s1 \<le> st_top s" "stk s1 = dropWhile ?P (stk s)"
    by blast
  obtain lo where lo: "blocks ps (stk s1) lo"
    using blocks_suffix_drop[OF Suc.prems(5)] s1(4) by metis
  have split: "blocks ps (takeWhile ?P (stk s) @ stk s1) i"
    using Suc.prems(5) s1(4) by simp
  have lo_le: "lo \<le> i" using blocks_append_le[OF split lo] .
  have dom: "\<forall>m. lo \<le> m \<and> m \<le> i \<longrightarrow> ps ! m \<le> ps ! i"
  proof (intro allI impI)
    fix m assume m: "lo \<le> m \<and> m \<le> i"
    show "ps ! m \<le> ps ! i"
    proof (cases "m = i")
      case True then show ?thesis by simp
    next
      case False
      have "\<forall>j\<in>set (takeWhile ?P (stk s)). ps ! j \<le> ps ! i"
        by (auto dest: set_takeWhileD)
      from blocks_popped[OF split this lo] m False show ?thesis by simp
    qed
  qed
  have top1: "st_top s1 \<le> length (st_data s1)" using s1 Suc.prems(4) by simp
  have len1: "length (stk s1) = st_top s1" using stk_length[OF top1] .
  have top1_lt: "st_top s1 < length (st_data s1)"
    using blocks_length[OF lo] len1 lo_le i s1(2) Suc.prems(3) by simp
  define v where "v = int (span_spec ps i)"
  have val: "(if isEmpty s1 then Some (int_of_size_t (i + 1))
              else map_option (\<lambda>j. int_of_size_t (size_sub i j)) (peek s1)) = Some v"
  proof (cases "stk s1")
    case Nil
    then have e: "st_top s1 = 0" using len1 by simp
    have "lo = 0" using lo Nil by simp
    then have "span_spec ps i = Suc i" using span_spec_eq[OF i _ dom] by simp
    then show ?thesis using e small by (simp add: isEmpty_def v_def int_of_size_t_small)
  next
    case (Cons g rest)
    then have ne: "0 < st_top s1" using len1 by auto
    have "stk s1 = st_data s1 ! (st_top s1 - 1) # stk (s1\<lparr>st_top := st_top s1 - 1\<rparr>)"
      using stk_hd[OF ne top1] .
    then have g: "st_data s1 ! (st_top s1 - 1) = g" using Cons by simp
    have pk: "peek s1 = Some g" using ne top1 g by (simp add: peek_def)
    have lo_eq: "lo = Suc g" using lo Cons by simp
    have "\<not> ?P g" using s1(4) Cons by (metis hd_dropWhile list.distinct(1) list.sel(1))
    then have "span_spec ps i = Suc i - lo"
      using span_spec_eq[OF i lo_le dom] lo_eq by simp
    then have "span_spec ps i = i - g" using lo_eq by simp
    moreover have "i - g < 2 ^ 31" using small by simp
    moreover have "size_sub i g = i - g" using lo_eq lo_le small by (intro size_sub_le) simp_all
    ultimately show ?thesis using ne pk by (simp add: isEmpty_def v_def int_of_size_t_small)
  qed
  from stk_push[OF top1_lt, of i]
  obtain s2 where s2: "push s1 i = Some s2" "stk s2 = i # stk s1" "st_top s2 = Suc (st_top s1)"
    "length (st_data s2) = length (st_data s1)"
    by blast
  have b2: "blocks ps (stk s2) (Suc i)" using s2(2) lo lo_le dom by auto
  have "\<exists>s' spans'. span_loop ps (Suc i) s2 (spans[i := v]) = Some (s', spans') \<and>
          length spans' = length ps \<and> (\<forall>k<Suc i. spans' ! k = (spans[i := v]) ! k) \<and>
          (\<forall>k. Suc i \<le> k \<and> k < length ps \<longrightarrow> spans' ! k = int (span_spec ps k))"
    using Suc.hyps(2) Suc.prems i s2 s1 top1_lt b2
    by (intro Suc.hyps(1)) simp_all
  then obtain s' spans' where r: "span_loop ps (Suc i) s2 (spans[i := v]) = Some (s', spans')"
    "length spans' = length ps" "\<forall>k<Suc i. spans' ! k = (spans[i := v]) ! k"
    "\<forall>k. Suc i \<le> k \<and> k < length ps \<longrightarrow> spans' ! k = int (span_spec ps k)"
    by blast
  have "span_loop ps i s spans = Some (s', spans')"
    using i s1(1) val s2(1) r(1) Suc.prems(6)
    by (subst span_loop.simps) simp
  moreover have "\<forall>k<i. spans' ! k = spans ! k" using r(3) by simp
  moreover have "spans' ! i = v" using r(3) i Suc.prems(6) by simp
  then have "\<forall>k. i \<le> k \<and> k < length ps \<longrightarrow> spans' ! k = int (span_spec ps k)"
    using r(4) v_def by (metis Suc_leI le_neq_implies_less)
  ultimately show ?case using r(2) by blast
qed

lemma createStack_ok:
  "alloc_ok al \<Longrightarrow> \<exists>al'. createStack al n =
     (Some \<lparr>st_data = replicate n 0, st_top = 0, st_capacity = n\<rparr>, al') \<and> alloc_ok al'"
proof -
  assume "alloc_ok al"
  then obtain al1 where 1: "malloc al = (True, al1)" "alloc_ok al1" using malloc_ok by blast
  then obtain al2 where 2: "malloc al1 = (True, al2)" "alloc_ok al2" using malloc_ok by blast
  show ?thesis using 1 2 by (simp add: createStack_def)
qed

text \<open>
  Claim C2. For every valid price sequence (every element finite, length between 1 and
  \<open>MAX_ARRAY_SIZE\<close>), with a non-NULL output pointer and every allocation succeeding,
  \<open>calculateStockSpan\<close> returns status 0 and stores an array of the input's length whose
  entry \<open>i\<close> is the number of consecutive positions ending at \<open>i\<close> (inclusive) whose
  price is at most the price at \<open>i\<close>: equal prices are counted, the nearest strictly
  greater predecessor ends the run. The witness is the example of the specification,
  prices 100, 80, 60, 70, 60, 75, 85 with spans 1, 1, 1, 2, 1, 4, 6.
\<close>

theorem calculateStockSpan_spans:
  assumes "validate_prices ps" "1 \<le> length ps" "length ps \<le> MAX_ARRAY_SIZE" "alloc_ok al"
  shows "\<exists>spans. calculateStockSpan al (Some ps) True = Some (0, Stored spans) \<and>
           length spans = length ps \<and>
           (\<forall>i<length ps. spans ! i = int (span_spec (map fin ps) i))"
proof -
  let ?ps = "map fin ps"
  let ?s0 = "\<lparr>st_data = replicate (length ps) 0, st_top = 0, st_capacity = length ps\<rparr>"
  obtain al1 where 1: "malloc al = (True, al1)" "alloc_ok al1"
    using malloc_ok[OF assms(4)] by blast
  obtain al2 where 2: "createStack al1 (length ps) = (Some ?s0, al2)"
    using createStack_ok[OF 1(2)] by blast
  have "\<exists>s' spans'. span_loop ?ps 0 ?s0 (replicate (length ps) 0) = Some (s', spans') \<and>
          length spans' = length ?ps \<and>
          (\<forall>k<0. spans' ! k = (replicate (length ps) 0) ! k) \<and>
          (\<forall>k. 0 \<le> k \<and> k < length ?ps \<longrightarrow> spans' ! k = int (span_spec ?ps k))"
    using assms(3) by (intro span_loop_correct) (simp_all add: stk_def)
  then obtain s' spans' where r: "span_loop ?ps 0 ?s0 (replicate (length ps) 0) = Some (s', spans')"
    "length spans' = length ps" "\<forall>k<length ps. spans' ! k = int (span_spec ?ps k)"
    by auto
  have "calculateStockSpan al (Some ps) True = Some (0, Stored spans')"
    using assms(1,2,3) 1 2 r(1) by (auto simp: calculateStockSpan_def)
  then show ?thesis using r(2,3) by blast
qed

theorem calculateStockSpan_spans_witness:
  "calculateStockSpan [] (Some (map Finite [100, 80, 60, 70, 60, 75, 85])) True =
     Some (0, Stored [1, 1, 1, 2, 1, 4, 6])"
proof -
  let ?ps = "map Finite [100, 80, 60, 70, 60, 75, 85]"
  obtain spans where s: "calculateStockSpan [] (Some ?ps) True = Some (0, Stored spans)"
    "length spans = 7" "\<forall>i<7. spans ! i = int (span_spec (map fin ?ps) i)"
    using calculateStockSpan_spans[of ?ps "[]"]
    by (auto simp: MAX_ARRAY_SIZE_def alloc_ok_def)
  have "spans ! 0 = 1" "spans ! 1 = 1" "spans ! 2 = 1" "spans ! 3 = 2" "spans ! 4 = 1"
    "spans ! 5 = 4" "spans ! 6 = 6"
    using s(3) by (simp_all add: span_spec_def)
  then have "spans = [1, 1, 1, 2, 1, 4, 6]"
    using s(2) by (auto simp: list_eq_iff_nth_eq less_Suc_eq numeral_eq_Suc) 
  then show ?thesis using s(1) by simp
qed

section \<open>Verification of the range aggregation tree\<close>

lemma leaf_loop_correct:
  assumes "length nodes = 2 * length ps" "i \<le> length ps"
  shows "\<exists>nodes'. leaf_loop ps i nodes = Some nodes' \<and> length nodes' = length nodes \<and>
           (\<forall>k. i \<le> k \<and> k < length ps \<longrightarrow> nodes' ! (length ps + k) = Some (leaf (ps ! k))) \<and>
           (\<forall>j<length ps + i. nodes' ! j = nodes ! j)"
  using assms
proof (induction "length ps - i" arbitrary: i nodes)
  case 0
  then show ?case by (subst leaf_loop.simps) auto
next
  case (Suc d)
  let ?n = "length ps"
  let ?nodes1 = "nodes[?n + i := Some (leaf (ps ! i))]"
  have i: "i < ?n" using Suc.hyps(2) by simp
  have "\<exists>nodes'. leaf_loop ps (Suc i) ?nodes1 = Some nodes' \<and> length nodes' = length ?nodes1 \<and>
           (\<forall>k. Suc i \<le> k \<and> k < ?n \<longrightarrow> nodes' ! (?n + k) = Some (leaf (ps ! k))) \<and>
           (\<forall>j<?n + Suc i. nodes' ! j = ?nodes1 ! j)"
    using Suc.hyps(2) Suc.prems i by (intro Suc.hyps(1)) simp_all
  then obtain nodes' where r: "leaf_loop ps (Suc i) ?nodes1 = Some nodes'"
    "length nodes' = length nodes"
    "\<forall>k. Suc i \<le> k \<and> k < ?n \<longrightarrow> nodes' ! (?n + k) = Some (leaf (ps ! k))"
    "\<forall>j<?n + Suc i. nodes' ! j = ?nodes1 ! j"
    by auto
  have "leaf_loop ps i nodes = Some nodes'"
    using i Suc.prems(1) r(1) by (subst leaf_loop.simps) (simp add: leaf_def)
  moreover have "nodes' ! (?n + i) = Some (leaf (ps ! i))"
    using r(4) i Suc.prems(1) by simp
  then have "\<forall>k. i \<le> k \<and> k < ?n \<longrightarrow> nodes' ! (?n + k) = Some (leaf (ps ! k))"
    using r(3) by (metis Suc_leI le_neq_implies_less)
  moreover have "\<forall>j<?n + i. nodes' ! j = nodes ! j" using r(4) by simp
  ultimately show ?case using r(2) by blast
qed

lemma rdi_Some: "i < length xs \<Longrightarrow> xs ! i = Some v \<Longrightarrow> rdi xs i = Some v"
  by (simp add: rdi_def)

lemma merge_loop_correct:
  assumes "length nodes = 2 * n" "i < n" "\<forall>k. i < k \<and> k < 2 * n \<longrightarrow> nodes ! k \<noteq> None"
  shows "\<exists>nodes'. merge_loop i nodes = Some nodes' \<and> length nodes' = 2 * n \<and>
           (\<forall>k. i < k \<and> k < 2 * n \<longrightarrow> nodes' ! k = nodes ! k) \<and> nodes' ! 0 = nodes ! 0 \<and>
           (\<forall>k. 1 \<le> k \<and> k \<le> i \<longrightarrow>
              (\<exists>l r. nodes' ! (2 * k) = Some l \<and> nodes' ! (2 * k + 1) = Some r \<and>
                     nodes' ! k = Some (mergeNodes l r)))"
  using assms
proof (induction i arbitrary: nodes)
  case 0
  then show ?case by (subst merge_loop.simps) simp
next
  case (Suc i)
  have "Suc i < 2 * Suc i \<and> 2 * Suc i < 2 * n" using Suc.prems(2) by simp
  then have "nodes ! (2 * Suc i) \<noteq> None" using Suc.prems(3) by blast
  then obtain l where l: "nodes ! (2 * Suc i) = Some l" by auto
  have "Suc i < 2 * Suc i + 1 \<and> 2 * Suc i + 1 < 2 * n" using Suc.prems(2) by simp
  then have "nodes ! (2 * Suc i + 1) \<noteq> None" using Suc.prems(3) by blast
  then obtain r where r: "nodes ! (2 * Suc i + 1) = Some r" by auto
  let ?nodes1 = "nodes[Suc i := Some (mergeNodes l r)]"
  have "\<exists>nodes'. merge_loop i ?nodes1 = Some nodes' \<and> length nodes' = 2 * n \<and>
           (\<forall>k. i < k \<and> k < 2 * n \<longrightarrow> nodes' ! k = ?nodes1 ! k) \<and> nodes' ! 0 = ?nodes1 ! 0 \<and>
           (\<forall>k. 1 \<le> k \<and> k \<le> i \<longrightarrow>
              (\<exists>l r. nodes' ! (2 * k) = Some l \<and> nodes' ! (2 * k + 1) = Some r \<and>
                     nodes' ! k = Some (mergeNodes l r)))"
    using Suc.prems by (intro Suc.IH) (auto simp: nth_list_update)
  then obtain nodes' where n': "merge_loop i ?nodes1 = Some nodes'" "length nodes' = 2 * n"
    "\<forall>k. i < k \<and> k < 2 * n \<longrightarrow> nodes' ! k = ?nodes1 ! k" "nodes' ! 0 = ?nodes1 ! 0"
    "\<forall>k. 1 \<le> k \<and> k \<le> i \<longrightarrow>
              (\<exists>l r. nodes' ! (2 * k) = Some l \<and> nodes' ! (2 * k + 1) = Some r \<and>
                     nodes' ! k = Some (mergeNodes l r))"
    by blast
  have "merge_loop (Suc i) nodes = Some nodes'"
    using Suc.prems(1,2) l r n'(1) by (subst merge_loop.simps) (simp add: rdi_def)
  moreover have "\<forall>k. Suc i < k \<and> k < 2 * n \<longrightarrow> nodes' ! k = nodes ! k"
    using n'(3) by simp
  moreover have "nodes' ! 0 = nodes ! 0" using n'(4) by simp
  moreover have "nodes' ! (2 * Suc i) = Some l" "nodes' ! (2 * Suc i + 1) = Some r"
      "nodes' ! Suc i = Some (mergeNodes l r)"
    using n'(3) l r Suc.prems(1,2) by simp_all
  then have "\<forall>k. 1 \<le> k \<and> k \<le> Suc i \<longrightarrow>
              (\<exists>l r. nodes' ! (2 * k) = Some l \<and> nodes' ! (2 * k + 1) = Some r \<and>
                     nodes' ! k = Some (mergeNodes l r))"
    using n'(5) by (metis le_SucE)
  ultimately show ?case using n'(2) by blast
qed

lemma build_loops:
  assumes "1 \<le> length ps"
  shows "\<exists>nodes1 nodes2. leaf_loop ps 0 (replicate (2 * length ps) None) = Some nodes1 \<and>
           merge_loop (length ps - 1) nodes1 = Some nodes2 \<and>
           tree_layout ps \<lparr>t_nodes = nodes2, t_length = length ps, t_tree_size = 2 * length ps\<rparr>"
proof -
  let ?n = "length ps"
  have "\<exists>nodes'. leaf_loop ps 0 (replicate (2 * ?n) None) = Some nodes' \<and>
          length nodes' = length (replicate (2 * ?n) (None :: TreeNode option)) \<and>
          (\<forall>k. 0 \<le> k \<and> k < ?n \<longrightarrow> nodes' ! (?n + k) = Some (leaf (ps ! k))) \<and>
          (\<forall>j<?n + 0. nodes' ! j = (replicate (2 * ?n) None) ! j)"
    by (intro leaf_loop_correct) simp_all
  then obtain nodes1 where n1: "leaf_loop ps 0 (replicate (2 * ?n) None) = Some nodes1"
    "length nodes1 = 2 * ?n" "\<forall>k<?n. nodes1 ! (?n + k) = Some (leaf (ps ! k))"
    "\<forall>j<?n. nodes1 ! j = (replicate (2 * ?n) None) ! j"
    by auto
  have "0 < ?n" using assms by (cases ps) simp_all
  then have z1: "nodes1 ! 0 = None" using n1(4) by simp
  have init: "\<forall>k. ?n - 1 < k \<and> k < 2 * ?n \<longrightarrow> nodes1 ! k \<noteq> None"
  proof (intro allI impI)
    fix k assume k: "?n - 1 < k \<and> k < 2 * ?n"
    then have "k - ?n < ?n" "?n + (k - ?n) = k" by auto
    then show "nodes1 ! k \<noteq> None" using n1(3) by (metis option.distinct(1))
  qed
  have "?n - 1 < ?n" using assms by simp
  from merge_loop_correct[OF n1(2) this init]
  obtain nodes2 where n2: "merge_loop (?n - 1) nodes1 = Some nodes2" "length nodes2 = 2 * ?n"
    "\<forall>k. ?n - 1 < k \<and> k < 2 * ?n \<longrightarrow> nodes2 ! k = nodes1 ! k"
    "\<forall>k. 1 \<le> k \<and> k \<le> ?n - 1 \<longrightarrow>
              (\<exists>l r. nodes2 ! (2 * k) = Some l \<and> nodes2 ! (2 * k + 1) = Some r \<and>
                     nodes2 ! k = Some (mergeNodes l r))"
    "nodes2 ! 0 = nodes1 ! 0"
    by blast
  have "\<forall>i<?n. nodes2 ! (?n + i) = Some (leaf (ps ! i))"
    using n2(3) n1(3) by simp
  moreover have "\<forall>k. 1 \<le> k \<and> k < ?n \<longrightarrow>
              (\<exists>l r. nodes2 ! (2 * k) = Some l \<and> nodes2 ! (2 * k + 1) = Some r \<and>
                     nodes2 ! k = Some (mergeNodes l r))"
  proof (intro allI impI)
    fix k assume "1 \<le> k \<and> k < ?n"
    then have "1 \<le> k \<and> k \<le> ?n - 1" by arith
    then show "\<exists>l r. nodes2 ! (2 * k) = Some l \<and> nodes2 ! (2 * k + 1) = Some r \<and>
                     nodes2 ! k = Some (mergeNodes l r)"
      using n2(4) by blast
  qed
  ultimately have "tree_layout ps \<lparr>t_nodes = nodes2, t_length = ?n, t_tree_size = 2 * ?n\<rparr>"
    using n2(2,5) z1 by (simp add: tree_layout_def)
  then show ?thesis using n1(1) n2(1) by blast
qed

lemma build_ok:
  assumes "validate_prices ps" "1 \<le> length ps" "length ps \<le> MAX_ARRAY_SIZE" "alloc_ok al"
  shows "\<exists>t. buildSegmentTree al (Some ps) True = Some (0, Stored t) \<and> tree_layout (map fin ps) t"
proof -
  obtain al1 where 1: "malloc al = (True, al1)" "alloc_ok al1"
    using malloc_ok[OF assms(4)] by blast
  obtain al2 where 2: "malloc al1 = (True, al2)" using malloc_ok[OF 1(2)] by blast
  have "1 \<le> length (map fin ps)" using assms(2) by simp
  from build_loops[OF this] obtain nodes1 nodes2 where
    l: "leaf_loop (map fin ps) 0 (replicate (2 * length ps) None) = Some nodes1"
       "merge_loop (length ps - 1) nodes1 = Some nodes2"
       "tree_layout (map fin ps) \<lparr>t_nodes = nodes2, t_length = length ps,
                                   t_tree_size = 2 * length ps\<rparr>"
    by auto
  show ?thesis using assms(1,2,3) 1 2 l by (auto simp: buildSegmentTree_def)
qed

lemma build_Stored:
  assumes "buildSegmentTree al prices out = Some (st, Stored t)"
  shows "\<exists>ps. prices = Some ps \<and> out \<and> st = 0 \<and> validate_prices ps \<and> 1 \<le> length ps \<and>
           length ps \<le> MAX_ARRAY_SIZE \<and> tree_layout (map fin ps) t"
proof -
  obtain ps where ps: "prices = Some ps" using assms
    by (cases prices) (auto simp: buildSegmentTree_def)
  have v: "out" "length ps \<noteq> 0" "length ps \<le> MAX_ARRAY_SIZE" "validate_prices ps"
    using assms ps by (auto simp: buildSegmentTree_def split: if_splits)
  then have one: "1 \<le> length ps" by (cases ps) simp_all
  then have "1 \<le> length (map fin ps)" by simp
  from build_loops[OF this] obtain nodes1 nodes2 where
    l: "leaf_loop (map fin ps) 0 (replicate (2 * length ps) None) = Some nodes1"
       "merge_loop (length ps - 1) nodes1 = Some nodes2"
       "tree_layout (map fin ps) \<lparr>t_nodes = nodes2, t_length = length ps,
                                   t_tree_size = 2 * length ps\<rparr>"
    by auto
  have "st = 0 \<and> t = \<lparr>t_nodes = nodes2, t_length = length ps, t_tree_size = 2 * length ps\<rparr>"
    using assms ps v l(1,2)
    by (auto simp: buildSegmentTree_def split: prod.splits bool.splits)
  then show ?thesis using ps v one l(3) by auto
qed

section \<open>Verification of the queries on the tree\<close>

lemma dlt_Finite_min:
  "(if dlt (Finite a) (Finite b) then Finite a else Finite b) = Finite (min a b)"
  by auto

lemma dgt_Finite_max:
  "(if dgt (Finite a) (Finite b) then Finite a else Finite b) = Finite (max a b)"
  by (auto simp: dgt_def)

lemma rnd_0 [simp]: "rnd 0 = Finite 0"
  by (simp add: rnd_def)

lemma exact_sums_mono: "exact_sums M \<Longrightarrow> N \<subseteq># M \<Longrightarrow> exact_sums N"
  unfolding exact_sums_def by (meson subset_mset.order_trans)

lemma exact_sums_self: "exact_sums M \<Longrightarrow> rnd (sum_mset M) = Finite (sum_mset M)"
  unfolding exact_sums_def by simp

lemma squares_add: "squares (M + N) = squares M + squares N"
  by (simp add: squares_def)

lemma node_ok_leaf: "node_ok {#p#} (leaf p)"
proof -
  have "exact_sums (squares {#p#}) \<longrightarrow> rnd (p * p) = Finite (p * p)"
    using exact_sums_self[of "squares {#p#}"] by (simp add: squares_def)
  then show ?thesis by (simp add: node_ok_def leaf_def squares_def fp_single)
qed

lemma node_ok_merge:
  assumes "node_ok M l" "node_ok N r" "M \<noteq> {#}" "N \<noteq> {#}"
  shows "node_ok (M + N) (mergeNodes l r)"
proof -
  note l = assms(1)[unfolded node_ok_def] and r = assms(2)[unfolded node_ok_def]
  have u: "Min (set_mset (M + N)) = min (Min (set_mset M)) (Min (set_mset N))"
    "Max (set_mset (M + N)) = max (Max (set_mset M)) (Max (set_mset N))"
    using assms(3,4) by (simp_all add: Min_Un Max_Un)
  have ml: "n_min l = Finite (Min (set_mset M))" "n_max l = Finite (Max (set_mset M))"
    and mr: "n_min r = Finite (Min (set_mset N))" "n_max r = Finite (Max (set_mset N))"
    using l r by simp_all
  have mn: "n_min (mergeNodes l r) = Finite (Min (set_mset (M + N)))"
    unfolding u by (simp only: mergeNodes_def TreeNode.simps ml mr dlt_Finite_min)
  have mx: "n_max (mergeNodes l r) = Finite (Max (set_mset (M + N)))"
    unfolding u by (simp only: mergeNodes_def TreeNode.simps ml mr dgt_Finite_max)
  have ct: "n_count (mergeNodes l r) = size (M + N)"
    using l r by (simp add: mergeNodes_def)
  have sm: "n_sum (mergeNodes l r) = Finite (sum_mset (M + N))" if e: "exact_sums (M + N)"
  proof -
    have "exact_sums M" "exact_sums N" using exact_sums_mono[OF e] by simp_all
    then have "n_sum l = Finite (sum_mset M)" "n_sum r = Finite (sum_mset N)" using l r by simp_all
    then show ?thesis using exact_sums_self[OF e] by (simp add: mergeNodes_def)
  qed
  have sq: "n_sum_sq (mergeNodes l r) = Finite (sum_mset (squares (M + N)))"
    if e: "exact_sums (squares (M + N))"
  proof -
    have e': "exact_sums (squares M + squares N)" using e by (simp add: squares_add)
    have "exact_sums (squares M)" "exact_sums (squares N)"
      using exact_sums_mono[OF e'] by simp_all
    then have "n_sum_sq l = Finite (sum_mset (squares M))"
      "n_sum_sq r = Finite (sum_mset (squares N))" using l r by simp_all
    then show ?thesis using exact_sums_self[OF e'] by (simp add: mergeNodes_def squares_add)
  qed
  have fs: "fp_sum (image_mset Finite (M + N)) (n_sum (mergeNodes l r))"
    using l r fp_add[of "image_mset Finite M" "n_sum l" "image_mset Finite N" "n_sum r"]
    by (simp add: mergeNodes_def)
  have fq: "fp_sum (image_mset (\<lambda>p. dmul (Finite p) (Finite p)) (M + N))
      (n_sum_sq (mergeNodes l r))"
    using l r fp_add[of "image_mset (\<lambda>p. dmul (Finite p) (Finite p)) M" "n_sum_sq l"
        "image_mset (\<lambda>p. dmul (Finite p) (Finite p)) N" "n_sum_sq r"]
    by (simp add: mergeNodes_def)
  show ?thesis unfolding node_ok_def using mn mx ct sm sq fs fq by blast
qed

lemma cover_nonempty: "1 \<le> k \<Longrightarrow> k < 2 * length ps \<Longrightarrow> cover ps k \<noteq> {#}"
proof (induction ps k rule: cover.induct)
  case (1 ps k)
  show ?case
  proof (cases "length ps \<le> k")
    case True
    then show ?thesis using "1.prems" by (subst cover.simps) simp
  next
    case False
    then have "cover ps (2 * k) \<noteq> {#}" using "1.prems" by (intro "1.IH"(1)) simp_all
    then show ?thesis using False "1.prems" by (subst cover.simps) simp
  qed
qed

lemma layout_cover:
  "tree_layout ps t \<Longrightarrow> 1 \<le> k \<Longrightarrow> k < 2 * length ps \<Longrightarrow>
   \<exists>nd. t_nodes t ! k = Some nd \<and> node_ok (cover ps k) nd"
proof (induction ps k rule: cover.induct)
  case (1 ps k)
  let ?n = "length ps"
  show ?case
  proof (cases "?n \<le> k")
    case True
    then have "k - ?n < ?n" "?n + (k - ?n) = k" using "1.prems" by auto
    then have "t_nodes t ! k = Some (leaf (ps ! (k - ?n)))"
      using "1.prems"(1) unfolding tree_layout_def by metis
    moreover have "cover ps k = {#ps ! (k - ?n)#}"
      using True "1.prems" by (subst cover.simps) simp
    ultimately show ?thesis by (simp add: node_ok_leaf)
  next
    case False
    then have k: "1 \<le> k \<and> k < ?n" using "1.prems" by simp
    then obtain l r where lr: "t_nodes t ! (2 * k) = Some l" "t_nodes t ! (2 * k + 1) = Some r"
      "t_nodes t ! k = Some (mergeNodes l r)"
      using "1.prems"(1) unfolding tree_layout_def by blast
    have "\<exists>nd. t_nodes t ! (2 * k) = Some nd \<and> node_ok (cover ps (2 * k)) nd"
      using False "1.prems" by (intro "1.IH"(1)) simp_all
    then have l: "node_ok (cover ps (2 * k)) l" using lr(1) by simp
    have "\<exists>nd. t_nodes t ! (2 * k + 1) = Some nd \<and> node_ok (cover ps (2 * k + 1)) nd"
      using False "1.prems" by (intro "1.IH"(2)) simp_all
    then have r: "node_ok (cover ps (2 * k + 1)) r" using lr(2) by simp
    have ne: "cover ps (2 * k) \<noteq> {#}" "cover ps (2 * k + 1) \<noteq> {#}"
      using k by (simp_all add: cover_nonempty)
    have "cover ps k = cover ps (2 * k) + cover ps (2 * k + 1)"
      using k by (subst cover.simps) simp
    then have "node_ok (cover ps k) (mergeNodes l r)"
      using node_ok_merge[OF l r ne] by simp
    then show ?thesis using lr(3) by simp
  qed
qed

lemma pair_sum:
  fixes f :: "nat \<Rightarrow> 'a::comm_monoid_add"
  assumes "\<forall>j. a \<le> j \<and> j < b \<longrightarrow> f j = f (2 * j) + f (2 * j + 1)"
  shows "sum f {2 * a..<2 * b} = sum f {a..<b}"
  using assms
proof (induction b)
  case 0
  then show ?case by simp
next
  case (Suc b)
  show ?case
  proof (cases "a \<le> b")
    case True
    then have 1: "sum f {2 * a..<2 * Suc b} = sum f {2 * a..<2 * b} + (f (2 * b) + f (2 * b + 1))"
      by (simp add: add.assoc)
    have 2: "sum f {2 * a..<2 * b} = sum f {a..<b}" using Suc by simp
    have 3: "f (2 * b) + f (2 * b + 1) = f b" using Suc.prems True by simp
    show ?thesis unfolding 1 2 3 using True by simp
  next
    case False
    then show ?thesis by simp
  qed
qed

lemma query_loop_correct:
  fixes C :: "nat \<Rightarrow> real multiset"
  assumes N: "\<forall>k. 1 \<le> k \<and> k < 2 * n \<longrightarrow>
               (\<exists>nd. rdi nodes k = Some nd \<and> node_ok (C k) nd) \<and> C k \<noteq> {#}"
    and R: "\<forall>k. 1 \<le> k \<and> k < n \<longrightarrow> C k = C (2 * k) + C (2 * k + 1)"
    and n: "2 * n < 2 ^ 64"
  shows "1 \<le> l \<Longrightarrow> r < 2 * n \<Longrightarrow> l \<le> r + 1 \<Longrightarrow> (first \<longleftrightarrow> A = {#}) \<Longrightarrow>
         (\<not> first \<longrightarrow> node_ok A result) \<Longrightarrow>
         \<exists>res fl. query_loop nodes l r result first = Some (res, fl) \<and>
           (fl \<longleftrightarrow> A + sum C {l..<Suc r} = {#}) \<and>
           (\<not> fl \<longrightarrow> node_ok (A + sum C {l..<Suc r}) res)"
proof (induction r arbitrary: l result first A rule: less_induct)
  case (less r)
  show ?case
  proof (cases "l \<le> r")
    case False
    then have "l = Suc r" using less.prems(3) by simp
    then have "sum C {l..<Suc r} = {#}" by simp
    moreover have "query_loop nodes l r result first = Some (result, first)"
      using False by (subst query_loop.simps) simp
    ultimately show ?thesis using less.prems(4,5) by simp
  next
    case True
    have r2n: "r < 2 ^ 64" using less.prems(2) n by simp
    \<comment> \<open>the left boundary\<close>
    have "\<exists>result1 first1 left1 A1.
            (if l mod 2 = 1 then
               (case rdi nodes l of
                  None \<Rightarrow> None
                | Some nd \<Rightarrow>
                    Some (if first then nd else mergeNodes result nd, False, size_add l 1))
             else Some (result, first, l)) = Some (result1, first1, left1) \<and>
            even left1 \<and> l \<le> left1 \<and> left1 \<le> r + 1 \<and>
            A1 + sum C {left1..<Suc r} = A + sum C {l..<Suc r} \<and>
            (first1 \<longleftrightarrow> A1 = {#}) \<and> (\<not> first1 \<longrightarrow> node_ok A1 result1)"
    proof (cases "l mod 2 = 1")
      case odd: True
      have "1 \<le> l \<and> l < 2 * n" using less.prems(1,2) True by simp
      then obtain nd where nd: "rdi nodes l = Some nd" "node_ok (C l) nd" "C l \<noteq> {#}"
        using N by blast
      have "l + 1 < 2 ^ 64" using True less.prems(2) n by simp
      then have sa: "size_add l 1 = Suc l" using size_add_small[of l 1] by simp
      have res: "node_ok (A + C l) (if first then nd else mergeNodes result nd)"
        using less.prems(4,5) nd(2,3) by (auto simp: node_ok_merge)
      have "l < Suc r" using True by simp
      then have "sum C {l..<Suc r} = C l + sum C {Suc l..<Suc r}"
        by (rule sum.atLeast_Suc_lessThan)
      then have "(A + C l) + sum C {Suc l..<Suc r} = A + sum C {l..<Suc r}"
        by (simp add: add.assoc)
      moreover have "even (Suc l)" using odd by presburger
      ultimately show ?thesis
        using odd nd sa res True
        by (intro exI[of _ "if first then nd else mergeNodes result nd"] exI[of _ False]
            exI[of _ "Suc l"] exI[of _ "A + C l"]) simp
    next
      case even: False
      then have "even l" by presburger
      then show ?thesis
        using even True less.prems(4,5)
        by (intro exI[of _ result] exI[of _ first] exI[of _ l] exI[of _ A]) simp
    qed
    then obtain result1 first1 left1 A1 where
      L: "(if l mod 2 = 1 then
               (case rdi nodes l of
                  None \<Rightarrow> None
                | Some nd \<Rightarrow>
                    Some (if first then nd else mergeNodes result nd, False, size_add l 1))
             else Some (result, first, l)) = Some (result1, first1, left1)"
      and L1: "even left1" "l \<le> left1" "left1 \<le> r + 1"
        "A1 + sum C {left1..<Suc r} = A + sum C {l..<Suc r}"
        "first1 \<longleftrightarrow> A1 = {#}" "\<not> first1 \<longrightarrow> node_ok A1 result1"
      by blast
    \<comment> \<open>the right boundary\<close>
    have "\<exists>result2 first2 right1 A2.
            (if r mod 2 = 0 then
               (case rdi nodes r of
                  None \<Rightarrow> None
                | Some nd \<Rightarrow>
                    Some (if first1 then nd else mergeNodes result1 nd, False, size_sub r 1))
             else Some (result1, first1, r)) = Some (result2, first2, right1) \<and>
            odd right1 \<and> right1 \<le> r \<and> left1 \<le> right1 + 1 \<and>
            A2 + sum C {left1..<Suc right1} = A1 + sum C {left1..<Suc r} \<and>
            (first2 \<longleftrightarrow> A2 = {#}) \<and> (\<not> first2 \<longrightarrow> node_ok A2 result2)"
    proof (cases "r mod 2 = 0")
      case ev: True
      then have "even r" by presburger
      then have le: "left1 \<le> r" using L1(1,3) by (metis Suc_eq_plus1 even_Suc le_SucE)
      have r1: "1 \<le> r" using True less.prems(1) by simp
      have "1 \<le> r \<and> r < 2 * n" using r1 less.prems(2) by simp
      then obtain nd where nd: "rdi nodes r = Some nd" "node_ok (C r) nd" "C r \<noteq> {#}"
        using N by blast
      have ss: "size_sub r 1 = r - 1" using r1 r2n by (simp add: size_sub_le)
      have res: "node_ok (A1 + C r) (if first1 then nd else mergeNodes result1 nd)"
        using L1(5,6) nd(2,3) by (auto simp: node_ok_merge)
      have "sum C {left1..<Suc r} = sum C {left1..<r} + C r" using le by simp
      then have "(A1 + C r) + sum C {left1..<Suc (r - 1)} = A1 + sum C {left1..<Suc r}"
        using r1 by (simp add: add.assoc add.commute)
      moreover have "odd (r - 1)" using \<open>even r\<close> r1 by simp
      ultimately show ?thesis
        using ev nd ss res le r1
        by (intro exI[of _ "if first1 then nd else mergeNodes result1 nd"] exI[of _ False]
            exI[of _ "r - 1"] exI[of _ "A1 + C r"]) simp
    next
      case od: False
      then have "odd r" by presburger
      then show ?thesis
        using od L1
        by (intro exI[of _ result1] exI[of _ first1] exI[of _ r] exI[of _ A1]) simp
    qed
    then obtain result2 first2 right1 A2 where
      Rt: "(if r mod 2 = 0 then
               (case rdi nodes r of
                  None \<Rightarrow> None
                | Some nd \<Rightarrow>
                    Some (if first1 then nd else mergeNodes result1 nd, False, size_sub r 1))
             else Some (result1, first1, r)) = Some (result2, first2, right1)"
      and R1: "odd right1" "right1 \<le> r" "left1 \<le> right1 + 1"
        "A2 + sum C {left1..<Suc right1} = A1 + sum C {left1..<Suc r}"
        "first2 \<longleftrightarrow> A2 = {#}" "\<not> first2 \<longrightarrow> node_ok A2 result2"
      by blast
    \<comment> \<open>one level up\<close>
    let ?l2 = "left1 div 2" and ?r2 = "right1 div 2"
    have l2: "1 \<le> ?l2" using L1(1,2) less.prems(1) by (cases "left1 = 0"; cases "left1 = 1") auto 
    have r2: "?r2 < r" using R1(2) True less.prems(1) by simp
    have r2n': "?r2 < n" using R1(2) less.prems(2) by simp
    have lr2: "?l2 \<le> ?r2 + 1" using R1(1,3) L1(1) by presburger
    have e1: "left1 = 2 * ?l2" using L1(1) by simp
    have e2: "Suc right1 = 2 * Suc ?r2" using R1(1) by presburger
    have "\<forall>j. ?l2 \<le> j \<and> j < Suc ?r2 \<longrightarrow> C j = C (2 * j) + C (2 * j + 1)"
      using R l2 r2n' by simp
    then have "sum C {2 * ?l2..<2 * Suc ?r2} = sum C {?l2..<Suc ?r2}"
      by (rule pair_sum)
    then have ps: "sum C {left1..<Suc right1} = sum C {?l2..<Suc ?r2}"
      by (simp only: e1[symmetric] e2[symmetric])
    have "\<exists>res fl. query_loop nodes ?l2 ?r2 result2 first2 = Some (res, fl) \<and>
           (fl \<longleftrightarrow> A2 + sum C {?l2..<Suc ?r2} = {#}) \<and>
           (\<not> fl \<longrightarrow> node_ok (A2 + sum C {?l2..<Suc ?r2}) res)"
      using r2 l2 r2n' lr2 R1(5,6) by (intro less.IH) simp_all
    then obtain res fl where
      F: "query_loop nodes ?l2 ?r2 result2 first2 = Some (res, fl)"
         "fl \<longleftrightarrow> A2 + sum C {?l2..<Suc ?r2} = {#}"
         "\<not> fl \<longrightarrow> node_ok (A2 + sum C {?l2..<Suc ?r2}) res"
      by blast
    have tot: "A2 + sum C {?l2..<Suc ?r2} = A + sum C {l..<Suc r}"
      using ps R1(4) L1(4) by simp
    have "query_loop nodes l r result first = query_loop nodes ?l2 ?r2 result2 first2"
      apply (subst query_loop.simps)
      apply (simp only: L Rt option.case prod.case True if_True)
      done
    then have "query_loop nodes l r result first = Some (res, fl)" using F(1) by simp
    moreover have "fl \<longleftrightarrow> A + sum C {l..<Suc r} = {#}" using F(2) unfolding tot .
    moreover have "\<not> fl \<longrightarrow> node_ok (A + sum C {l..<Suc r}) res" using F(3) unfolding tot .
    ultimately show ?thesis by blast
  qed
qed

lemma sum_singletons: "sum (\<lambda>i. {#f i#}) {a..<b} = mset (map f [a..<b])"
proof (induction b)
  case 0
  then show ?case by simp
next
  case (Suc b)
  then show ?case by (cases "a \<le> b") simp_all
qed

lemma slice_nth: "qr < length xs \<Longrightarrow> slice xs ql qr = map ((!) xs) [ql..<Suc qr]"
  unfolding slice_def by (auto simp: list_eq_iff_nth_eq simp del: upt_Suc)



lemma slice_nonempty: "ql \<le> qr \<Longrightarrow> qr < length xs \<Longrightarrow> slice xs ql qr \<noteq> []"
  by (simp add: slice_nth)

lemma cover_leaves:
  assumes "qr < length ps"
  shows "sum (cover ps) {ql + length ps..<Suc (qr + length ps)} = mset (slice ps ql qr)"
proof -
  let ?n = "length ps"
  have "sum (cover ps) {ql + ?n..<Suc qr + ?n} = sum (\<lambda>i. cover ps (i + ?n)) {ql..<Suc qr}"
    by (rule sum.shift_bounds_nat_ivl)
  also have "\<dots> = sum (\<lambda>i. {#ps ! i#}) {ql..<Suc qr}"
  proof (rule sum.cong[OF refl])
    fix i assume "i \<in> {ql..<Suc qr}"
    then have "i < ?n" using assms by simp
    then show "cover ps (i + ?n) = {#ps ! i#}" by (subst cover.simps) auto
  qed
  finally show ?thesis using assms by (simp add: sum_singletons slice_nth)
qed

lemma query_result:
  assumes "tree_layout ps t" "length ps \<le> MAX_ARRAY_SIZE" "ql \<le> qr" "qr < length ps"
  shows "\<exists>res. query_loop (t_nodes t) (size_add ql (t_length t)) (size_add qr (t_length t))
                 query_init True = Some (res, False) \<and>
               node_ok (mset (slice ps ql qr)) res"
proof -
  let ?n = "length ps"
  have len: "t_length t = ?n" "length (t_nodes t) = 2 * ?n"
    using assms(1) by (simp_all add: tree_layout_def)
  have big: "2 * ?n < (2::nat) ^ 64" using assms(2) by (simp add: MAX_ARRAY_SIZE_def)
  have N: "\<forall>k. 1 \<le> k \<and> k < 2 * ?n \<longrightarrow>
             (\<exists>nd. rdi (t_nodes t) k = Some nd \<and> node_ok (cover ps k) nd) \<and> cover ps k \<noteq> {#}"
    using layout_cover[OF assms(1)] cover_nonempty len(2) by (simp add: rdi_def)
  have R: "\<forall>k. 1 \<le> k \<and> k < ?n \<longrightarrow> cover ps k = cover ps (2 * k) + cover ps (2 * k + 1)"
  proof (intro allI impI)
    fix k assume "1 \<le> k \<and> k < ?n"
    then show "cover ps k = cover ps (2 * k) + cover ps (2 * k + 1)"
      by (subst cover.simps) simp
  qed
  have l: "size_add ql ?n = ql + ?n" and r: "size_add qr ?n = qr + ?n"
    using assms(3,4) big by (simp_all add: size_add_small)
  have "\<exists>res fl. query_loop (t_nodes t) (ql + ?n) (qr + ?n) query_init True = Some (res, fl) \<and>
           (fl \<longleftrightarrow> {#} + sum (cover ps) {ql + ?n..<Suc (qr + ?n)} = {#}) \<and>
           (\<not> fl \<longrightarrow> node_ok ({#} + sum (cover ps) {ql + ?n..<Suc (qr + ?n)}) res)"
    using assms(3,4) by (intro query_loop_correct[OF N R big]) simp_all
  then obtain res fl where
    F: "query_loop (t_nodes t) (ql + ?n) (qr + ?n) query_init True = Some (res, fl)"
       "fl \<longleftrightarrow> mset (slice ps ql qr) = {#}"
       "\<not> fl \<longrightarrow> node_ok (mset (slice ps ql qr)) res"
    using cover_leaves[OF assms(4)] by auto
  have "\<not> fl" using F(2) slice_nonempty[OF assms(3,4)] by simp
  then show ?thesis using F len l r by simp
qed

lemma query_outputs_node:
  assumes "0 < n_count nd"
  shows "query_outputs nd out_min out_max out_avg out_variance mem =
           store out_variance (node_variance nd)
             (store out_avg (node_avg nd) (store out_max (n_max nd) (store out_min (n_min nd) mem)))"
  using assms by (simp add: query_outputs_def Let_def node_avg_def node_variance_def)

lemma querySegmentTree_ok:
  assumes "tree_layout ps t" "length ps \<le> MAX_ARRAY_SIZE" "ql \<le> qr" "qr < length ps"
  shows "\<exists>res. node_ok (mset (slice ps ql qr)) res \<and>
           (\<forall>out_min out_max out_avg out_variance mem.
              querySegmentTree (Some t) ql qr out_min out_max out_avg out_variance mem =
                Some (0, store out_variance (node_variance res)
                           (store out_avg (node_avg res)
                              (store out_max (Finite (scan_max (slice ps ql qr)))
                                 (store out_min (Finite (scan_min (slice ps ql qr))) mem)))))"
proof -
  have len: "t_length t = length ps" using assms(1) by (simp add: tree_layout_def)
  obtain res where res: "query_loop (t_nodes t) (size_add ql (t_length t))
      (size_add qr (t_length t)) query_init True = Some (res, False)"
    "node_ok (mset (slice ps ql qr)) res"
    using query_result[OF assms] by blast
  have ne: "slice ps ql qr \<noteq> []" using slice_nonempty[OF assms(3,4)] .
  then have c: "0 < n_count res" using res(2) by (simp add: node_ok_def)
  have m: "n_min res = Finite (scan_min (slice ps ql qr))"
    "n_max res = Finite (scan_max (slice ps ql qr))"
    using res(2) by (simp_all add: node_ok_def scan_min_def scan_max_def)
  have "querySegmentTree (Some t) ql qr out_min out_max out_avg out_variance mem =
      Some (0, store out_variance (node_variance res)
                 (store out_avg (node_avg res)
                    (store out_max (Finite (scan_max (slice ps ql qr)))
                       (store out_min (Finite (scan_min (slice ps ql qr))) mem))))"
    for out_min out_max out_avg out_variance mem
    using res(1) assms(3,4) len query_outputs_node[OF c] m
    by (simp add: querySegmentTree_def query_init_def)
  then show ?thesis using res(2) by blast
qed

section \<open>The claims on the range aggregation tree\<close>

lemma rnd_numeral: "numeral k < (2::int) ^ 53 \<Longrightarrow> rnd (numeral k) = Finite (numeral k)"
  using rnd_int[of "numeral k"] by simp

lemma rnd_1 [simp]: "rnd 1 = Finite 1"
  using rnd_int[of 1] by simp








lemma rnd_1e17_m: "rnd (- 99999999999999999) = Finite (- 100000000000000000)"
proof -
  have "rnd (- 99999999999999999) = Finite (of_int (- 6250000000000000) * pow2 (56 - 52))"
    by (rule rnd_eval) (simp_all add: pow2_def round_even_def)
  then show ?thesis by (simp add: pow2_def)
qed



lemma rnd_1e17: "rnd (100000000000000000) = Finite (100000000000000000)"
proof -
  have "rnd (100000000000000000) = Finite (of_int 6250000000000000 * pow2 (56 - 52))"
    by (rule rnd_eval) (simp_all add: pow2_def round_even_def)
  then show ?thesis by (simp add: pow2_def)
qed

lemma rnd_1e17_p1: "rnd (100000000000000001) = Finite (100000000000000000)"
proof -
  have "rnd (100000000000000001) = Finite (of_int 6250000000000000 * pow2 (56 - 52))"
    by (rule rnd_eval) (simp_all add: pow2_def round_even_def)
  then show ?thesis by (simp add: pow2_def)
qed







section \<open>Verification of the sliding window analysis\<close>

lemma wrap_dec:
  assumes "b < c" "c < 2 ^ 63"
  shows "size_add (size_sub b 1) c mod c = (if b = 0 then c - 1 else b - 1)"
proof (cases "b = 0")
  case True
  have "size_sub 0 1 = 2 ^ 64 - 1" by (simp add: size_sub_def)
  moreover have "(2 ^ 64 - 1 + c) mod 2 ^ 64 = c - 1"
  proof -
    have "(2::nat) ^ 64 - 1 + c = (c - 1) + 1 * 2 ^ 64" using assms by simp
    then have "(2 ^ 64 - 1 + c) mod 2 ^ 64 = (c - 1) mod 2 ^ 64"
      by (metis mod_mult_self1)
    then show ?thesis using assms by simp
  qed
  ultimately show ?thesis using True assms by (simp add: size_add_def)
next
  case False
  then have "size_sub b 1 = b - 1" using assms by (intro size_sub_le) simp_all
  moreover have "size_add (b - 1) c = b - 1 + c" using assms by (intro size_add_small) simp
  moreover have "(b - 1 + c) mod c = b - 1" using assms by simp
  ultimately show ?thesis using False by simp
qed

lemma wrap_inc:
  assumes "b < c" "c < 2 ^ 63"
  shows "size_add b 1 mod c = (if b + 1 = c then 0 else b + 1)"
proof -
  have "size_add b 1 = b + 1" using assms by (intro size_add_small) simp
  then show ?thesis using assms by simp
qed

lemma dq_size_if:
  "dq_wf d \<Longrightarrow> dq_size d = (if d_front d \<le> d_back d then d_back d - d_front d
                              else d_back d + d_capacity d - d_front d)"
  unfolding dq_wf_def dq_size_def
  by (auto simp: mod_if)

lemma dq_size_less: "dq_wf d \<Longrightarrow> dq_size d < d_capacity d"
  by (simp add: dq_size_def dq_wf_def)

lemma dq_slot:
  "dq_wf d \<Longrightarrow> k < d_capacity d \<Longrightarrow>
   (d_front d + k) mod d_capacity d =
     (if d_front d + k < d_capacity d then d_front d + k else d_front d + k - d_capacity d)"
  unfolding dq_wf_def by (auto simp: mod_if)

lemma dq_empty: "dq_wf d \<Longrightarrow> isEmptyDeque d \<longleftrightarrow> dq_list d = []"
  by (auto simp: isEmptyDeque_def dq_list_def dq_size_if dq_wf_def split: if_splits)

lemma dq_length [simp]: "length (dq_list d) = dq_size d"
  by (simp add: dq_list_def)

lemma dq_front_ok:
  assumes "dq_wf d" "dq_list d \<noteq> []"
  shows "front d = Some (hd (dq_list d))"
proof -
  have "0 < dq_size d" using assms(2) by (simp add: dq_list_def)
  then have "hd (dq_list d) = d_indices d ! d_front d"
    using assms(1) by (simp add: dq_list_def hd_map dq_wf_def upt_conv_Cons)
  then show ?thesis using assms(1) by (simp add: front_def dq_wf_def)
qed

lemma dq_back_slot:
  assumes "dq_wf d" "0 < dq_size d"
  shows "(d_front d + (dq_size d - 1)) mod d_capacity d =
           (if d_back d = 0 then d_capacity d - 1 else d_back d - 1)"
  using assms dq_size_if[OF assms(1)] dq_slot[OF assms(1), of "dq_size d - 1"]
    dq_size_less[OF assms(1)]
  unfolding dq_wf_def by (auto split: if_splits)

lemma dq_back_ok:
  assumes "dq_wf d" "dq_list d \<noteq> []"
  shows "back_dq d = Some (last (dq_list d))"
proof -
  have s: "0 < dq_size d" using assms(2) by (simp add: dq_list_def)
  then have "last (dq_list d) = d_indices d ! ((d_front d + (dq_size d - 1)) mod d_capacity d)"
    by (simp add: dq_list_def last_map last_upt)
  then show ?thesis
    using assms(1) dq_back_slot[OF assms(1) s] wrap_dec[of "d_back d" "d_capacity d"]
    by (auto simp: back_dq_def mod_capacity_def dq_wf_def)
qed

lemma dq_popBack_ok:
  assumes "dq_wf d" "dq_list d \<noteq> []"
  shows "\<exists>d'. popBack d = Some d' \<and> dq_wf d' \<and> dq_list d' = butlast (dq_list d) \<and>
              d_capacity d' = d_capacity d"
proof -
  let ?b = "if d_back d = 0 then d_capacity d - 1 else d_back d - 1"
  let ?d = "d\<lparr>d_back := ?b\<rparr>"
  have s: "0 < dq_size d" using assms(2) by (simp add: dq_list_def)
  have p: "popBack d = Some ?d"
    using assms(1) wrap_dec[of "d_back d" "d_capacity d"]
    by (simp add: popBack_def mod_capacity_def dq_wf_def)
  have wf: "dq_wf ?d" using assms(1) by (auto simp: dq_wf_def)
  have "dq_size ?d = dq_size d - 1"
    using s assms(1) dq_size_if[OF assms(1)] dq_size_if[OF wf]
    by (auto simp: dq_wf_def split: if_splits)
  then have "dq_list ?d = butlast (dq_list d)"
    using s by (auto simp: list_eq_iff_nth_eq dq_list_def nth_butlast)
  then show ?thesis using p wf by auto
qed

lemma dq_popFront_ok:
  assumes "dq_wf d" "dq_list d \<noteq> []"
  shows "\<exists>d'. popFront d = Some d' \<and> dq_wf d' \<and> dq_list d' = tl (dq_list d) \<and>
              d_capacity d' = d_capacity d"
proof -
  let ?f = "if d_front d + 1 = d_capacity d then 0 else d_front d + 1"
  let ?d = "d\<lparr>d_front := ?f\<rparr>"
  have s: "0 < dq_size d" using assms(2) by (simp add: dq_list_def)
  have p: "popFront d = Some ?d"
    using assms(1) wrap_inc[of "d_front d" "d_capacity d"]
    by (simp add: popFront_def mod_capacity_def dq_wf_def)
  have wf: "dq_wf ?d" using assms(1) by (auto simp: dq_wf_def)
  have sz: "dq_size ?d = dq_size d - 1"
    using s assms(1) dq_size_if[OF assms(1)] dq_size_if[OF wf]
    by (auto simp: dq_wf_def split: if_splits)
  have f: "?f = (d_front d + 1) mod d_capacity d"
    using assms(1) by (auto simp: dq_wf_def)
  have "(?f + k) mod d_capacity d = (d_front d + Suc k) mod d_capacity d" for k
    unfolding f by (simp add: mod_add_left_eq)
  then have "dq_list ?d = tl (dq_list d)"
    using sz s by (auto simp: list_eq_iff_nth_eq dq_list_def nth_tl)
  then show ?thesis using p wf by auto
qed

lemma dq_pushBack_ok:
  assumes "dq_wf d" "Suc (dq_size d) < d_capacity d"
  shows "\<exists>d'. pushBack d v = Some d' \<and> dq_wf d' \<and> dq_list d' = dq_list d @ [v] \<and>
              d_capacity d' = d_capacity d"
proof -
  let ?b = "if d_back d + 1 = d_capacity d then 0 else d_back d + 1"
  let ?d = "d\<lparr>d_indices := (d_indices d)[d_back d := v], d_back := ?b\<rparr>"
  have p: "pushBack d v = Some ?d"
    using assms(1) wrap_inc[of "d_back d" "d_capacity d"]
    by (simp add: pushBack_def mod_capacity_def dq_wf_def)
  have wf: "dq_wf ?d" using assms(1) by (auto simp: dq_wf_def)
  have sz: "dq_size ?d = Suc (dq_size d)"
    using assms dq_size_if[OF assms(1)] dq_size_if[OF wf]
    by (auto simp: dq_wf_def split: if_splits)
  have slot: "(d_front d + k) mod d_capacity d = d_back d \<longleftrightarrow> k = dq_size d"
    if "k < d_capacity d" for k
    using that assms(1) dq_size_if[OF assms(1)] dq_slot[OF assms(1) that]
    by (auto simp: dq_wf_def split: if_splits)
  have "dq_list ?d = map (\<lambda>k. (d_indices d)[d_back d := v] ! ((d_front d + k) mod d_capacity d))
                       [0..<dq_size d] @ [v]"
    using sz slot[of "dq_size d"] assms by (simp add: dq_list_def dq_wf_def)
  moreover have "map (\<lambda>k. (d_indices d)[d_back d := v] ! ((d_front d + k) mod d_capacity d))
                   [0..<dq_size d] = dq_list d"
    unfolding dq_list_def
  proof (rule map_cong[OF refl])
    fix k assume "k \<in> set [0..<dq_size d]"
    then have k: "k < dq_size d" by simp
    then have "k < d_capacity d" using assms(2) by simp
    from slot[OF this] k have "(d_front d + k) mod d_capacity d \<noteq> d_back d" by simp
    then show "(d_indices d)[d_back d := v] ! ((d_front d + k) mod d_capacity d) =
               d_indices d ! ((d_front d + k) mod d_capacity d)"
      by simp
  qed
  ultimately show ?thesis using p wf by auto
qed

lemma drop_back_Nil [simp]: "drop_back P [] = []"
  by (simp add: drop_back_def)

lemma drop_back_snoc: "drop_back P (xs @ [x]) = (if P x then drop_back P xs else xs @ [x])"
  by (simp add: drop_back_def)

lemma pop_back_while_ok:
  assumes "dq_wf d" "\<forall>j\<in>set (dq_list d). j < length ps" "i < length ps"
  shows "\<exists>d'. pop_back_while rel ps i d = Some d' \<and> dq_wf d' \<and>
           d_capacity d' = d_capacity d \<and>
           dq_list d' = drop_back (\<lambda>j. rel (ps ! j) (ps ! i)) (dq_list d)"
  using assms
proof (induction "dq_size d" arbitrary: d)
  case 0
  then have "dq_list d = []" by (simp add: dq_list_def)
  then show ?case
    using 0 dq_empty[of d] by (subst pop_back_while.simps) simp
next
  case (Suc n)
  let ?P = "\<lambda>j. rel (ps ! j) (ps ! i)"
  have ne: "dq_list d \<noteq> []" using Suc.hyps(2) by (auto simp: dq_list_def)
  then have nemp: "\<not> isEmptyDeque d" using dq_empty[OF Suc.prems(1)] by simp
  have bk: "back_dq d = Some (last (dq_list d))" using dq_back_ok[OF Suc.prems(1) ne] .
  have lt: "last (dq_list d) < length ps" using Suc.prems(2) ne by simp
  have sn: "dq_list d = butlast (dq_list d) @ [last (dq_list d)]" using ne by simp
  show ?case
  proof (cases "?P (last (dq_list d))")
    case True
    obtain d1 where d1: "popBack d = Some d1" "dq_wf d1" "dq_list d1 = butlast (dq_list d)"
      "d_capacity d1 = d_capacity d"
      using dq_popBack_ok[OF Suc.prems(1) ne] by blast
    have "n = dq_size d1" using d1(3) Suc.hyps(2) by (metis dq_length length_butlast diff_Suc_1)
    moreover have "\<forall>j\<in>set (dq_list d1). j < length ps"
      using d1(3) Suc.prems(2) by (auto dest: in_set_butlastD)
    ultimately obtain d' where d': "pop_back_while rel ps i d1 = Some d'" "dq_wf d'"
      "d_capacity d' = d_capacity d1" "dq_list d' = drop_back ?P (dq_list d1)"
      using Suc.hyps(1)[of d1] d1(2) Suc.prems(3) by blast
    have "pop_back_while rel ps i d = Some d'"
      using nemp bk lt Suc.prems(3) True d1(1) d'(1)
      by (subst pop_back_while.simps) simp
    moreover have "drop_back ?P (dq_list d) = drop_back ?P (butlast (dq_list d))"
      using True drop_back_snoc[of ?P "butlast (dq_list d)" "last (dq_list d)"] sn by simp
    ultimately show ?thesis using d' d1 by simp
  next
    case False
    have "pop_back_while rel ps i d = Some d"
      using nemp bk lt Suc.prems(3) False by (subst pop_back_while.simps) simp
    moreover have "drop_back ?P (dq_list d) = dq_list d"
      using False drop_back_snoc[of ?P "butlast (dq_list d)" "last (dq_list d)"] sn by simp
    ultimately show ?thesis using Suc.prems(1) by simp
  qed
qed

lemma pop_front_while_ok:
  assumes "dq_wf d"
  shows "\<exists>d'. pop_front_while out d = Some d' \<and> dq_wf d' \<and>
           d_capacity d' = d_capacity d \<and>
           dq_list d' = dropWhile (\<lambda>j. j \<le> out) (dq_list d)"
  using assms
proof (induction "dq_size d" arbitrary: d)
  case 0
  then have "dq_list d = []" by (simp add: dq_list_def)
  then show ?case
    using 0 dq_empty[of d] by (subst pop_front_while.simps) simp
next
  case (Suc n)
  have ne: "dq_list d \<noteq> []" using Suc.hyps(2) by (auto simp: dq_list_def)
  then have nemp: "\<not> isEmptyDeque d" using dq_empty[OF Suc.prems(1)] by simp
  have fr: "front d = Some (hd (dq_list d))" using dq_front_ok[OF Suc.prems(1) ne] .
  have sn: "dq_list d = hd (dq_list d) # tl (dq_list d)" using ne by simp
  show ?case
  proof (cases "hd (dq_list d) \<le> out")
    case True
    obtain d1 where d1: "popFront d = Some d1" "dq_wf d1" "dq_list d1 = tl (dq_list d)"
      "d_capacity d1 = d_capacity d"
      using dq_popFront_ok[OF Suc.prems(1) ne] by blast
    have "n = dq_size d1" using d1(3) Suc.hyps(2) by (metis dq_length length_tl diff_Suc_1)
    then obtain d' where d': "pop_front_while out d1 = Some d'" "dq_wf d'"
      "d_capacity d' = d_capacity d1" "dq_list d' = dropWhile (\<lambda>j. j \<le> out) (dq_list d1)"
      using Suc.hyps(1)[of d1] d1(2) by blast
    have "pop_front_while out d = Some d'"
      using nemp fr True d1(1) d'(1) by (subst pop_front_while.simps) simp
    moreover have "dropWhile (\<lambda>j. j \<le> out) (dq_list d) = dropWhile (\<lambda>j. j \<le> out) (tl (dq_list d))"
      using True ne by (cases "dq_list d") simp_all
    ultimately show ?thesis using d' d1 by simp
  next
    case False
    have "pop_front_while out d = Some d"
      using nemp fr False by (subst pop_front_while.simps) simp
    moreover have "dropWhile (\<lambda>j. j \<le> out) (dq_list d) = dq_list d"
      using False ne by (cases "dq_list d") simp_all
    ultimately show ?thesis using Suc.prems(1) by simp
  qed
qed

lemma mono_inv_empty: "mono_inv key [] lo lo"
  by (simp add: mono_inv_def)

lemma mono_front:
  assumes "mono_inv key L lo hi" "lo < hi"
  shows "L \<noteq> [] \<and> lo \<le> hd L \<and> hd L < hi \<and> (\<forall>m. lo \<le> m \<and> m < hi \<longrightarrow> key m \<le> key (hd L))"
proof -
  have dom: "\<forall>m. lo \<le> m \<and> m < hi \<longrightarrow> (\<exists>j\<in>set L. m \<le> j \<and> key m \<le> key j)"
    using assms(1) unfolding mono_inv_def by simp
  then have "\<exists>j\<in>set L. lo \<le> j \<and> key lo \<le> key j" using assms(2) by simp
  then obtain x xs where L: "L = x # xs" by (cases L) auto
  have top: "key j \<le> key x" if "j \<in> set L" for j
    using that assms(1) unfolding mono_inv_def L by auto
  have "key m \<le> key x" if "lo \<le> m \<and> m < hi" for m
  proof -
    from dom that have "\<exists>j\<in>set L. m \<le> j \<and> key m \<le> key j" by simp
    then obtain j where "j \<in> set L" "key m \<le> key j" by auto
    then show ?thesis using top[of j] by simp
  qed
  moreover have "lo \<le> x \<and> x < hi" using assms(1) unfolding mono_inv_def L by simp
  ultimately show ?thesis using L by simp
qed

lemma drop_back_split:
  "\<exists>T. L = drop_back P L @ T \<and> (\<forall>t\<in>set T. P t)"
proof (induction L rule: rev_induct)
  case Nil
  then show ?case by simp
next
  case (snoc x xs)
  then obtain T where T: "xs = drop_back P xs @ T" "\<forall>t\<in>set T. P t" by blast
  show ?case
  proof (cases "P x")
    case True
    then have "xs @ [x] = drop_back P (xs @ [x]) @ (T @ [x])"
      using T(1) by (simp add: drop_back_snoc)
    moreover have "\<forall>t\<in>set (T @ [x]). P t" using T(2) True by simp
    ultimately show ?thesis by blast
  next
    case False
    then show ?thesis by (simp add: drop_back_snoc)
  qed
qed

lemma drop_back_above:
  "sorted_wrt (\<lambda>a b. key b < key a) L \<Longrightarrow>
   \<forall>x\<in>set (drop_back (\<lambda>j. key j \<le> v) L). (v::real) < key x"
proof (induction L rule: rev_induct)
  case Nil
  then show ?case by simp
next
  case (snoc x xs)
  then show ?case
    by (cases "key x \<le> v") (fastforce simp: drop_back_snoc sorted_wrt_append)+
qed

lemma mono_push:
  assumes "mono_inv key L lo hi" "lo \<le> hi"
  shows "mono_inv key (drop_back (\<lambda>j. key j \<le> key hi) L @ [hi]) lo (Suc hi)"
proof -
  let ?P = "\<lambda>j. key j \<le> key hi"
  define L' where "L' = drop_back ?P L"
  obtain T where T: "L = L' @ T" "\<forall>t\<in>set T. ?P t"
    using drop_back_split[of L ?P] unfolding L'_def by blast
  have s1: "sorted_wrt (<) L" and sub: "set L \<subseteq> {lo..<hi}"
    and s2: "sorted_wrt (\<lambda>a b. key b < key a) L"
    and dom: "\<forall>m. lo \<le> m \<and> m < hi \<longrightarrow> (\<exists>j\<in>set L. m \<le> j \<and> key m \<le> key j)"
    using assms(1) unfolding mono_inv_def by auto
  have above: "\<forall>x\<in>set L'. key hi < key x"
    using drop_back_above[OF s2, of "key hi"] unfolding L'_def .
  have s1': "sorted_wrt (<) L'" and s2': "sorted_wrt (\<lambda>a b. key b < key a) L'"
    and sub': "set L' \<subseteq> {lo..<hi}"
    using s1 s2 sub unfolding T(1) by (simp_all add: sorted_wrt_append)
  have a: "sorted_wrt (<) (L' @ [hi])"
    using s1' sub' by (auto simp: sorted_wrt_append)
  have b: "set (L' @ [hi]) \<subseteq> {lo..<Suc hi}" using sub' assms(2) by auto
  have c: "sorted_wrt (\<lambda>a b. key b < key a) (L' @ [hi])"
    using s2' above by (auto simp: sorted_wrt_append)
  have d: "\<exists>j\<in>set (L' @ [hi]). m \<le> j \<and> key m \<le> key j" if m: "lo \<le> m \<and> m < Suc hi" for m
  proof (cases "m = hi")
    case True
    then show ?thesis by simp
  next
    case False
    then have "\<exists>j\<in>set L. m \<le> j \<and> key m \<le> key j" using dom m by simp
    then obtain j where j: "j \<in> set L" "m \<le> j" "key m \<le> key j" by auto
    show ?thesis
    proof (cases "j \<in> set L'")
      case True
      then show ?thesis using j by auto
    next
      case False
      then have "j \<in> set T" using j(1) unfolding T(1) by simp
      then have "key j \<le> key hi" using T(2) by simp
      then show ?thesis using j(3) m by auto
    qed
  qed
  show ?thesis unfolding mono_inv_def L'_def[symmetric] using a b c d by blast
qed

lemma mono_pop_front:
  assumes "mono_inv key L lo hi"
  shows "mono_inv key (dropWhile (\<lambda>j. j \<le> lo) L) (Suc lo) hi"
proof -
  let ?P = "\<lambda>j. j \<le> lo"
  define L1 where "L1 = takeWhile ?P L"
  define L2 where "L2 = dropWhile ?P L"
  have split: "L = L1 @ L2" unfolding L1_def L2_def by simp
  have s1: "sorted_wrt (<) L" and sub: "set L \<subseteq> {lo..<hi}"
    and s2: "sorted_wrt (\<lambda>a b. key b < key a) L"
    and dom: "\<forall>m. lo \<le> m \<and> m < hi \<longrightarrow> (\<exists>j\<in>set L. m \<le> j \<and> key m \<le> key j)"
    using assms(1) unfolding mono_inv_def by auto
  have a: "sorted_wrt (<) L2" and c: "sorted_wrt (\<lambda>a b. key b < key a) L2"
    and sub2: "set L2 \<subseteq> {lo..<hi}"
    using s1 s2 sub unfolding split by (simp_all add: sorted_wrt_append)
  have gt: "lo < x" if "x \<in> set L2" for x
  proof (cases L2)
    case Nil
    then show ?thesis using that by simp
  next
    case (Cons y ys)
    then have "\<not> y \<le> lo" unfolding L2_def by (metis hd_dropWhile list.distinct(1) list.sel(1))
    moreover have "y \<le> x" using a that unfolding Cons by auto
    ultimately show ?thesis by simp
  qed
  have b: "set L2 \<subseteq> {Suc lo..<hi}" using gt sub2 by fastforce
  have d: "\<exists>j\<in>set L2. m \<le> j \<and> key m \<le> key j" if m: "Suc lo \<le> m \<and> m < hi" for m
  proof -
    have "\<exists>j\<in>set L. m \<le> j \<and> key m \<le> key j" using dom m by simp
    then obtain j where j: "j \<in> set L" "m \<le> j" "key m \<le> key j" by auto
    have "j \<notin> set L1" using j(2) m unfolding L1_def by (auto dest: set_takeWhileD)
    then have "j \<in> set L2" using j(1) unfolding split by simp
    then show ?thesis using j by auto
  qed
  show ?thesis unfolding mono_inv_def L2_def[symmetric] using a b c d by blast
qed

lemma mono_length:
  assumes "mono_inv key L lo hi"
  shows "length L \<le> hi - lo"
proof -
  have "distinct L" using assms unfolding mono_inv_def by (simp add: strict_sorted_iff)
  then have "length L = card (set L)" by (simp add: distinct_card)
  also have "\<dots> \<le> card {lo..<hi}"
    using assms unfolding mono_inv_def by (intro card_mono) auto
  finally show ?thesis by simp
qed

lemma strncpy_label:
  assumes "length pat = 32" "NUL \<notin> set lbl" "length lbl \<le> 31"
  shows "strncpy pat lbl 31 \<bind> (\<lambda>p. wr p 31 NUL) = Some (pattern_buf lbl)"
proof -
  have cs: "c_str lbl = lbl" using assms(2) by (auto simp: c_str_def takeWhile_eq_all_conv)
  let ?A = "lbl @ replicate (31 - length lbl) NUL"
  have A: "take 31 (lbl @ replicate 31 NUL) = ?A" using assms(3) by simp
  have lenA: "length ?A = 31" using assms(3) by simp
  have "drop 31 pat \<noteq> []" using assms(1) by simp
  then obtain c where B: "drop 31 pat = [c]"
    using assms(1) by (cases "drop 31 pat") (auto simp: drop_eq_Nil dest: arg_cong[of _ _ length])
  have s: "strncpy pat lbl 31 = Some (?A @ [c])"
    unfolding strncpy_def cs A B using assms(1) by simp
  have "(?A @ [c])[31 := NUL] = ?A @ [NUL]"
    using lenA by (metis length_list_update list_update_length)
  moreover have "?A @ [NUL] = pattern_buf lbl"
  proof -
    have "32 - length lbl = Suc (31 - length lbl)" using assms(3) by simp
    then show ?thesis unfolding pattern_buf_def by (simp add: replicate_append_same)
  qed
  ultimately show ?thesis using s lenA by (simp add: wr_def)
qed

lemma size_sub_32: "size_sub 32 1 = 31"
  by (simp add: size_sub_le)

lemma classifyPattern_buf:
  assumes "length pat = 32"
  shows "classifyPattern f l v m pat 32 = Some (pattern_buf (classify f l v m))"
proof -
  define up where "up = (dgt (dfabs (ddiv (dsub l f) f)) (Finite lit_0_05) \<and> dgt l f)"
  define down where "down = (dgt (dfabs (ddiv (dsub l f) f)) (Finite lit_0_05) \<and> dlt l f)"
  define vol where "vol = dgt (ddiv (dsqrt v) (dfabs m)) (Finite lit_0_1)"
  have H: "strncpy pat lbl 31 \<bind> (\<lambda>p. wr p 31 NUL) = Some (pattern_buf lbl)"
    if "lbl \<in> {''bullish'', ''bearish'', ''volatile'', ''stable''}" for lbl
    using that strncpy_label[OF assms, of lbl] by (auto simp: NUL_def)
  have L: "classify f l v m =
      (if up then ''bullish'' else if down then ''bearish''
       else if vol then ''volatile'' else ''stable'')"
    unfolding classify_def Let_def up_def down_def vol_def by (rule refl)
  have C: "classifyPattern f l v m pat 32 =
      (if up then strncpy pat ''bullish'' 31 else if down then strncpy pat ''bearish'' 31
       else if vol then strncpy pat ''volatile'' 31 else strncpy pat ''stable'' 31)
      \<bind> (\<lambda>p. wr p 31 NUL)"
    unfolding classifyPattern_def Let_def up_def down_def vol_def size_sub_32 by (rule refl)
  show ?thesis
    unfolding L C by (cases up; cases down; cases vol) (simp_all only: if_True if_False H insertI1 insertI2)
qed

lemma classify_labels:
  "classify f l v m \<in> {''bullish'', ''bearish'', ''volatile'', ''stable''}"
  by (simp add: classify_def Let_def)

lemma c_str_pattern_buf:
  "lbl \<in> {''bullish'', ''bearish'', ''volatile'', ''stable''} \<Longrightarrow> c_str (pattern_buf lbl) = lbl"
  by (auto simp: c_str_def pattern_buf_def NUL_def)

lemma length_pattern_buf:
  "lbl \<in> {''bullish'', ''bearish'', ''volatile'', ''stable''} \<Longrightarrow> length (pattern_buf lbl) = 32"
  by (auto simp: pattern_buf_def)

lemma drop_back_length: "length (drop_back P L) \<le> length L"
  using drop_back_split[of L P] by (metis le_add1 length_append)

lemma deque_add:
  assumes "dq_wf d" "d_capacity d = w + 1" "mono_inv key (dq_list d) lo hi"
    and "hi < length ps" "lo \<le> hi" "hi - lo < w"
    and rel: "\<And>a b. rel (ps ! a) (ps ! b) \<longleftrightarrow> key a \<le> key b"
  shows "\<exists>d1 d2. pop_back_while rel ps hi d = Some d1 \<and> pushBack d1 hi = Some d2 \<and>
           dq_wf d2 \<and> d_capacity d2 = w + 1 \<and> mono_inv key (dq_list d2) lo (Suc hi) \<and>
           dq_wf d1 \<and> d_capacity d1 = w + 1 \<and> dq_size d1 \<le> dq_size d \<and> dq_size d1 < w"
proof -
  have "\<forall>j\<in>set (dq_list d). j < length ps"
    using assms(3,4) unfolding mono_inv_def by fastforce
  from pop_back_while_ok[OF assms(1) this assms(4), of rel]
  obtain d1 where d1: "pop_back_while rel ps hi d = Some d1" "dq_wf d1"
    "d_capacity d1 = d_capacity d"
    "dq_list d1 = drop_back (\<lambda>j. key j \<le> key hi) (dq_list d)"
    unfolding rel by blast
  have "dq_size d1 \<le> dq_size d"
    using drop_back_length[of "\<lambda>j. key j \<le> key hi" "dq_list d"] d1(4)
    by (metis dq_length)
  moreover have "dq_size d \<le> hi - lo" using mono_length[OF assms(3)] by simp
  ultimately have sz: "dq_size d1 \<le> dq_size d" "dq_size d1 < w" using assms(6) by simp_all
  then have "Suc (dq_size d1) < d_capacity d1" using d1(3) assms(2) by simp
  from dq_pushBack_ok[OF d1(2) this, of hi]
  obtain d2 where d2: "pushBack d1 hi = Some d2" "dq_wf d2"
    "dq_list d2 = dq_list d1 @ [hi]" "d_capacity d2 = d_capacity d1"
    by blast
  have "mono_inv key (dq_list d2) lo (Suc hi)"
    unfolding d2(3) d1(4) by (rule mono_push[OF assms(3,5)])
  then show ?thesis using d1 d2 sz assms(2) by simp
qed
lemma first_window_loop_ok:
  assumes "sw_inv ps w 0 i st" "i \<le> w" "w \<le> length ps"
  shows "\<exists>st'. first_window_loop ps w i st = Some st' \<and> sw_inv ps w 0 w st' \<and>
           s_windows st' = s_windows st"
  using assms
proof (induction "w - i" arbitrary: i st)
  case 0
  then show ?case by (subst first_window_loop.simps) simp
next
  case (Suc n)
  have i: "i < w" "i < length ps" using Suc.hyps(2) Suc.prems(3) by simp_all
  note inv = Suc.prems(1)[unfolded sw_inv_def]
  obtain max1 max2 where mx: "pop_back_while (\<le>) ps i (s_max_dq st) = Some max1"
    "pushBack max1 i = Some max2" "dq_wf max2" "d_capacity max2 = w + 1"
    "mono_inv (\<lambda>j. ps ! j) (dq_list max2) 0 (Suc i)"
    using deque_add[of "s_max_dq st" w "\<lambda>j. ps ! j" 0 i ps "(\<le>)"] inv i by auto
  obtain min1 min2 where mn: "pop_back_while (\<ge>) ps i (s_min_dq st) = Some min1"
    "pushBack min1 i = Some min2" "dq_wf min2" "d_capacity min2 = w + 1"
    "mono_inv (\<lambda>j. - ps ! j) (dq_list min2) 0 (Suc i)"
    using deque_add[of "s_min_dq st" w "\<lambda>j. - ps ! j" 0 i ps "(\<ge>)"] inv i by auto
  let ?st = "st\<lparr>s_sum := dadd (s_sum st) (Finite (ps ! i)),
                 s_sum_sq := dadd (s_sum_sq st) (dmul (Finite (ps ! i)) (Finite (ps ! i))),
                 s_max_dq := max2, s_min_dq := min2\<rparr>"
  have inv': "sw_inv ps w 0 (Suc i) ?st"
    using mx(3-5) mn(3-5) inv by (simp add: sw_inv_def)
  have n: "n = w - Suc i" and le: "Suc i \<le> w" using Suc.hyps(2) by simp_all
  obtain st' where st': "first_window_loop ps w (Suc i) ?st = Some st'"
    "sw_inv ps w 0 w st'" "s_windows st' = s_windows ?st"
    using Suc.hyps(1)[OF n inv' le Suc.prems(3)] by blast
  have "first_window_loop ps w i st = Some st'"
    using i mx(1,2) mn(1,2) st'(1) by (subst first_window_loop.simps) simp
  then show ?case using st' by simp
qed

lemma slice_window:
  assumes "0 < w" "i + w \<le> length ps"
  shows "slice ps i (i + w - 1) = map ((!) ps) [i..<i + w]"
proof -
  have "i + w - 1 < length ps" "Suc (i + w - 1) = i + w" using assms by simp_all
  then show ?thesis using slice_nth[of "i + w - 1" ps i] by simp
qed

lemma window_max:
  assumes "0 < w" "i + w \<le> length ps" "i \<le> j" "j < i + w"
    and "\<forall>m. i \<le> m \<and> m < i + w \<longrightarrow> ps ! m \<le> ps ! j"
  shows "Max (set (slice ps i (i + w - 1))) = ps ! j"
  unfolding slice_window[OF assms(1,2)] using assms(3-5)
  by (intro Max_eqI) auto

lemma window_min:
  assumes "0 < w" "i + w \<le> length ps" "i \<le> j" "j < i + w"
    and "\<forall>m. i \<le> m \<and> m < i + w \<longrightarrow> ps ! j \<le> ps ! m"
  shows "Min (set (slice ps i (i + w - 1))) = ps ! j"
  unfolding slice_window[OF assms(1,2)] using assms(3-5)
  by (intro Min_eqI) auto

lemma store_window_ok:
  assumes "sw_inv ps w i (i + w) st" "0 < w" "i + w \<le> length ps"
    and "i < length (s_windows st)" "length (w_pattern (s_windows st ! i)) = 32"
  shows "store_window ps w i (i + w - 1) st =
           Some (st\<lparr>s_windows := (s_windows st)[i := window_stats ps w i]\<rparr>)"
proof -
  note inv = assms(1)[unfolded sw_inv_def]
  have lt: "i < i + w" using assms(2) by simp
  have mx: "dq_list (s_max_dq st) \<noteq> []" "i \<le> hd (dq_list (s_max_dq st))"
    "hd (dq_list (s_max_dq st)) < i + w"
    "\<forall>m. i \<le> m \<and> m < i + w \<longrightarrow> ps ! m \<le> ps ! hd (dq_list (s_max_dq st))"
    using mono_front[OF _ lt, of "\<lambda>j. ps ! j" "dq_list (s_max_dq st)"] inv by simp_all
  have mn: "dq_list (s_min_dq st) \<noteq> []" "i \<le> hd (dq_list (s_min_dq st))"
    "hd (dq_list (s_min_dq st)) < i + w"
    "\<forall>m. i \<le> m \<and> m < i + w \<longrightarrow> ps ! hd (dq_list (s_min_dq st)) \<le> ps ! m"
    using mono_front[OF _ lt, of "\<lambda>j. - ps ! j" "dq_list (s_min_dq st)"] inv by simp_all
  have f1: "front (s_max_dq st) = Some (hd (dq_list (s_max_dq st)))"
    using dq_front_ok mx(1) inv by simp
  have f2: "front (s_min_dq st) = Some (hd (dq_list (s_min_dq st)))"
    using dq_front_ok mn(1) inv by simp
  have r1: "rd ps (hd (dq_list (s_max_dq st))) = Some (Max (set (slice ps i (i + w - 1))))"
    using window_max[OF assms(2,3) mx(2,3,4)] mx(3) assms(3) by simp
  have r2: "rd ps (hd (dq_list (s_min_dq st))) = Some (Min (set (slice ps i (i + w - 1))))"
    using window_min[OF assms(2,3) mn(2,3,4)] mn(3) assms(3) by simp
  have r3: "rd ps i = Some (ps ! i)" "rd ps (i + w - 1) = Some (ps ! (i + w - 1))"
    using assms(2,3) by simp_all
  have sums: "s_sum st = win_sum ps w i" "s_sum_sq st = win_sum_sq ps w i"
    using inv by (simp_all split: if_splits)
  show ?thesis
    unfolding store_window_def Let_def sums
    using assms(2,3,4) classifyPattern_buf[OF assms(5)]
    by (simp add: window_stats_def win_avg_def win_variance_def Let_def f1 f2 r1 r2)
qed

lemma win_sum_step:
  assumes "1 \<le> i" "0 < w"
  shows "win_sum ps w i =
           dadd (dsub (win_sum ps w (i - 1)) (Finite (ps ! (i - 1)))) (Finite (ps ! (i + w - 1)))"
    and "win_sum_sq ps w i =
           dadd (dsub (win_sum_sq ps w (i - 1)) (dmul (Finite (ps ! (i - 1))) (Finite (ps ! (i - 1)))))
                (dmul (Finite (ps ! (i + w - 1))) (Finite (ps ! (i + w - 1))))"
proof -
  obtain k where k: "i = Suc k" using assms(1) by (cases i) auto
  have e: "Suc k + w - 1 = k + w" by simp
  show "win_sum ps w i =
           dadd (dsub (win_sum ps w (i - 1)) (Finite (ps ! (i - 1)))) (Finite (ps ! (i + w - 1)))"
    unfolding k e by simp
  show "win_sum_sq ps w i =
           dadd (dsub (win_sum_sq ps w (i - 1)) (dmul (Finite (ps ! (i - 1))) (Finite (ps ! (i - 1)))))
                (dmul (Finite (ps ! (i + w - 1))) (Finite (ps ! (i + w - 1))))"
    unfolding k e by simp
qed

lemma slide_loop_ok:
  assumes "sw_inv ps w (i - 1) (i - 1 + w) st" "1 \<le> i" "0 < w" "i \<le> nw"
    and "nw + w = length ps + 1" "length ps < 2 ^ 62" "length (s_windows st) = nw"
    and "\<forall>k. i \<le> k \<and> k < nw \<longrightarrow> length (w_pattern (s_windows st ! k)) = 32"
  shows "\<exists>st'. slide_loop ps w nw i st = Some st' \<and> length (s_windows st') = nw \<and>
           (\<forall>k<i. s_windows st' ! k = s_windows st ! k) \<and>
           (\<forall>k. i \<le> k \<and> k < nw \<longrightarrow> s_windows st' ! k = window_stats ps w k)"
  using assms(1,2,4,7,8)
proof (induction "nw - i" arbitrary: i st)
  case 0
  then show ?case by (subst slide_loop.simps) auto
next
  case (Suc n)
  have i: "i < nw" "i + w \<le> length ps" using Suc.hyps(2) assms(5) by simp_all
  note inv = Suc.prems(1)[unfolded sw_inv_def]
  have out: "size_sub i 1 = i - 1"
    using Suc.prems(2) i assms(6) by (intro size_sub_le) simp_all
  have "size_add i w = i + w" using i assms(6) by (intro size_add_small) simp
  moreover have "size_sub (i + w) 1 = i + w - 1"
    using assms(3) i assms(6) by (intro size_sub_le) simp_all
  ultimately have inn: "size_sub (size_add i w) 1 = i + w - 1" by simp
  have rds: "rd ps (i - 1) = Some (ps ! (i - 1))" "rd ps (i + w - 1) = Some (ps ! (i + w - 1))"
    using i assms(3) by simp_all
  have Si: "Suc (i - 1) = i" "Suc (i + w - 1) = i + w" using Suc.prems(2) assms(3) by simp_all
  \<comment> \<open>the indices that left the window\<close>
  obtain max0 where max0: "pop_front_while (i - 1) (s_max_dq st) = Some max0" "dq_wf max0"
    "d_capacity max0 = w + 1" "mono_inv (\<lambda>j. ps ! j) (dq_list max0) i (i - 1 + w)"
    using pop_front_while_ok[of "s_max_dq st" "i - 1"] inv
      mono_pop_front[of "\<lambda>j. ps ! j" "dq_list (s_max_dq st)" "i - 1" "i - 1 + w"] Si
    by auto
  obtain min0 where min0: "pop_front_while (i - 1) (s_min_dq st) = Some min0" "dq_wf min0"
    "d_capacity min0 = w + 1" "mono_inv (\<lambda>j. - ps ! j) (dq_list min0) i (i - 1 + w)"
    using pop_front_while_ok[of "s_min_dq st" "i - 1"] inv
      mono_pop_front[of "\<lambda>j. - ps ! j" "dq_list (s_min_dq st)" "i - 1" "i - 1 + w"] Si
    by auto
  \<comment> \<open>the index that entered\<close>
  have hi: "i - 1 + w = i + w - 1" "i + w - 1 < length ps" "i \<le> i + w - 1" "i + w - 1 - i < w"
    using Suc.prems(2) assms(3) i by simp_all
  obtain max1 max2 where mx: "pop_back_while (\<le>) ps (i + w - 1) max0 = Some max1"
    "pushBack max1 (i + w - 1) = Some max2" "dq_wf max2" "d_capacity max2 = w + 1"
    "mono_inv (\<lambda>j. ps ! j) (dq_list max2) i (i + w)"
    using deque_add[OF max0(2,3) max0(4)[unfolded hi(1)] hi(2,3,4), of "(\<le>)"] Si(2) by auto
  obtain min1 min2 where mn: "pop_back_while (\<ge>) ps (i + w - 1) min0 = Some min1"
    "pushBack min1 (i + w - 1) = Some min2" "dq_wf min2" "d_capacity min2 = w + 1"
    "mono_inv (\<lambda>j. - ps ! j) (dq_list min2) i (i + w)"
    using deque_add[OF min0(2,3) min0(4)[unfolded hi(1)] hi(2,3,4), of "(\<ge>)"] Si(2) by auto
  let ?st1 = "st\<lparr>s_sum := dadd (dsub (s_sum st) (Finite (ps ! (i - 1))))
                                 (Finite (ps ! (i + w - 1))),
                  s_sum_sq := dadd (dsub (s_sum_sq st)
                                      (dmul (Finite (ps ! (i - 1))) (Finite (ps ! (i - 1)))))
                                (dmul (Finite (ps ! (i + w - 1))) (Finite (ps ! (i + w - 1)))),
                  s_max_dq := max2, s_min_dq := min2\<rparr>"
  have old: "s_sum st = win_sum ps w (i - 1)" "s_sum_sq st = win_sum_sq ps w (i - 1)"
    using inv by (simp_all split: if_splits)
  have i0: "i \<noteq> 0" using Suc.prems(2) by simp
  have inv1: "sw_inv ps w i (i + w) ?st1"
    using mx(3-5) mn(3-5) inv i0 win_sum_step[OF Suc.prems(2) assms(3), of ps]
    by (simp add: sw_inv_def old)
  let ?st2 = "?st1\<lparr>s_windows := (s_windows st)[i := window_stats ps w i]\<rparr>"
  have sw: "store_window ps w i (i + w - 1) ?st1 = Some ?st2"
    using store_window_ok[OF inv1 assms(3) i(2)] i(1) Suc.prems(4,5) by simp
  have inv2: "sw_inv ps w (Suc i - 1) (Suc i - 1 + w) ?st2"
    using inv1 i0 by (simp add: sw_inv_def)
  have n: "n = nw - Suc i" using Suc.hyps(2) by simp
  have pat: "\<forall>k. Suc i \<le> k \<and> k < nw \<longrightarrow> length (w_pattern (s_windows ?st2 ! k)) = 32"
    using Suc.prems(5) by simp
  obtain st' where st': "slide_loop ps w nw (Suc i) ?st2 = Some st'"
    "length (s_windows st') = nw" "\<forall>k<Suc i. s_windows st' ! k = s_windows ?st2 ! k"
    "\<forall>k. Suc i \<le> k \<and> k < nw \<longrightarrow> s_windows st' ! k = window_stats ps w k"
    using Suc.hyps(1)[OF n inv2 _ _ _ pat] i(1) Suc.prems(4) by auto
  have "slide_loop ps w nw i st = Some st'"
    apply (subst slide_loop.simps)
    apply (simp only: Let_def out inn rds max0(1) min0(1) mx(1,2) mn(1,2) i(1) if_True
        bind.bind_lunit sw)
    apply (insert st'(1))
    apply simp
    done
  moreover have "\<forall>k<i. s_windows st' ! k = s_windows st ! k" using st'(3) by simp
  moreover have "s_windows st' ! i = window_stats ps w i"
    using st'(3) i(1) Suc.prems(4) by simp
  then have "\<forall>k. i \<le> k \<and> k < nw \<longrightarrow> s_windows st' ! k = window_stats ps w k"
    using st'(4) by (metis Suc_leI le_neq_implies_less)
  ultimately show ?case using st'(2) by blast
qed

lemma createDeque_cases:
  "createDeque al c = (Some d, al') \<Longrightarrow> d = fresh_deque c"
  by (auto simp: createDeque_def fresh_deque_def split: prod.splits bool.splits)

lemma fresh_deque_wf: "0 < c \<Longrightarrow> c < 2 ^ 63 \<Longrightarrow> dq_wf (fresh_deque c) \<and> dq_list (fresh_deque c) = []"
  by (simp add: dq_wf_def fresh_deque_def dq_list_def dq_size_def)

lemma replicate_update_other: "k \<noteq> j \<Longrightarrow> k < m \<Longrightarrow> (replicate m x)[j := y] ! k = x"
  by simp

lemma analyze_run:
  assumes "1 \<le> w" "w \<le> length ps" "length ps \<le> MAX_ARRAY_SIZE"
  shows "do {
           st1 \<leftarrow> first_window_loop ps w 0
                   \<lparr>s_sum = Finite 0, s_sum_sq = Finite 0, s_max_dq = fresh_deque (size_add w 1),
                    s_min_dq = fresh_deque (size_add w 1),
                    s_windows = replicate (size_add (size_sub (length ps) w) 1) fresh_window\<rparr>;
           st2 \<leftarrow> store_window ps w 0 (size_sub w 1) st1;
           st3 \<leftarrow> slide_loop ps w (size_add (size_sub (length ps) w) 1) 1 st2;
           Some (0::int, Stored \<lparr>r_windows = s_windows st3,
                            r_num_windows = size_add (size_sub (length ps) w) 1,
                            r_window_size = w\<rparr>)
         } = Some (0, Stored (analyze_spec ps w))"
proof -
  let ?n = "length ps"
  let ?nw = "?n - w + 1"
  have big: "?n < 2 ^ 62" using assms(3) by (simp add: MAX_ARRAY_SIZE_def)
  have "size_sub ?n w = ?n - w" using assms(2) big by (intro size_sub_le) simp_all
  moreover have "size_add (?n - w) 1 = ?n - w + 1" using big by (intro size_add_small) simp
  ultimately have nw: "size_add (size_sub ?n w) 1 = ?nw" by simp
  have cap: "size_add w 1 = w + 1" using assms(2) big by (intro size_add_small) simp
  have w1: "size_sub w 1 = w - 1" using assms(1,2) big by (intro size_sub_le) simp_all
  let ?st0 = "\<lparr>s_sum = Finite 0, s_sum_sq = Finite 0, s_max_dq = fresh_deque (w + 1),
               s_min_dq = fresh_deque (w + 1), s_windows = replicate ?nw fresh_window\<rparr>"
  have "w + 1 < 2 ^ 63" using assms(2) big by simp
  then have fd: "dq_wf (fresh_deque (w + 1))" "dq_list (fresh_deque (w + 1)) = []"
    using fresh_deque_wf[of "w + 1"] by simp_all
  have inv0: "sw_inv ps w 0 0 ?st0"
    using fd by (simp add: sw_inv_def mono_inv_empty fresh_deque_def)
  obtain st1 where st1: "first_window_loop ps w 0 ?st0 = Some st1" "sw_inv ps w 0 w st1"
    "s_windows st1 = replicate ?nw fresh_window"
    using first_window_loop_ok[OF inv0 _ assms(2)] by auto
  have inv1: "sw_inv ps w 0 (0 + w) st1" using st1(2) by simp
  let ?st2 = "st1\<lparr>s_windows := (s_windows st1)[0 := window_stats ps w 0]\<rparr>"
  have st2: "store_window ps w 0 (w - 1) st1 = Some ?st2"
    using store_window_ok[OF inv1, of] assms st1(3) by (simp add: fresh_window_def)
  have inv2: "sw_inv ps w (1 - 1) (1 - 1 + w) ?st2" using st1(2) by (simp add: sw_inv_def)
  have pat: "\<forall>k. 1 \<le> k \<and> k < ?nw \<longrightarrow> length (w_pattern (s_windows ?st2 ! k)) = 32"
  proof (intro allI impI)
    fix k assume k: "1 \<le> k \<and> k < ?nw"
    then have "(replicate ?nw fresh_window)[0 := window_stats ps w 0] ! k = fresh_window"
      by (intro replicate_update_other) simp_all
    then show "length (w_pattern (s_windows ?st2 ! k)) = 32"
      using st1(3) by (simp add: fresh_window_def)
  qed
  have "\<exists>st'. slide_loop ps w ?nw 1 ?st2 = Some st' \<and> length (s_windows st') = ?nw \<and>
           (\<forall>k<1. s_windows st' ! k = s_windows ?st2 ! k) \<and>
           (\<forall>k. 1 \<le> k \<and> k < ?nw \<longrightarrow> s_windows st' ! k = window_stats ps w k)"
    using assms st1(3) big by (intro slide_loop_ok[OF inv2 _ _ _ _ _ _ pat]) simp_all
  then obtain st3 where st3: "slide_loop ps w ?nw 1 ?st2 = Some st3"
    "length (s_windows st3) = ?nw" "s_windows st3 ! 0 = s_windows ?st2 ! 0"
    "\<forall>k. 1 \<le> k \<and> k < ?nw \<longrightarrow> s_windows st3 ! k = window_stats ps w k"
    by auto
  have "s_windows st3 ! 0 = window_stats ps w 0" using st3(3) st1(3) by simp
  then have "s_windows st3 ! k = window_stats ps w k" if "k < ?nw" for k
    using st3(4) that by (cases "k = 0") auto
  then have "s_windows st3 = map (window_stats ps w) [0..<?nw]"
    using st3(2) by (intro nth_equalityI) (simp_all del: upt_Suc)
  then show ?thesis
    by (simp only: nw cap w1 st1(1) st2 st3(1) bind.bind_lunit analyze_spec_def)
qed

lemma createDeque_ok:
  "alloc_ok al \<Longrightarrow> \<exists>al'. createDeque al c = (Some (fresh_deque c), al') \<and> alloc_ok al'"
proof -
  assume "alloc_ok al"
  then obtain al1 where 1: "malloc al = (True, al1)" "alloc_ok al1" using malloc_ok by blast
  then obtain al2 where 2: "malloc al1 = (True, al2)" "alloc_ok al2" using malloc_ok by blast
  show ?thesis using 1 2 by (simp add: createDeque_def fresh_deque_def)
qed

lemma analyze_run_fin:
  assumes "1 \<le> w" "w \<le> length ps" "length ps \<le> MAX_ARRAY_SIZE"
  shows "do {
           st1 \<leftarrow> first_window_loop (map fin ps) w 0
                   \<lparr>s_sum = Finite 0, s_sum_sq = Finite 0, s_max_dq = fresh_deque (size_add w 1),
                    s_min_dq = fresh_deque (size_add w 1),
                    s_windows = replicate (size_add (size_sub (length ps) w) 1) fresh_window\<rparr>;
           st2 \<leftarrow> store_window (map fin ps) w 0 (size_sub w 1) st1;
           st3 \<leftarrow> slide_loop (map fin ps) w (size_add (size_sub (length ps) w) 1) 1 st2;
           Some (0::int, Stored \<lparr>r_windows = s_windows st3,
                            r_num_windows = size_add (size_sub (length ps) w) 1,
                            r_window_size = w\<rparr>)
         } = Some (0, Stored (analyze_spec (map fin ps) w))"
  using analyze_run[of w "map fin ps"] assms by simp

lemma analyze_ok:
  assumes "validate_prices ps" "1 \<le> w" "w \<le> length ps" "length ps \<le> MAX_ARRAY_SIZE"
    and "alloc_ok al"
  shows "analyzeSlidingWindow al (Some ps) w True = Some (0, Stored (analyze_spec (map fin ps) w))"
proof -
  obtain al1 where 1: "malloc al = (True, al1)" "alloc_ok al1"
    using malloc_ok[OF assms(5)] by blast
  obtain al2 where 2: "malloc al1 = (True, al2)" "alloc_ok al2"
    using malloc_ok[OF 1(2)] by blast
  obtain al3 where 3: "createDeque al2 (size_add w 1) = (Some (fresh_deque (size_add w 1)), al3)"
    "alloc_ok al3"
    using createDeque_ok[OF 2(2)] by blast
  obtain al4 where 4: "createDeque al3 (size_add w 1) = (Some (fresh_deque (size_add w 1)), al4)"
    using createDeque_ok[OF 3(2)] by blast
  have ne: "ps \<noteq> []" "w \<noteq> 0" "\<not> length ps < w" using assms(2,3) by auto
  show ?thesis
    unfolding analyzeSlidingWindow_def Let_def
    using assms(1,4) ne 1 2 3 4 analyze_run_fin[OF assms(2,3,4)]
    by (simp add: not_less)
qed

lemma analyze_Stored:
  assumes "analyzeSlidingWindow al prices w out = Some (st, Stored r)"
  shows "\<exists>ps. prices = Some ps \<and> out \<and> st = 0 \<and> validate_prices ps \<and> 1 \<le> w \<and>
           w \<le> length ps \<and> length ps \<le> MAX_ARRAY_SIZE \<and> r = analyze_spec (map fin ps) w"
proof -
  obtain ps where ps: "prices = Some ps" using assms
    by (cases prices) (auto simp: analyzeSlidingWindow_def)
  have v: "out" "length ps \<le> MAX_ARRAY_SIZE" "w \<noteq> 0" "w \<le> length ps" "validate_prices ps"
    using assms ps by (auto simp: analyzeSlidingWindow_def split: if_splits)
  then have w: "1 \<le> w" by simp
  note R = analyze_run_fin[OF w v(4,2)]
  have "st = 0 \<and> r = analyze_spec (map fin ps) w"
    using assms ps v R unfolding analyzeSlidingWindow_def Let_def
    by (auto split: prod.splits bool.splits option.splits if_splits
        dest!: createDeque_cases)
  then show ?thesis using ps v w by simp
qed

section \<open>The claims on the sliding window analysis\<close>

lemma analyze_spec_nth:
  "i < length ps - w + 1 \<Longrightarrow> r_windows (analyze_spec ps w) ! i = window_stats ps w i"
  unfolding analyze_spec_def by (simp del: upt_Suc)

lemma window_record:
  assumes "analyzeSlidingWindow al (Some ps) w out = Some (0, Stored r)" "i < r_num_windows r"
  shows "0 < w" "i + w \<le> length ps" "validate_prices ps"
    and "r_windows r ! i = window_stats (map fin ps) w i"
proof -
  have r: "r = analyze_spec (map fin ps) w" and w: "0 < w" "w \<le> length ps"
    and v: "validate_prices ps"
    using analyze_Stored[OF assms(1)] by auto
  have i: "i < length ps - w + 1" using assms(2) r by (simp add: analyze_spec_def)
  show "0 < w" by (rule w(1))
  show "i + w \<le> length ps" using i w by simp
  show "validate_prices ps" by (rule v)
  show "r_windows r ! i = window_stats (map fin ps) w i"
    using analyze_spec_nth[of i "map fin ps" w] i r by simp
qed

lemma window_stats_fields:
  "w_max (window_stats ps w i) = Finite (Max (set (slice ps i (i + w - 1))))"
  "w_min (window_stats ps w i) = Finite (Min (set (slice ps i (i + w - 1))))"
  "w_avg (window_stats ps w i) = win_avg ps w i"
  "w_pattern (window_stats ps w i) =
     pattern_buf (classify (Finite (ps ! i)) (Finite (ps ! (i + w - 1)))
                    (win_variance ps w i) (win_avg ps w i))"
  by (simp_all add: window_stats_def Let_def)

text \<open>
  Claim C6. For every valid price sequence of length \<open>n\<close> and every window size \<open>w\<close> with
  \<open>1 \<le> w \<le> n\<close> (non-NULL arguments, every allocation succeeding),
  \<open>analyzeSlidingWindow\<close> returns status 0 and a result of exactly \<open>n - w + 1\<close> records,
  the record at index \<open>i\<close> being that of the window starting at position \<open>i\<close>. Whenever
  \<open>w = 0\<close> or \<open>w > n\<close> it returns -2 and stores nothing.
\<close>

theorem analyzeSlidingWindow_count:
  "(validate_prices ps \<and> length ps \<le> MAX_ARRAY_SIZE \<and> 1 \<le> w \<and> w \<le> length ps \<and> alloc_ok al \<longrightarrow>
      (\<exists>r. analyzeSlidingWindow al (Some ps) w True = Some (0, Stored r) \<and>
           r_num_windows r = length ps - w + 1 \<and> length (r_windows r) = length ps - w + 1 \<and>
           r_window_size r = w \<and>
           (\<forall>i<length ps - w + 1. r_windows r ! i = window_stats (map fin ps) w i))) \<and>
   (w = 0 \<or> length ps < w \<longrightarrow>
      analyzeSlidingWindow al (Some ps) w True = Some (- 2, Untouched))"
proof (intro conjI impI)
  assume a: "validate_prices ps \<and> length ps \<le> MAX_ARRAY_SIZE \<and> 1 \<le> w \<and> w \<le> length ps \<and>
    alloc_ok al"
  then have "analyzeSlidingWindow al (Some ps) w True =
      Some (0, Stored (analyze_spec (map fin ps) w))"
    by (intro analyze_ok) simp_all
  moreover have "\<forall>i<length ps - w + 1.
      r_windows (analyze_spec (map fin ps) w) ! i = window_stats (map fin ps) w i"
    using analyze_spec_nth[of _ "map fin ps" w] by simp
  ultimately show "\<exists>r. analyzeSlidingWindow al (Some ps) w True = Some (0, Stored r) \<and>
           r_num_windows r = length ps - w + 1 \<and> length (r_windows r) = length ps - w + 1 \<and>
           r_window_size r = w \<and>
           (\<forall>i<length ps - w + 1. r_windows r ! i = window_stats (map fin ps) w i)"
    by (simp add: analyze_spec_def del: upt_Suc)
next
  assume "w = 0 \<or> length ps < w"
  then show "analyzeSlidingWindow al (Some ps) w True = Some (- 2, Untouched)"
    by (auto simp: analyzeSlidingWindow_def)
qed

theorem analyzeSlidingWindow_count_witness:
  "(\<exists>r. analyzeSlidingWindow [] (Some [Finite 1, Finite 2, Finite 3]) 2 True = Some (0, Stored r) \<and>
        r_num_windows r = 2 \<and> length (r_windows r) = 2) \<and>
   analyzeSlidingWindow [] (Some [Finite 1, Finite 2, Finite 3]) 0 True = Some (- 2, Untouched) \<and>
   analyzeSlidingWindow [] (Some [Finite 1, Finite 2, Finite 3]) 4 True = Some (- 2, Untouched)"
  using analyzeSlidingWindow_count[of "[Finite 1, Finite 2, Finite 3]" 2 "[]"]
    analyzeSlidingWindow_count[of "[Finite 1, Finite 2, Finite 3]" 0 "[]"]
    analyzeSlidingWindow_count[of "[Finite 1, Finite 2, Finite 3]" 4 "[]"]
  by (auto simp: MAX_ARRAY_SIZE_def alloc_ok_def)

lemma classify_spec_pattern:
  assumes "0 < f"
  shows "classify (Finite f) (Finite l) v m = spec_pattern (Finite f) (Finite l) v m"
  unfolding classify_def spec_pattern_def Let_def change_abs[OF assms] by simp

lemma dgt_irrefl: "\<not> dgt a a"
  by (cases a) (simp_all add: dgt_def)

text \<open>
  Claim C4, amended. \<open>classifyPattern\<close> writes the label given by this rule, in the
  arithmetic of doubles: with \<open>changePct = |(last - first) / first|\<close>, the absolute value of
  the quotient, the pattern is bullish if \<open>changePct > 0.05\<close> and \<open>last > first\<close>, bearish if
  \<open>changePct > 0.05\<close> and \<open>last < first\<close>; otherwise, with \<open>cv = sqrt(variance) / |mean|\<close>, it
  is volatile if \<open>cv > 0.1\<close> and stable if not. The comparisons are strict, so a change
  of exactly \<open>0.05\<close> and a coefficient of exactly \<open>0.1\<close> (the doubles nearest to these
  numbers) fall to the else branch. For every window, first and last are the prices at
  its start and end, mean is the stored mean and variance the variance that the
  analysis computed from its running sums. For a positive first price the change is
  \<open>|last - first| / first\<close>, as the specification words it.
\<close>

theorem window_pattern_rule:
  "(length pat = 32 \<longrightarrow>
      classifyPattern first_p last_p variance mean pat 32 =
        Some (pattern_buf
          (if dgt (dfabs (ddiv (dsub last_p first_p) first_p)) (rnd (5 / 100)) \<and>
              dgt last_p first_p then ''bullish''
           else if dgt (dfabs (ddiv (dsub last_p first_p) first_p)) (rnd (5 / 100)) \<and>
                   dlt last_p first_p then ''bearish''
           else if dgt (ddiv (dsqrt variance) (dfabs mean)) (rnd (1 / 10)) then ''volatile''
           else ''stable''))) \<and>
   (analyzeSlidingWindow al (Some ps) w out = Some (0, Stored r) \<and> i < r_num_windows r \<longrightarrow>
      (let first = ps ! i; last = ps ! (i + w - 1);
           avg = w_avg (r_windows r ! i);
           var = dsub (ddiv (win_sum_sq (map fin ps) w i) (d_of_nat w)) (dmul avg avg);
           changePct = dfabs (ddiv (dsub last first) first);
           cv = ddiv (dsqrt var) (dfabs avg);
           label = c_str (w_pattern (r_windows r ! i))
       in avg = ddiv (win_sum (map fin ps) w i) (d_of_nat w) \<and>
          label =
            (if dgt changePct (rnd (5 / 100)) \<and> dgt last first then ''bullish''
             else if dgt changePct (rnd (5 / 100)) \<and> dlt last first then ''bearish''
             else if dgt cv (rnd (1 / 10)) then ''volatile'' else ''stable'') \<and>
          (changePct = rnd (5 / 100) \<longrightarrow>
             label = (if dgt cv (rnd (1 / 10)) then ''volatile'' else ''stable'')) \<and>
          (\<not> dgt changePct (rnd (5 / 100)) \<and> cv = rnd (1 / 10) \<longrightarrow> label = ''stable'') \<and>
          (dlt (Finite 0) first \<longrightarrow> label = spec_pattern first last var avg)))"
proof (intro conjI impI)
  assume "length pat = 32"
  then show "classifyPattern first_p last_p variance mean pat 32 =
        Some (pattern_buf
          (if dgt (dfabs (ddiv (dsub last_p first_p) first_p)) (rnd (5 / 100)) \<and>
              dgt last_p first_p then ''bullish''
           else if dgt (dfabs (ddiv (dsub last_p first_p) first_p)) (rnd (5 / 100)) \<and>
                   dlt last_p first_p then ''bearish''
           else if dgt (ddiv (dsqrt variance) (dfabs mean)) (rnd (1 / 10)) then ''volatile''
           else ''stable''))"
    unfolding lit_0_05 lit_0_1 using classifyPattern_buf[of pat first_p last_p variance mean]
    by (simp add: classify_def Let_def)
next
  assume a: "analyzeSlidingWindow al (Some ps) w out = Some (0, Stored r) \<and> i < r_num_windows r"
  let ?ps = "map fin ps"
  note W = window_record[of al ps w out r i]
  have w: "0 < w" "i + w \<le> length ps" "validate_prices ps"
    and rec: "r_windows r ! i = window_stats ?ps w i"
    using W a by simp_all
  have f: "ps ! i = Finite (?ps ! i)" using validated_nth[OF w(3), of i] w(1,2) by simp
  have l: "ps ! (i + w - 1) = Finite (?ps ! (i + w - 1))"
    using validated_nth[OF w(3), of "i + w - 1"] w(1,2) by simp
  have avg: "w_avg (r_windows r ! i) = win_avg ?ps w i"
    unfolding rec by (rule window_stats_fields)
  have var: "dsub (ddiv (win_sum_sq ?ps w i) (d_of_nat w)) (dmul (win_avg ?ps w i) (win_avg ?ps w i))
      = win_variance ?ps w i"
    by (simp add: win_variance_def)
  have lab: "c_str (w_pattern (r_windows r ! i)) =
      classify (ps ! i) (ps ! (i + w - 1)) (win_variance ?ps w i) (win_avg ?ps w i)"
    unfolding rec window_stats_fields f[symmetric] l[symmetric]
    using c_str_pattern_buf[OF classify_labels] .
  have spec: "classify (ps ! i) (ps ! (i + w - 1)) v m = spec_pattern (ps ! i) (ps ! (i + w - 1)) v m"
    if "dlt (Finite 0) (ps ! i)" for v m
  proof -
    have "0 < ?ps ! i" using that unfolding f by simp
    from classify_spec_pattern[OF this, of "?ps ! (i + w - 1)" v m]
    show ?thesis unfolding f[symmetric] l[symmetric] .
  qed
  show "let first = ps ! i; last = ps ! (i + w - 1);
           avg = w_avg (r_windows r ! i);
           var = dsub (ddiv (win_sum_sq (map fin ps) w i) (d_of_nat w)) (dmul avg avg);
           changePct = dfabs (ddiv (dsub last first) first);
           cv = ddiv (dsqrt var) (dfabs avg);
           label = c_str (w_pattern (r_windows r ! i))
       in avg = ddiv (win_sum (map fin ps) w i) (d_of_nat w) \<and>
          label =
            (if dgt changePct (rnd (5 / 100)) \<and> dgt last first then ''bullish''
             else if dgt changePct (rnd (5 / 100)) \<and> dlt last first then ''bearish''
             else if dgt cv (rnd (1 / 10)) then ''volatile'' else ''stable'') \<and>
          (changePct = rnd (5 / 100) \<longrightarrow>
             label = (if dgt cv (rnd (1 / 10)) then ''volatile'' else ''stable'')) \<and>
          (\<not> dgt changePct (rnd (5 / 100)) \<and> cv = rnd (1 / 10) \<longrightarrow> label = ''stable'') \<and>
          (dlt (Finite 0) first \<longrightarrow> label = spec_pattern first last var avg)"
    unfolding Let_def avg var lab lit_0_05 lit_0_1
    using spec by (auto simp: classify_def Let_def win_avg_def dgt_irrefl)
qed

subsection \<open>Evaluation at concrete prices\<close>

lemma rnd_neg_numeral: "numeral k < (2::int) ^ 53 \<Longrightarrow> rnd (- numeral k) = Finite (- numeral k)"
  using rnd_int[of "- numeral k"] by simp

lemma rnd_m1: "rnd (- 1) = Finite (- 1)"
  using rnd_int[of "- 1"] by simp

lemma sqrt_25_4: "sqrt (25 / 4) = 5 / 2"
proof -
  have "sqrt ((5 / 2)\<^sup>2) = 5 / 2" by (simp del: power_divide)
  then show ?thesis by (simp add: power2_eq_square)
qed

lemma sqrt_25: "sqrt 25 = 5"
proof -
  have "sqrt (5\<^sup>2) = 5" by simp
  then show ?thesis by simp
qed

lemma prefix_sum_numeral:
  "prefix_sum ps (numeral k) =
     dadd (prefix_sum ps (pred_numeral k)) (Finite (ps ! pred_numeral k))"
  "prefix_sum_sq ps (numeral k) =
     dadd (prefix_sum_sq ps (pred_numeral k))
          (dmul (Finite (ps ! pred_numeral k)) (Finite (ps ! pred_numeral k)))"
  by (simp_all add: numeral_eq_Suc)

lemma win_sum_numeral:
  "win_sum ps w (numeral k) =
     dadd (dsub (win_sum ps w (pred_numeral k)) (Finite (ps ! pred_numeral k)))
          (Finite (ps ! (pred_numeral k + w)))"
  "win_sum_sq ps w (numeral k) =
     dadd (dsub (win_sum_sq ps w (pred_numeral k))
             (dmul (Finite (ps ! pred_numeral k)) (Finite (ps ! pred_numeral k))))
          (dmul (Finite (ps ! (pred_numeral k + w))) (Finite (ps ! (pred_numeral k + w))))"
  by (simp_all add: numeral_eq_Suc)

lemmas win_eval = win_avg_def win_variance_def d_of_nat_def dsub_def prefix_sum_numeral
  win_sum_numeral rnd_numeral rnd_neg_numeral

lemmas classify_eval = classify_def Let_def dsub_def dgt_def lit_0_05_def lit_0_1_def
  rnd_numeral rnd_neg_numeral rnd_m1

lemma rnd_21025_2: "rnd (21025 / 2) = Finite (21025 / 2)"
proof -
  have "rnd (21025 / 2) = Finite (of_int 5779307993497600 * pow2 (13 - 52))"
    by (rule rnd_eval) (simp_all add: pow2_def round_even_def)
  then show ?thesis by (simp add: pow2_def)
qed

lemma rnd_205_2: "rnd (205 / 2) = Finite (205 / 2)"
proof -
  have "rnd (205 / 2) = Finite (of_int 7212796278210560 * pow2 (6 - 52))"
    by (rule rnd_eval) (simp_all add: pow2_def round_even_def)
  then show ?thesis by (simp add: pow2_def)
qed

lemma rnd_42025_4: "rnd (42025 / 4) = Finite (42025 / 4)"
proof -
  have "rnd (42025 / 4) = Finite (of_int 5775872019660800 * pow2 (13 - 52))"
    by (rule rnd_eval) (simp_all add: pow2_def round_even_def)
  then show ?thesis by (simp add: pow2_def)
qed

lemma rnd_25_4: "rnd (25 / 4) = Finite (25 / 4)"
proof -
  have "rnd (25 / 4) = Finite (of_int 7036874417766400 * pow2 (2 - 52))"
    by (rule rnd_eval) (simp_all add: pow2_def round_even_def)
  then show ?thesis by (simp add: pow2_def)
qed

lemma rnd_5_2: "rnd (5 / 2) = Finite (5 / 2)"
proof -
  have "rnd (5 / 2) = Finite (of_int 5629499534213120 * pow2 (1 - 52))"
    by (rule rnd_eval) (simp_all add: pow2_def round_even_def)
  then show ?thesis by (simp add: pow2_def)
qed

lemma rnd_1_41: "rnd (1 / 41) = Finite (3515004587215997 / 144115188075855872)"
proof -
  have "rnd (1 / 41) = Finite (of_int 7030009174431994 * pow2 ((- 6) - 52))"
    by (rule rnd_eval) (simp_all add: pow2_def round_even_def)
  then show ?thesis by (simp add: pow2_def)
qed

lemma rnd_1_19: "rnd (1 / 19) = Finite (948126237341157 / 18014398509481984)"
proof -
  have "rnd (1 / 19) = Finite (of_int 7585009898729256 * pow2 ((- 5) - 52))"
    by (rule rnd_eval) (simp_all add: pow2_def round_even_def)
  then show ?thesis by (simp add: pow2_def)
qed

lemma rnd_m1_10: "rnd (- (1 / 10)) = Finite (- (3602879701896397 / 36028797018963968))"
proof -
  have "rnd (- (1 / 10)) = Finite (of_int (- 7205759403792794) * pow2 ((- 4) - 52))"
    by (rule rnd_eval) (simp_all add: pow2_def round_even_def)
  then show ?thesis by (simp add: pow2_def)
qed



lemma rnd_1e17_3: "rnd (100000000000000000 / 3) = Finite (33333333333333332)"
proof -
  have "rnd (100000000000000000 / 3) = Finite (of_int 8333333333333333 * pow2 (54 - 52))"
    by (rule rnd_eval) (simp_all add: pow2_def round_even_def)
  then show ?thesis by (simp add: pow2_def)
qed


lemma rnd_2_3: "rnd (2 / 3) = Finite (6004799503160661 / 9007199254740992)"
proof -
  have "rnd (2 / 3) = Finite (of_int 6004799503160661 * pow2 ((- 1) - 52))"
    by (rule rnd_eval) (simp_all add: pow2_def round_even_def)
  then show ?thesis by (simp add: pow2_def)
qed





lemma analyze_spec_1: "length ps = w \<Longrightarrow> analyze_spec ps w =
    \<lparr>r_windows = [window_stats ps w 0], r_num_windows = 1, r_window_size = w\<rparr>"
  by (simp add: analyze_spec_def)

lemma window_stats_eq:
  assumes "Max (set (slice ps i (i + w - 1))) = mx" "Min (set (slice ps i (i + w - 1))) = mn"
    and "win_avg ps w i = avg"
    and "classify (Finite (ps ! i)) (Finite (ps ! (i + w - 1))) (win_variance ps w i) avg = lbl"
  shows "window_stats ps w i = \<lparr>w_max = Finite mx, w_min = Finite mn, w_avg = avg,
           w_pattern = pattern_buf lbl\<rparr>"
  using assms by (simp add: window_stats_def Let_def)

lemma edge_avg: "win_avg [100, 105] 2 0 = Finite (205 / 2)"
  by (simp add: win_eval rnd_205_2)

lemma edge_change: "dfabs (ddiv (dsub (Finite 105) (Finite 100)) (Finite 100)) = rnd (5 / 100)"
  by (simp add: dsub_def rnd_numeral rnd_nonneg)

lemma up_change: "dgt (dfabs (ddiv (dsub (Finite 110) (Finite 100)) (Finite 100))) (rnd (5 / 100))"
  unfolding lit_0_05 by (simp add: dsub_def rnd_numeral lit_0_1[simplified] lit_0_1_def lit_0_05_def dgt_def)

theorem window_pattern_rule_witness:
  "\<exists>r. analyzeSlidingWindow [] (Some [Finite 100, Finite 105]) 2 True = Some (0, Stored r) \<and>
       w_avg (r_windows r ! 0) = Finite (205 / 2) \<and>
       dfabs (ddiv (dsub (Finite 105) (Finite 100)) (Finite 100)) = rnd (5 / 100) \<and>
       c_str (w_pattern (r_windows r ! 0)) = ''stable'' \<and>
       classifyPattern (Finite 100) (Finite 110) (Finite 25) (Finite 105) (replicate 32 NUL) 32 =
         Some (pattern_buf ''bullish'')"
proof -
  let ?ps = "[Finite 100, Finite 105]"
  let ?R = "analyze_spec (map fin ?ps) 2"
  have a: "analyzeSlidingWindow [] (Some ?ps) 2 True = Some (0, Stored ?R)"
    by (intro analyze_ok) (simp_all add: MAX_ARRAY_SIZE_def alloc_ok_def)
  have n: "0 < r_num_windows ?R" by (simp add: analyze_spec_def)
  have avg: "w_avg (r_windows ?R ! 0) = Finite (205 / 2)"
    by (simp add: analyze_spec_1 window_stats_fields edge_avg)
  note T = window_pattern_rule[of "replicate 32 NUL" "Finite 100" "Finite 110" "Finite 25"
      "Finite 105" "[]" ?ps 2 True ?R 0, unfolded Let_def]
  have l: "length (replicate 32 NUL) = 32" by simp
  have up: "classifyPattern (Finite 100) (Finite 110) (Finite 25) (Finite 105) (replicate 32 NUL) 32 =
      Some (pattern_buf ''bullish'')"
    using T l up_change by (simp add: dgt_def)
  have "dfabs (ddiv (dsub (?ps ! (0 + 2 - 1)) (?ps ! 0)) (?ps ! 0)) = rnd (5 / 100) \<longrightarrow>
      c_str (w_pattern (r_windows ?R ! 0)) =
        (if dgt (ddiv (dsqrt (dsub (ddiv (win_sum_sq (map fin ?ps) 2 0) (d_of_nat 2))
                                 (dmul (w_avg (r_windows ?R ! 0)) (w_avg (r_windows ?R ! 0)))))
                      (dfabs (w_avg (r_windows ?R ! 0)))) (rnd (1 / 10))
         then ''volatile'' else ''stable'')"
    using T a n by blast
  then have "c_str (w_pattern (r_windows ?R ! 0)) = ''stable''"
    unfolding avg using edge_change
    by (simp add: win_eval rnd_21025_2 rnd_42025_4 rnd_25_4 sqrt_25_4 rnd_5_2 rnd_1_41
        lit_0_1[simplified] lit_0_1_def dgt_def)
  then show ?thesis using a avg edge_change up by blast
qed

lemma neg_avg: "win_avg [- 100, - 90] 2 0 = Finite (- 95)"
  by (simp add: win_eval)

lemma neg_var: "win_variance [- 100, - 90] 2 0 = Finite 25"
  by (simp add: win_eval)

lemma neg_classify: "classify (Finite (- 100)) (Finite (- 90)) v m = ''bullish''"
  by (simp add: classify_eval rnd_m1_10)

lemma neg_spec: "spec_pattern (Finite (- 100)) (Finite (- 90)) (Finite 25) (Finite (- 95)) = ''stable''"
  by (simp add: spec_pattern_def classify_eval rnd_m1_10 sqrt_25 rnd_1_19)

text \<open>
  Claim C4 as stated fails where the first price of a window is negative: for the
  prices -100, -90 and the window size 2 the stored pattern is bullish, while the rule
  with \<open>changePct = |last - first| / first\<close> gives a negative change and, the variance
  being 25 and the mean -95, the pattern stable.
\<close>

theorem window_pattern_counterexample:
  "analyzeSlidingWindow [] (Some [Finite (- 100), Finite (- 90)]) 2 True =
     Some (0, Stored \<lparr>r_windows = [\<lparr>w_max = Finite (- 90), w_min = Finite (- 100),
                                    w_avg = Finite (- 95), w_pattern = pattern_buf ''bullish''\<rparr>],
                      r_num_windows = 1, r_window_size = 2\<rparr>) \<and>
   win_variance [- 100, - 90] 2 0 = Finite 25 \<and>
   spec_pattern (Finite (- 100)) (Finite (- 90)) (Finite 25) (Finite (- 95)) = ''stable''"
proof -
  let ?ps = "[Finite (- 100), Finite (- 90)]"
  have a: "analyzeSlidingWindow [] (Some ?ps) 2 True =
      Some (0, Stored (analyze_spec (map fin ?ps) 2))"
    by (intro analyze_ok) (simp_all add: MAX_ARRAY_SIZE_def alloc_ok_def)
  have w: "window_stats [- 100, - 90] 2 0 =
      \<lparr>w_max = Finite (- 90), w_min = Finite (- 100), w_avg = Finite (- 95),
       w_pattern = pattern_buf ''bullish''\<rparr>"
    by (rule window_stats_eq) (simp_all add: slice_def neg_avg neg_classify)
  show ?thesis using a neg_var neg_spec by (simp add: analyze_spec_1 w)
qed

lemma analyze_spec_2: "length ps = Suc w \<Longrightarrow> analyze_spec ps w =
    \<lparr>r_windows = [window_stats ps w 0, window_stats ps w 1], r_num_windows = 2,
     r_window_size = w\<rparr>"
  by (simp add: analyze_spec_def)


lemma lost_avg0: "win_avg [100000000000000000, 1, 1, 2] 3 0 = Finite 33333333333333332"
  by (simp add: win_eval rnd_1e17 rnd_1e17_p1 rnd_1e17_3)

lemma lost_avg1:
  "win_avg [100000000000000000, 1, 1, 2] 3 (Suc 0) = Finite (6004799503160661 / 9007199254740992)"
  by (simp add: win_eval rnd_1e17 rnd_1e17_p1 rnd_2_3)

lemma lost_classify0: "classify (Finite 100000000000000000) (Finite 1) v m = ''bearish''"
  by (simp add: classify_eval rnd_1e17_m)

lemma lost_classify1: "classify (Finite 1) (Finite 2) v m = ''bullish''"
  by (simp add: classify_eval)

text \<open>
  Claim C3 at the prices \<open>10\<^sup>1\<^sup>7, 1, 1, 2\<close> with window size 3. The running sum of window 0
  is \<open>10\<^sup>1\<^sup>7\<close>, both prices 1 being lost to rounding; after the slide it is
  \<open>10\<^sup>1\<^sup>7 - 10\<^sup>1\<^sup>7 + 2 = 2\<close>. The record stored for window 1, whose prices are 1, 1, 2, has
  min 1, max 2 and the mean \<open>2 / 3\<close> rounded, which is below its min; the mean of a direct
  scan of the window is \<open>4 / 3\<close>.
\<close>

theorem window_ordering_failure:
  "analyzeSlidingWindow [] (Some [Finite 100000000000000000, Finite 1, Finite 1, Finite 2]) 3 True =
     Some (0, Stored \<lparr>r_windows =
                        [\<lparr>w_max = Finite 100000000000000000, w_min = Finite 1,
                          w_avg = Finite 33333333333333332, w_pattern = pattern_buf ''bearish''\<rparr>,
                         \<lparr>w_max = Finite 2, w_min = Finite 1,
                          w_avg = Finite (6004799503160661 / 9007199254740992),
                          w_pattern = pattern_buf ''bullish''\<rparr>],
                      r_num_windows = 2, r_window_size = 3\<rparr>) \<and>
   dlt (Finite (6004799503160661 / 9007199254740992)) (Finite 1) \<and>
   scan_avg (slice [100000000000000000, 1, 1, 2] 1 3) = 4 / 3"
proof -
  let ?ps = "[Finite 100000000000000000, Finite 1, Finite 1, Finite 2]"
  have a: "analyzeSlidingWindow [] (Some ?ps) 3 True =
      Some (0, Stored (analyze_spec (map fin ?ps) 3))"
    by (intro analyze_ok) (simp_all add: MAX_ARRAY_SIZE_def alloc_ok_def)
  have w0: "window_stats [100000000000000000, 1, 1, 2] 3 0 =
      \<lparr>w_max = Finite 100000000000000000, w_min = Finite 1,
       w_avg = Finite 33333333333333332, w_pattern = pattern_buf ''bearish''\<rparr>"
    by (rule window_stats_eq) (simp_all add: slice_def lost_avg0 lost_classify0)
  have w1: "window_stats [100000000000000000, 1, 1, 2] 3 (Suc 0) =
      \<lparr>w_max = Finite 2, w_min = Finite 1,
       w_avg = Finite (6004799503160661 / 9007199254740992),
       w_pattern = pattern_buf ''bullish''\<rparr>"
    by (rule window_stats_eq) (simp_all add: slice_def lost_avg1 lost_classify1)
  have s: "scan_avg (slice [100000000000000000, 1, 1, 2] 1 3) = 4 / 3"
    by (simp add: scan_avg_def slice_def)
  show ?thesis using a s by (simp add: analyze_spec_2 w0 w1)
qed

lemma isnan_rnd [simp]: "\<not> isnan (rnd x)"
  by (cases "rnd x") simp_all











lemma store_frame: "p \<noteq> Some a \<Longrightarrow> store p v mem a = mem a"
  by (cases p) (auto simp: store_def)

lemma copy_pattern:
  assumes "buf \<noteq> []" "length buf < 2 ^ 64"
  shows "\<exists>b1. strncpy buf pat (size_sub (length buf) 1) = Some b1 \<and>
           wr b1 (size_sub (length buf) 1) NUL =
             Some (take (length buf - 1) (c_str pat @ replicate (length buf - 1) NUL) @ [NUL])"
proof -
  let ?n = "length buf - 1"
  have n: "size_sub (length buf) 1 = ?n" using assms by (intro size_sub_le) (cases buf; simp)+
  have len: "length buf = Suc ?n" using assms(1) by (cases buf) simp_all
  let ?A = "take ?n (c_str pat @ replicate ?n NUL)"
  have lenA: "length ?A = ?n" by simp
  obtain c where B: "drop ?n buf = [c]"
    using len by (cases "drop ?n buf") (auto simp: drop_eq_Nil dest: arg_cong[of _ _ length])
  have s: "strncpy buf pat ?n = Some (?A @ [c])"
    unfolding strncpy_def B using len by simp
  have "(?A @ [c])[?n := NUL] = ?A @ [NUL]"
    using lenA by (metis length_list_update list_update_length)
  then have "wr (?A @ [c]) ?n NUL = Some (?A @ [NUL])" using lenA by (simp add: wr_def)
  then show ?thesis unfolding n using s by blast
qed

lemma getWindowResult_ok:
  assumes "idx < r_num_windows r" "length (r_windows r) = r_num_windows r"
    and "\<forall>buf. out_pattern = Some buf \<longrightarrow> length buf < 2 ^ 64"
  shows "getWindowResult (Some r) idx out_max out_min out_avg out_pattern mem =
           Some (0,
                 store out_avg (w_avg (r_windows r ! idx))
                   (store out_min (w_min (r_windows r ! idx))
                      (store out_max (w_max (r_windows r ! idx)) mem)),
                 map_option
                   (\<lambda>buf. if buf = [] then []
                          else take (length buf - 1)
                                 (c_str (w_pattern (r_windows r ! idx)) @
                                  replicate (length buf - 1) NUL) @ [NUL])
                   out_pattern)"
proof (cases out_pattern)
  case None
  then show ?thesis using assms(1,2) by (simp add: getWindowResult_def)
next
  case (Some buf)
  show ?thesis
  proof (cases "buf = []")
    case True
    then show ?thesis using assms(1,2) Some by (simp add: getWindowResult_def)
  next
    case False
    have "length buf < 2 ^ 64" using assms(3) Some by simp
    from copy_pattern[OF False this, of "w_pattern (r_windows r ! idx)"]
    obtain b1 where C: "strncpy buf (w_pattern (r_windows r ! idx)) (size_sub (length buf) 1) = Some b1"
      "wr b1 (size_sub (length buf) 1) NUL =
         Some (take (length buf - 1) (c_str (w_pattern (r_windows r ! idx)) @
                 replicate (length buf - 1) NUL) @ [NUL])"
      by blast
    have rd: "rd (r_windows r) idx = Some (r_windows r ! idx)" using assms(1,2) by simp
    have not: "\<not> r_num_windows r \<le> idx" using assms(1) by simp
    have pos: "length buf > 0" using False by simp
    show ?thesis
      unfolding getWindowResult_def Some option.case rd bind.bind_lunit Let_def
      by (simp only: not pos if_True C bind.bind_lunit option.map False if_False)
  qed
qed

lemma analyze_spec_length: "length (r_windows (analyze_spec ps w)) = r_num_windows (analyze_spec ps w)"
  by (simp add: analyze_spec_def del: upt_Suc)

text \<open>
  Claim C9. \<open>querySegmentTree\<close> and \<open>getWindowResult\<close> accept NULL for each of their
  output pointers. On success they return 0 and the memory after the call is the memory
  before it with the computed statistic stored at every non-NULL pointer and nothing
  else changed; the statistics are those of the range (the extrema of the range, and a
  mean and a variance that depend on the tree and the range only) or of the window,
  whichever pointers are supplied. The pattern buffer of \<open>getWindowResult\<close> is left alone
  when it is NULL or of length 0, and otherwise receives the label, cut to the buffer's
  length and ended by NUL.
\<close>

theorem output_pointers_frame:
  "(buildSegmentTree al (Some ps) out = Some (0, Stored t) \<and> ql \<le> qr \<and> qr < length ps \<longrightarrow>
      (\<exists>avg var. \<forall>out_min out_max out_avg out_variance mem0.
         \<exists>mem'. querySegmentTree (Some t) ql qr out_min out_max out_avg out_variance mem0 =
                  Some (0, mem') \<and>
           mem' = store out_variance var
                    (store out_avg avg
                       (store out_max (Finite (scan_max (slice (map fin ps) ql qr)))
                          (store out_min (Finite (scan_min (slice (map fin ps) ql qr))) mem0))) \<and>
           (\<forall>a. Some a \<notin> {out_min, out_max, out_avg, out_variance} \<longrightarrow> mem' a = mem0 a))) \<and>
   (analyzeSlidingWindow al' (Some ps') w out' = Some (0, Stored r) \<and> idx < r_num_windows r \<and>
    (\<forall>buf. out_pattern = Some buf \<longrightarrow> length buf < 2 ^ 64) \<longrightarrow>
      (\<exists>mem' pat'. getWindowResult (Some r) idx out_wmax out_wmin out_wavg out_pattern mem =
                      Some (0, mem', pat') \<and>
         mem' = store out_wavg (w_avg (r_windows r ! idx))
                  (store out_wmin (w_min (r_windows r ! idx))
                     (store out_wmax (w_max (r_windows r ! idx)) mem)) \<and>
         (\<forall>a. Some a \<notin> {out_wmax, out_wmin, out_wavg} \<longrightarrow> mem' a = mem a) \<and>
         pat' = map_option
                  (\<lambda>buf. if buf = [] then []
                         else take (length buf - 1)
                                (c_str (w_pattern (r_windows r ! idx)) @
                                 replicate (length buf - 1) NUL) @ [NUL])
                  out_pattern))"
proof (intro conjI impI)
  assume a: "buildSegmentTree al (Some ps) out = Some (0, Stored t) \<and> ql \<le> qr \<and> qr < length ps"
  have lay: "tree_layout (map fin ps) t" "length (map fin ps) \<le> MAX_ARRAY_SIZE"
    using build_Stored[of al "Some ps" out 0 t] a by auto
  have q: "ql \<le> qr" "qr < length (map fin ps)" using a by simp_all
  obtain res where Q: "\<And>out_min out_max out_avg out_variance mem0.
      querySegmentTree (Some t) ql qr out_min out_max out_avg out_variance mem0 =
        Some (0, store out_variance (node_variance res)
                   (store out_avg (node_avg res)
                      (store out_max (Finite (scan_max (slice (map fin ps) ql qr)))
                         (store out_min (Finite (scan_min (slice (map fin ps) ql qr))) mem0))))"
    using querySegmentTree_ok[OF lay q] by blast
  have "\<forall>out_min out_max out_avg out_variance mem0.
         \<exists>mem'. querySegmentTree (Some t) ql qr out_min out_max out_avg out_variance mem0 =
                  Some (0, mem') \<and>
           mem' = store out_variance (node_variance res)
                    (store out_avg (node_avg res)
                       (store out_max (Finite (scan_max (slice (map fin ps) ql qr)))
                          (store out_min (Finite (scan_min (slice (map fin ps) ql qr))) mem0))) \<and>
           (\<forall>a. Some a \<notin> {out_min, out_max, out_avg, out_variance} \<longrightarrow> mem' a = mem0 a)"
    unfolding Q by (auto simp: store_frame)
  then show "\<exists>avg var. \<forall>out_min out_max out_avg out_variance mem0.
         \<exists>mem'. querySegmentTree (Some t) ql qr out_min out_max out_avg out_variance mem0 =
                  Some (0, mem') \<and>
           mem' = store out_variance var
                    (store out_avg avg
                       (store out_max (Finite (scan_max (slice (map fin ps) ql qr)))
                          (store out_min (Finite (scan_min (slice (map fin ps) ql qr))) mem0))) \<and>
           (\<forall>a. Some a \<notin> {out_min, out_max, out_avg, out_variance} \<longrightarrow> mem' a = mem0 a)"
    by blast
next
  assume a: "analyzeSlidingWindow al' (Some ps') w out' = Some (0, Stored r) \<and>
    idx < r_num_windows r \<and> (\<forall>buf. out_pattern = Some buf \<longrightarrow> length buf < 2 ^ 64)"
  have r: "r = analyze_spec (map fin ps') w" using analyze_Stored[of al' "Some ps'" w out' 0 r] a by auto
  have len: "length (r_windows r) = r_num_windows r" unfolding r by (rule analyze_spec_length)
  note G = getWindowResult_ok[OF _ len, of idx out_pattern out_wmax out_wmin out_wavg mem]
  show "\<exists>mem' pat'. getWindowResult (Some r) idx out_wmax out_wmin out_wavg out_pattern mem =
                      Some (0, mem', pat') \<and>
         mem' = store out_wavg (w_avg (r_windows r ! idx))
                  (store out_wmin (w_min (r_windows r ! idx))
                     (store out_wmax (w_max (r_windows r ! idx)) mem)) \<and>
         (\<forall>a. Some a \<notin> {out_wmax, out_wmin, out_wavg} \<longrightarrow> mem' a = mem a) \<and>
         pat' = map_option
                  (\<lambda>buf. if buf = [] then []
                         else take (length buf - 1)
                                (c_str (w_pattern (r_windows r ! idx)) @
                                 replicate (length buf - 1) NUL) @ [NUL])
                  out_pattern"
    using G a by (auto simp: store_frame)
qed

theorem output_pointers_frame_witness:
  "\<exists>t r. buildSegmentTree [] (Some [Finite 3, Finite 1, Finite 4]) True = Some (0, Stored t) \<and>
     querySegmentTree (Some t) 0 2 (Some 5) None None None (\<lambda>a. Finite 0) =
       Some (0, (\<lambda>a. Finite 0)(5 := Finite 1)) \<and>
     analyzeSlidingWindow [] (Some [Finite 100, Finite 110]) 2 True = Some (0, Stored r) \<and>
     getWindowResult (Some r) 0 None None (Some 7) None (\<lambda>a. Finite 0) =
       Some (0, (\<lambda>a. Finite 0)(7 := Finite 105), None)"
proof -
  let ?ps = "[Finite 3, Finite 1, Finite 4]" and ?qs = "[Finite 100, Finite 110]"
  let ?R = "analyze_spec (map fin ?qs) 2"
  obtain t where t: "buildSegmentTree [] (Some ?ps) True = Some (0, Stored t)"
    using build_ok[of ?ps "[]"] by (auto simp: MAX_ARRAY_SIZE_def alloc_ok_def)
  have a: "analyzeSlidingWindow [] (Some ?qs) 2 True = Some (0, Stored ?R)"
    by (intro analyze_ok) (simp_all add: MAX_ARRAY_SIZE_def alloc_ok_def)
  have n: "0 < r_num_windows ?R" by (simp add: analyze_spec_def)
  note T = output_pointers_frame[of "[]" ?ps True t 0 2 "[]" ?qs 2 True ?R 0 None None None
      "Some 7" "\<lambda>a. Finite 0"]
  have "buildSegmentTree [] (Some ?ps) True = Some (0, Stored t) \<and> (0::nat) \<le> 2 \<and> 2 < length ?ps"
    using t by simp
  with T have "\<exists>avg var. \<forall>out_min out_max out_avg out_variance mem0.
         \<exists>mem'. querySegmentTree (Some t) 0 2 out_min out_max out_avg out_variance mem0 =
                  Some (0, mem') \<and>
           mem' = store out_variance var
                    (store out_avg avg
                       (store out_max (Finite (scan_max (slice (map fin ?ps) 0 2)))
                          (store out_min (Finite (scan_min (slice (map fin ?ps) 0 2))) mem0))) \<and>
           (\<forall>a. Some a \<notin> {out_min, out_max, out_avg, out_variance} \<longrightarrow> mem' a = mem0 a)"
    by blast
  then obtain avg var where
    H: "\<And>out_min out_max out_avg out_variance mem0.
         \<exists>mem'. querySegmentTree (Some t) 0 2 out_min out_max out_avg out_variance mem0 =
                  Some (0, mem') \<and>
           mem' = store out_variance var
                    (store out_avg avg
                       (store out_max (Finite (scan_max (slice (map fin ?ps) 0 2)))
                          (store out_min (Finite (scan_min (slice (map fin ?ps) 0 2))) mem0))) \<and>
           (\<forall>a. Some a \<notin> {out_min, out_max, out_avg, out_variance} \<longrightarrow> mem' a = mem0 a)"
    by blast
  have q: "querySegmentTree (Some t) 0 2 (Some 5) None None None (\<lambda>a. Finite 0) =
      Some (0, (\<lambda>a. Finite 0)(5 := Finite (scan_min (slice (map fin ?ps) 0 2))))"
    using H[of "Some 5" None None None "\<lambda>a. Finite 0"] by (auto simp: store_def)
  have g: "getWindowResult (Some ?R) 0 None None (Some 7) None (\<lambda>a. Finite 0) =
      Some (0, (\<lambda>a. Finite 0)(7 := w_avg (r_windows ?R ! 0)), None)"
    using T a n by (auto simp: store_def)
  have e1: "scan_min (slice (map fin ?ps) 0 2) = 1" by (simp add: slice_def scan_min_def)
  have e2: "w_avg (r_windows ?R ! 0) = Finite 105"
    by (simp add: analyze_spec_1 window_stats_fields win_eval)
  show ?thesis using t a q g unfolding e1 e2 by blast
qed

section \<open>The deques of the sliding window analysis\<close>

lemma first_window_loop_split:
  assumes "i \<le> k" "k \<le> m"
  shows "first_window_loop ps m i st = first_window_loop ps k i st \<bind> first_window_loop ps m k"
  using assms
proof (induction "k - i" arbitrary: i st)
  case 0
  then have "i = k" by simp
  then show ?case by (subst (2) first_window_loop.simps) simp
next
  case (Suc n)
  have i: "i < k" "i < m" using Suc.hyps(2) Suc.prems(2) by simp_all
  have n: "n = k - Suc i" "Suc i \<le> k" using Suc.hyps(2) by simp_all
  note IH = Suc.hyps(1)[OF n Suc.prems(2)]
  show ?case
    apply (subst first_window_loop.simps)
    apply (subst (2) first_window_loop.simps)
    apply (simp only: i if_True Suc_eq_plus1[symmetric])
    apply (subst IH)
    apply (simp only: bind_assoc)
    done
qed

lemma slide_loop_split:
  assumes "i \<le> k" "k \<le> m"
  shows "slide_loop ps w m i st = slide_loop ps w k i st \<bind> slide_loop ps w m k"
  using assms
proof (induction "k - i" arbitrary: i st)
  case 0
  then have "i = k" by simp
  then show ?case by (subst (2) slide_loop.simps) simp
next
  case (Suc n)
  have i: "i < k" "i < m" using Suc.hyps(2) Suc.prems(2) by simp_all
  have n: "n = k - Suc i" "Suc i \<le> k" using Suc.hyps(2) by simp_all
  have IH: "slide_loop ps w m (i + 1) =
      (\<lambda>x. slide_loop ps w k (i + 1) x \<bind> slide_loop ps w m k)"
    using Suc.hyps(1)[OF n Suc.prems(2)] by (intro ext) simp
  have L: "slide_loop ps w m i st =
     (let out_idx = size_sub i 1;
          in_idx = size_sub (size_add i w) 1
      in do {
           pout \<leftarrow> rd ps out_idx;
           pin \<leftarrow> rd ps in_idx;
           max0 \<leftarrow> pop_front_while out_idx (s_max_dq st);
           min0 \<leftarrow> pop_front_while out_idx (s_min_dq st);
           max1 \<leftarrow> pop_back_while (\<le>) ps in_idx max0;
           max2 \<leftarrow> pushBack max1 in_idx;
           min1 \<leftarrow> pop_back_while (\<ge>) ps in_idx min0;
           min2 \<leftarrow> pushBack min1 in_idx;
           st' \<leftarrow> store_window ps w i in_idx
                   (st\<lparr>s_sum := dadd (dsub (s_sum st) (Finite pout)) (Finite pin),
                        s_sum_sq := dadd (dsub (s_sum_sq st) (dmul (Finite pout) (Finite pout)))
                                      (dmul (Finite pin) (Finite pin)),
                        s_max_dq := max2, s_min_dq := min2\<rparr>);
           slide_loop ps w m (i + 1) st'
         })"
    using i(2) by (subst slide_loop.simps) simp
  have R: "slide_loop ps w k i st =
     (let out_idx = size_sub i 1;
          in_idx = size_sub (size_add i w) 1
      in do {
           pout \<leftarrow> rd ps out_idx;
           pin \<leftarrow> rd ps in_idx;
           max0 \<leftarrow> pop_front_while out_idx (s_max_dq st);
           min0 \<leftarrow> pop_front_while out_idx (s_min_dq st);
           max1 \<leftarrow> pop_back_while (\<le>) ps in_idx max0;
           max2 \<leftarrow> pushBack max1 in_idx;
           min1 \<leftarrow> pop_back_while (\<ge>) ps in_idx min0;
           min2 \<leftarrow> pushBack min1 in_idx;
           st' \<leftarrow> store_window ps w i in_idx
                   (st\<lparr>s_sum := dadd (dsub (s_sum st) (Finite pout)) (Finite pin),
                        s_sum_sq := dadd (dsub (s_sum_sq st) (dmul (Finite pout) (Finite pout)))
                                      (dmul (Finite pin) (Finite pin)),
                        s_max_dq := max2, s_min_dq := min2\<rparr>);
           slide_loop ps w k (i + 1) st'
         })"
    using i(1) by (subst slide_loop.simps) simp
  show ?case unfolding L R Let_def IH by (simp only: bind_assoc)
qed

lemma drop_back_subset: "set (drop_back P L) \<subseteq> set L"
  using drop_back_split[of L P] by (metis Un_upper1 set_append)

lemma mono_deque_ok:
  assumes "dq_wf d" "d_capacity d = w + 1" "mono_inv key (dq_list d) lo hi" "hi - lo \<le> w"
  shows "deque_ok w lo hi d"
proof -
  have "dq_size d \<le> hi - lo" using mono_length[OF assms(3)] by simp
  moreover have "set (dq_list d) \<subseteq> {lo..<hi}" using assms(3) by (simp add: mono_inv_def)
  ultimately show ?thesis using assms(1,2,4) by (simp add: deque_ok_def dq_wf_def)
qed

lemma add_index:
  assumes "dq_wf d" "d_capacity d = w + 1" "mono_inv key (dq_list d) lo hi"
    and "hi < length ps" "lo \<le> hi" "hi - lo < w"
    and rel: "\<And>a b. rel (ps ! a) (ps ! b) \<longleftrightarrow> key a \<le> key b"
  shows "\<exists>d2. add_index_ok w lo hi rel ps d d2 \<and> dq_wf d2 \<and> d_capacity d2 = w + 1 \<and>
           mono_inv key (dq_list d2) lo (Suc hi)"
proof -
  have sub: "set (dq_list d) \<subseteq> {lo..<hi}" using assms(3) by (simp add: mono_inv_def)
  then have "\<forall>j\<in>set (dq_list d). j < length ps" using assms(4) by fastforce
  from pop_back_while_ok[OF assms(1) this assms(4), of rel]
  obtain d1 where d1: "pop_back_while rel ps hi d = Some d1" "dq_wf d1"
    "d_capacity d1 = d_capacity d"
    "dq_list d1 = drop_back (\<lambda>j. key j \<le> key hi) (dq_list d)"
    unfolding rel by blast
  have "dq_size d1 \<le> dq_size d"
    using drop_back_length[of "\<lambda>j. key j \<le> key hi" "dq_list d"] d1(4)
    by (metis dq_length)
  moreover have "dq_size d \<le> hi - lo" using mono_length[OF assms(3)] by simp
  ultimately have sz: "dq_size d1 \<le> dq_size d" "dq_size d1 < w" "dq_size d1 \<le> hi - lo"
    using assms(6) by simp_all
  have "set (dq_list d1) \<subseteq> {lo..<hi}"
    unfolding d1(4) using drop_back_subset[of "\<lambda>j. key j \<le> key hi" "dq_list d"] sub by blast
  then have ok1: "deque_ok w lo hi d1"
    using d1(2,3) assms(2,6) sz by (simp add: deque_ok_def dq_wf_def)
  have "Suc (dq_size d1) < d_capacity d1" using sz d1(3) assms(2) by simp
  from dq_pushBack_ok[OF d1(2) this, of hi]
  obtain d2 where d2: "pushBack d1 hi = Some d2" "dq_wf d2"
    "dq_list d2 = dq_list d1 @ [hi]" "d_capacity d2 = d_capacity d1"
    by blast
  have m2: "mono_inv key (dq_list d2) lo (Suc hi)"
    unfolding d2(3) d1(4) by (rule mono_push[OF assms(3,5)])
  have c2: "d_capacity d2 = w + 1" using d2(4) d1(3) assms(2) by simp
  have "Suc hi - lo \<le> w" using assms(5,6) by simp
  then have ok2: "deque_ok w lo (Suc hi) d2" using mono_deque_ok[OF d2(2) c2 m2] by simp
  have "add_index_ok w lo hi rel ps d d2"
    unfolding add_index_ok_def using d1(1) ok1 sz(1,2) d2(1,3) ok2 by blast
  then show ?thesis using d2(2) c2 m2 by blast
qed

lemma front_read:
  assumes "dq_wf d" "mono_inv key (dq_list d) lo hi" "lo < hi"
  shows "front_ok lo hi d"
proof -
  have f: "dq_list d \<noteq> []" "lo \<le> hd (dq_list d)" "hd (dq_list d) < hi"
    using mono_front[OF assms(2,3)] by simp_all
  have "front d = Some (hd (dq_list d))" using dq_front_ok[OF assms(1) f(1)] .
  moreover have "\<not> isEmptyDeque d" using dq_empty[OF assms(1)] f(1) by simp
  ultimately show ?thesis using f(2,3) by (simp add: front_ok_def)
qed

lemma first_window_step:
  assumes "sw_inv ps w 0 k st" "k < w" "w \<le> length ps"
  shows "\<exists>max2 min2.
           add_index_ok w 0 k (\<le>) ps (s_max_dq st) max2 \<and>
           add_index_ok w 0 k (\<ge>) ps (s_min_dq st) min2 \<and>
           first_window_loop ps (Suc k) k st =
             Some (st\<lparr>s_sum := dadd (s_sum st) (Finite (ps ! k)),
                       s_sum_sq := dadd (s_sum_sq st) (dmul (Finite (ps ! k)) (Finite (ps ! k))),
                       s_max_dq := max2, s_min_dq := min2\<rparr>) \<and>
           sw_inv ps w 0 (Suc k)
             (st\<lparr>s_sum := dadd (s_sum st) (Finite (ps ! k)),
                  s_sum_sq := dadd (s_sum_sq st) (dmul (Finite (ps ! k)) (Finite (ps ! k))),
                  s_max_dq := max2, s_min_dq := min2\<rparr>)"
proof -
  have k: "k < length ps" using assms(2,3) by simp
  note inv = assms(1)[unfolded sw_inv_def]
  obtain max2 where mx: "add_index_ok w 0 k (\<le>) ps (s_max_dq st) max2" "dq_wf max2"
    "d_capacity max2 = w + 1" "mono_inv (\<lambda>j. ps ! j) (dq_list max2) 0 (Suc k)"
    using add_index[of "s_max_dq st" w "\<lambda>j. ps ! j" 0 k ps "(\<le>)"] inv k assms(2) by auto
  obtain min2 where mn: "add_index_ok w 0 k (\<ge>) ps (s_min_dq st) min2" "dq_wf min2"
    "d_capacity min2 = w + 1" "mono_inv (\<lambda>j. - ps ! j) (dq_list min2) 0 (Suc k)"
    using add_index[of "s_min_dq st" w "\<lambda>j. - ps ! j" 0 k ps "(\<ge>)"] inv k assms(2) by auto
  obtain max1 where max1: "pop_back_while (\<le>) ps k (s_max_dq st) = Some max1"
    "pushBack max1 k = Some max2" using mx(1) unfolding add_index_ok_def by blast
  obtain min1 where min1: "pop_back_while (\<ge>) ps k (s_min_dq st) = Some min1"
    "pushBack min1 k = Some min2" using mn(1) unfolding add_index_ok_def by blast
  let ?st = "st\<lparr>s_sum := dadd (s_sum st) (Finite (ps ! k)),
                 s_sum_sq := dadd (s_sum_sq st) (dmul (Finite (ps ! k)) (Finite (ps ! k))),
                 s_max_dq := max2, s_min_dq := min2\<rparr>"
  have inv': "sw_inv ps w 0 (Suc k) ?st"
    using mx(2-4) mn(2-4) inv by (simp add: sw_inv_def)
  have e: "first_window_loop ps (Suc k) (Suc k) ?st = Some ?st"
    by (subst first_window_loop.simps) simp
  have "first_window_loop ps (Suc k) k st = Some ?st"
    using k max1 min1 e by (subst first_window_loop.simps) simp
  then show ?thesis using mx(1) mn(1) inv' by blast
qed

lemma first_window_prefix:
  assumes "sw_inv ps w 0 0 st0" "w \<le> length ps" "k \<le> w"
  shows "\<exists>st. first_window_loop ps k 0 st0 = Some st \<and> sw_inv ps w 0 k st \<and>
           s_windows st = s_windows st0"
  using assms(3)
proof (induction k)
  case 0
  show ?case using assms(1) by (subst first_window_loop.simps) simp
next
  case (Suc k)
  then obtain st where st: "first_window_loop ps k 0 st0 = Some st" "sw_inv ps w 0 k st"
    "s_windows st = s_windows st0" by auto
  have k: "k < w" using Suc.prems by simp
  from first_window_step[OF st(2) k assms(2)] obtain st' where
    st': "first_window_loop ps (Suc k) k st = Some st'" "sw_inv ps w 0 (Suc k) st'"
    "s_windows st' = s_windows st" by force
  have "first_window_loop ps (Suc k) 0 st0 = Some st'"
    using first_window_loop_split[of 0 k "Suc k" ps st0] st(1) st'(1) by simp
  then show ?case using st' st(3) by simp
qed

lemma slide_step:
  assumes "sw_inv ps w (i - 1) (i - 1 + w) st" "1 \<le> i" "0 < w" "i + w \<le> length ps"
    and "length ps < 2 ^ 62" "i < length (s_windows st)"
    and "length (w_pattern (s_windows st ! i)) = 32"
  shows "\<exists>max0 min0 max2 min2 st'.
           pop_front_while (i - 1) (s_max_dq st) = Some max0 \<and> deque_ok w i (i + w - 1) max0 \<and>
           pop_front_while (i - 1) (s_min_dq st) = Some min0 \<and> deque_ok w i (i + w - 1) min0 \<and>
           add_index_ok w i (i + w - 1) (\<le>) ps max0 max2 \<and>
           add_index_ok w i (i + w - 1) (\<ge>) ps min0 min2 \<and>
           front_ok i (i + w) max2 \<and> front_ok i (i + w) min2 \<and>
           slide_loop ps w (Suc i) i st = Some st' \<and>
           s_max_dq st' = max2 \<and> s_min_dq st' = min2 \<and> sw_inv ps w i (i + w) st' \<and>
           s_windows st' = (s_windows st)[i := window_stats ps w i]"
proof -
  note inv = assms(1)[unfolded sw_inv_def]
  have out: "size_sub i 1 = i - 1"
    using assms(2,4,5) by (intro size_sub_le) simp_all
  have "size_add i w = i + w" using assms(4,5) by (intro size_add_small) simp
  moreover have "size_sub (i + w) 1 = i + w - 1"
    using assms(3,4,5) by (intro size_sub_le) simp_all
  ultimately have inn: "size_sub (size_add i w) 1 = i + w - 1" by simp
  have rds: "rd ps (i - 1) = Some (ps ! (i - 1))" "rd ps (i + w - 1) = Some (ps ! (i + w - 1))"
    using assms(3,4) by simp_all
  have Si: "Suc (i - 1) = i" "Suc (i + w - 1) = i + w" using assms(2,3) by simp_all
  have hi: "i - 1 + w = i + w - 1" "i + w - 1 < length ps" "i \<le> i + w - 1" "i + w - 1 - i < w"
    using assms(2,3,4) by simp_all
  obtain max0 where max0: "pop_front_while (i - 1) (s_max_dq st) = Some max0" "dq_wf max0"
    "d_capacity max0 = w + 1" "mono_inv (\<lambda>j. ps ! j) (dq_list max0) i (i + w - 1)"
    using pop_front_while_ok[of "s_max_dq st" "i - 1"] inv
      mono_pop_front[of "\<lambda>j. ps ! j" "dq_list (s_max_dq st)" "i - 1" "i - 1 + w"] Si hi(1)
    by auto
  obtain min0 where min0: "pop_front_while (i - 1) (s_min_dq st) = Some min0" "dq_wf min0"
    "d_capacity min0 = w + 1" "mono_inv (\<lambda>j. - ps ! j) (dq_list min0) i (i + w - 1)"
    using pop_front_while_ok[of "s_min_dq st" "i - 1"] inv
      mono_pop_front[of "\<lambda>j. - ps ! j" "dq_list (s_min_dq st)" "i - 1" "i - 1 + w"] Si hi(1)
    by auto
  have le: "i + w - 1 - i \<le> w" by simp
  note ok0 = mono_deque_ok[OF max0(2,3,4) le] mono_deque_ok[OF min0(2,3,4) le]
  obtain max2 where mx: "add_index_ok w i (i + w - 1) (\<le>) ps max0 max2" "dq_wf max2"
    "d_capacity max2 = w + 1" "mono_inv (\<lambda>j. ps ! j) (dq_list max2) i (i + w)"
    using add_index[OF max0(2,3,4) hi(2,3,4), of "(\<le>)"] Si(2) by auto
  obtain min2 where mn: "add_index_ok w i (i + w - 1) (\<ge>) ps min0 min2" "dq_wf min2"
    "d_capacity min2 = w + 1" "mono_inv (\<lambda>j. - ps ! j) (dq_list min2) i (i + w)"
    using add_index[OF min0(2,3,4) hi(2,3,4), of "(\<ge>)"] Si(2) by auto
  obtain max1 where max1: "pop_back_while (\<le>) ps (i + w - 1) max0 = Some max1"
    "pushBack max1 (i + w - 1) = Some max2" using mx(1) unfolding add_index_ok_def by blast
  obtain min1 where min1: "pop_back_while (\<ge>) ps (i + w - 1) min0 = Some min1"
    "pushBack min1 (i + w - 1) = Some min2" using mn(1) unfolding add_index_ok_def by blast
  have lt: "i < i + w" using assms(3) by simp
  note fr = front_read[OF mx(2,4) lt] front_read[OF mn(2,4) lt]
  let ?st1 = "st\<lparr>s_sum := dadd (dsub (s_sum st) (Finite (ps ! (i - 1))))
                                 (Finite (ps ! (i + w - 1))),
                  s_sum_sq := dadd (dsub (s_sum_sq st)
                                      (dmul (Finite (ps ! (i - 1))) (Finite (ps ! (i - 1)))))
                                (dmul (Finite (ps ! (i + w - 1))) (Finite (ps ! (i + w - 1)))),
                  s_max_dq := max2, s_min_dq := min2\<rparr>"
  have old: "s_sum st = win_sum ps w (i - 1)" "s_sum_sq st = win_sum_sq ps w (i - 1)"
    using inv by (simp_all split: if_splits)
  have i0: "i \<noteq> 0" using assms(2) by simp
  have inv1: "sw_inv ps w i (i + w) ?st1"
    using mx(2-4) mn(2-4) inv i0 win_sum_step[OF assms(2,3), of ps]
    by (simp add: sw_inv_def old)
  let ?st2 = "?st1\<lparr>s_windows := (s_windows st)[i := window_stats ps w i]\<rparr>"
  have sw: "store_window ps w i (i + w - 1) ?st1 = Some ?st2"
    using store_window_ok[OF inv1 assms(3,4)] assms(6,7) by simp
  have inv2: "sw_inv ps w i (i + w) ?st2"
    using inv1 by (simp add: sw_inv_def)
  have e: "slide_loop ps w (Suc i) (i + 1) ?st2 = Some ?st2"
    by (subst slide_loop.simps) simp
  have ii: "i < Suc i" by simp
  have run: "slide_loop ps w (Suc i) i st = Some ?st2"
    apply (subst slide_loop.simps)
    apply (simp only: Let_def out inn rds max0(1) min0(1) max1 min1 ii if_True
        bind.bind_lunit sw)
    apply (rule e)
    done
  have "s_max_dq ?st2 = max2" "s_min_dq ?st2 = min2"
    "s_windows ?st2 = (s_windows st)[i := window_stats ps w i]" by simp_all
  then show ?thesis using max0(1) min0(1) ok0 mx(1) mn(1) fr run inv2 by blast
qed

lemma slide_prefix:
  assumes "sw_inv ps w 0 w st2" "0 < w" "nw + w = length ps + 1" "length ps < 2 ^ 62"
    and "length (s_windows st2) = nw"
    and "\<forall>k. 1 \<le> k \<and> k < nw \<longrightarrow> length (w_pattern (s_windows st2 ! k)) = 32"
    and "Suc j \<le> nw"
  shows "\<exists>st. slide_loop ps w (Suc j) 1 st2 = Some st \<and> sw_inv ps w j (j + w) st \<and>
           length (s_windows st) = nw \<and>
           (\<forall>k. Suc j \<le> k \<and> k < nw \<longrightarrow> s_windows st ! k = s_windows st2 ! k)"
  using assms(7)
proof (induction j)
  case 0
  have "slide_loop ps w (Suc 0) 1 st2 = Some st2" by (subst slide_loop.simps) simp
  then show ?case using assms(1,5) by simp
next
  case (Suc j)
  then obtain st where st: "slide_loop ps w (Suc j) 1 st2 = Some st" "sw_inv ps w j (j + w) st"
    "length (s_windows st) = nw"
    "\<forall>k. Suc j \<le> k \<and> k < nw \<longrightarrow> s_windows st ! k = s_windows st2 ! k" by auto
  have i: "1 \<le> Suc j" "Suc j + w \<le> length ps" "Suc j < length (s_windows st)"
    using Suc.prems assms(3) st(3) by simp_all
  have inv: "sw_inv ps w (Suc j - 1) (Suc j - 1 + w) st" using st(2) by simp
  have pat: "length (w_pattern (s_windows st ! Suc j)) = 32"
    using st(4) assms(6) Suc.prems by simp
  from slide_step[OF inv i(1) assms(2) i(2) assms(4) i(3) pat] obtain st' where
    st': "slide_loop ps w (Suc (Suc j)) (Suc j) st = Some st'"
    "sw_inv ps w (Suc j) (Suc j + w) st'"
    "s_windows st' = (s_windows st)[Suc j := window_stats ps w (Suc j)]" by blast
  have "slide_loop ps w (Suc (Suc j)) 1 st2 = Some st'"
    using slide_loop_split[of 1 "Suc j" "Suc (Suc j)" ps w st2] st(1) st'(1) by simp
  moreover have "length (s_windows st') = nw" using st'(3) st(3) by simp
  moreover have "\<forall>k. Suc (Suc j) \<le> k \<and> k < nw \<longrightarrow> s_windows st' ! k = s_windows st2 ! k"
    using st'(3) st(4) by simp
  ultimately show ?case using st'(2) by blast
qed

lemma sw_inv_deque_ok:
  assumes "sw_inv ps w lo hi st" "hi - lo \<le> w"
  shows "deque_ok w lo hi (s_max_dq st)" "deque_ok w lo hi (s_min_dq st)"
  using assms mono_deque_ok[of "s_max_dq st" w "\<lambda>j. ps ! j" lo hi]
    mono_deque_ok[of "s_min_dq st" w "\<lambda>j. - ps ! j" lo hi]
  by (simp_all add: sw_inv_def)

lemma sw_inv_front_ok:
  assumes "sw_inv ps w lo hi st" "lo < hi"
  shows "front_ok lo hi (s_max_dq st)" "front_ok lo hi (s_min_dq st)"
  using assms front_read[of "s_max_dq st" "\<lambda>j. ps ! j" lo hi]
    front_read[of "s_min_dq st" "\<lambda>j. - ps ! j" lo hi]
  by (simp_all add: sw_inv_def)

lemma sw_init_inv:
  assumes "w < 2 ^ 62"
  shows "sw_inv ps w 0 0 (sw_init ps w)"
proof -
  have "w + 1 < 2 ^ 63" using assms by simp
  then have "dq_wf (fresh_deque (w + 1))" "dq_list (fresh_deque (w + 1)) = []"
    using fresh_deque_wf[of "w + 1"] by simp_all
  then show ?thesis by (simp add: sw_inv_def sw_init_def mono_inv_empty fresh_deque_def)
qed

lemma deque_ok_wf:
  assumes "deque_ok w lo hi d" "w < 2 ^ 62"
  shows "dq_wf d"
  using assms by (simp add: deque_ok_def dq_wf_def)

lemma deque_pop_ok:
  assumes "deque_ok w lo hi d" "w < 2 ^ 62" "\<not> isEmptyDeque d"
  shows "(\<exists>j. back_dq d = Some j \<and> j = last (dq_list d) \<and> lo \<le> j \<and> j < hi) \<and>
         (\<exists>j. front d = Some j \<and> j = hd (dq_list d) \<and> lo \<le> j \<and> j < hi) \<and>
         (\<exists>d'. popBack d = Some d' \<and> dq_list d' = butlast (dq_list d) \<and>
               d_indices d' = d_indices d \<and> deque_ok w lo hi d') \<and>
         (\<exists>d'. popFront d = Some d' \<and> dq_list d' = tl (dq_list d) \<and>
               d_indices d' = d_indices d \<and> deque_ok w lo hi d')"
proof -
  note wf = deque_ok_wf[OF assms(1,2)]
  have ne: "dq_list d \<noteq> []" using dq_empty[OF wf] assms(3) by simp
  note ok = assms(1)[unfolded deque_ok_def]
  have sub: "set (dq_list d) \<subseteq> {lo..<hi}" using ok by simp
  have "last (dq_list d) \<in> set (dq_list d)" "hd (dq_list d) \<in> set (dq_list d)"
    using ne by simp_all
  then have rng: "lo \<le> last (dq_list d)" "last (dq_list d) < hi"
    "lo \<le> hd (dq_list d)" "hd (dq_list d) < hi" using sub by auto
  obtain d1 where d1: "popBack d = Some d1" "dq_wf d1" "dq_list d1 = butlast (dq_list d)"
    "d_capacity d1 = d_capacity d" using dq_popBack_ok[OF wf ne] by blast
  obtain d2 where d2: "popFront d = Some d2" "dq_wf d2" "dq_list d2 = tl (dq_list d)"
    "d_capacity d2 = d_capacity d" using dq_popFront_ok[OF wf ne] by blast
  have cap: "d_capacity d \<noteq> 0" using wf by (simp add: dq_wf_def)
  have i1: "d_indices d1 = d_indices d"
    using d1(1) cap by (auto simp: popBack_def mod_capacity_def)
  have i2: "d_indices d2 = d_indices d"
    using d2(1) cap by (auto simp: popFront_def mod_capacity_def)
  have "length (butlast (dq_list d)) \<le> length (dq_list d)" by (simp del: dq_length)
  then have "length (dq_list d1) \<le> length (dq_list d)" by (simp only: d1(3))
  then have z1: "dq_size d1 \<le> dq_size d" by (simp only: dq_length)
  have "length (tl (dq_list d)) \<le> length (dq_list d)" by (simp del: dq_length)
  then have "length (dq_list d2) \<le> length (dq_list d)" by (simp only: d2(3))
  then have z2: "dq_size d2 \<le> dq_size d" by (simp only: dq_length)
  have "set (butlast (dq_list d)) \<subseteq> set (dq_list d)" by (auto dest: in_set_butlastD)
  then have s1: "set (dq_list d1) \<subseteq> {lo..<hi}" using sub unfolding d1(3) by blast
  have "set (tl (dq_list d)) \<subseteq> set (dq_list d)" using ne by (auto dest: list.set_sel(2))
  then have s2: "set (dq_list d2) \<subseteq> {lo..<hi}" using sub unfolding d2(3) by blast
  have f1: "d_front d1 \<le> w" "d_back d1 \<le> w"
    using d1(2,4) ok by (simp_all add: dq_wf_def)
  have f2: "d_front d2 \<le> w" "d_back d2 \<le> w"
    using d2(2,4) ok by (simp_all add: dq_wf_def)
  have ok1: "deque_ok w lo hi d1"
    unfolding deque_ok_def using ok d1(4) i1 z1 s1 f1 by auto
  have ok2: "deque_ok w lo hi d2"
    unfolding deque_ok_def using ok d2(4) i2 z2 s2 f2 by auto
  have b: "\<exists>j. back_dq d = Some j \<and> j = last (dq_list d) \<and> lo \<le> j \<and> j < hi"
    using dq_back_ok[OF wf ne] rng(1,2) by blast
  have f: "\<exists>j. front d = Some j \<and> j = hd (dq_list d) \<and> lo \<le> j \<and> j < hi"
    using dq_front_ok[OF wf ne] rng(3,4) by blast
  have p1: "\<exists>d'. popBack d = Some d' \<and> dq_list d' = butlast (dq_list d) \<and>
               d_indices d' = d_indices d \<and> deque_ok w lo hi d'"
    using d1(1,3) i1 ok1 by blast
  have p2: "\<exists>d'. popFront d = Some d' \<and> dq_list d' = tl (dq_list d) \<and>
               d_indices d' = d_indices d \<and> deque_ok w lo hi d'"
    using d2(1,3) i2 ok2 by blast
  show ?thesis using b f p1 p2 by (intro conjI)
qed

text \<open>
  Claim C8. A successful run of \<open>analyzeSlidingWindow\<close>, followed through its two loops.
  Every array access of the model is checked, so each equation \<open>\<dots> = Some \<dots>\<close> below says
  that the accesses made on the way were inside their blocks. \<open>deque_ok w lo hi d\<close> says
  that \<open>d\<close> has capacity \<open>w + 1\<close>, cursors inside its buffer, at most \<open>hi - lo \<le> w\<close> indices,
  all in \<open>[lo, hi)\<close>.

  \<^item> At the head of iteration \<open>k\<close> of the first loop both deques are \<open>deque_ok w 0 k\<close>;
    the pops leave fewer than \<open>w\<close> indices, \<open>pushBack\<close> appends \<open>k\<close> to them and changes
    no other entry, and the state at the head of iteration \<open>k + 1\<close> holds these deques.
  \<^item> After the first loop both deques are non-empty and their fronts, read for window 0,
    lie in \<open>[0, w)\<close>.
  \<^item> At the head of iteration \<open>i\<close> of the second loop both deques hold indices of window
    \<open>i - 1\<close>; after the pops at the front they hold indices in \<open>[i, i + w - 1)\<close>; the new
    index \<open>i + w - 1\<close> enters as in the first loop; the deques are then non-empty and
    their fronts, read for window \<open>i\<close>, lie in \<open>[i, i + w)\<close>.
  \<^item> On every non-empty deque that is \<open>deque_ok w lo hi\<close>, \<open>back\<close> and \<open>front\<close> read an
    index in \<open>[lo, hi)\<close>, and \<open>popBack\<close> and \<open>popFront\<close> remove one index, write
    nothing to the buffer and leave the deque \<open>deque_ok w lo hi\<close>; so the deques stay
    so inside the loops that pop.
\<close>

theorem deque_bounds:
  assumes "1 \<le> w" "w \<le> length ps" "length ps \<le> MAX_ARRAY_SIZE"
    and "validate_prices cps" "ps = map fin cps" "alloc_ok al"
  shows "(\<exists>st1 st2 st3.
     first_window_loop ps w 0 (sw_init ps w) = Some st1 \<and>
     store_window ps w 0 (w - 1) st1 = Some st2 \<and>
     slide_loop ps w (length ps - w + 1) 1 st2 = Some st3 \<and>
     analyzeSlidingWindow al (Some cps) w True =
       Some (0, Stored \<lparr>r_windows = s_windows st3, r_num_windows = length ps - w + 1,
                        r_window_size = w\<rparr>) \<and>
     (\<forall>k<w. \<exists>st max2 min2.
        first_window_loop ps k 0 (sw_init ps w) = Some st \<and>
        deque_ok w 0 k (s_max_dq st) \<and> deque_ok w 0 k (s_min_dq st) \<and>
        add_index_ok w 0 k (\<le>) ps (s_max_dq st) max2 \<and>
        add_index_ok w 0 k (\<ge>) ps (s_min_dq st) min2 \<and>
        first_window_loop ps (Suc k) 0 (sw_init ps w) =
          Some (st\<lparr>s_sum := dadd (s_sum st) (Finite (ps ! k)),
                    s_sum_sq := dadd (s_sum_sq st) (dmul (Finite (ps ! k)) (Finite (ps ! k))),
                    s_max_dq := max2, s_min_dq := min2\<rparr>)) \<and>
     deque_ok w 0 w (s_max_dq st1) \<and> deque_ok w 0 w (s_min_dq st1) \<and>
     front_ok 0 w (s_max_dq st1) \<and> front_ok 0 w (s_min_dq st1) \<and>
     s_max_dq st2 = s_max_dq st1 \<and> s_min_dq st2 = s_min_dq st1 \<and>
     (\<forall>i. 1 \<le> i \<and> i < length ps - w + 1 \<longrightarrow>
        (\<exists>st max0 min0 max2 min2 st'.
           slide_loop ps w i 1 st2 = Some st \<and>
           deque_ok w (i - 1) (i - 1 + w) (s_max_dq st) \<and>
           deque_ok w (i - 1) (i - 1 + w) (s_min_dq st) \<and>
           pop_front_while (i - 1) (s_max_dq st) = Some max0 \<and> deque_ok w i (i + w - 1) max0 \<and>
           pop_front_while (i - 1) (s_min_dq st) = Some min0 \<and> deque_ok w i (i + w - 1) min0 \<and>
           add_index_ok w i (i + w - 1) (\<le>) ps max0 max2 \<and>
           add_index_ok w i (i + w - 1) (\<ge>) ps min0 min2 \<and>
           front_ok i (i + w) max2 \<and> front_ok i (i + w) min2 \<and>
           slide_loop ps w (Suc i) 1 st2 = Some st' \<and>
           s_max_dq st' = max2 \<and> s_min_dq st' = min2))) \<and>
   (\<forall>d lo hi. deque_ok w lo hi d \<and> \<not> isEmptyDeque d \<longrightarrow>
      (\<exists>j. back_dq d = Some j \<and> j = last (dq_list d) \<and> lo \<le> j \<and> j < hi) \<and>
      (\<exists>j. front d = Some j \<and> j = hd (dq_list d) \<and> lo \<le> j \<and> j < hi) \<and>
      (\<exists>d'. popBack d = Some d' \<and> dq_list d' = butlast (dq_list d) \<and>
            d_indices d' = d_indices d \<and> deque_ok w lo hi d') \<and>
      (\<exists>d'. popFront d = Some d' \<and> dq_list d' = tl (dq_list d) \<and>
            d_indices d' = d_indices d \<and> deque_ok w lo hi d'))"
proof -
  let ?n = "length ps"
  let ?nw = "?n - w + 1"
  let ?st0 = "sw_init ps w"
  have big: "?n < 2 ^ 62" using assms(3) by (simp add: MAX_ARRAY_SIZE_def)
  have w0: "0 < w" using assms(1) by simp
  have inv0: "sw_inv ps w 0 0 ?st0" using assms(2) big by (intro sw_init_inv) simp
  note pre = first_window_prefix[OF inv0 assms(2)]
  obtain st1 where st1: "first_window_loop ps w 0 ?st0 = Some st1" "sw_inv ps w 0 w st1"
    "s_windows st1 = replicate ?nw fresh_window"
    using pre[of w] by (auto simp: sw_init_def)
  have inv1: "sw_inv ps w 0 (0 + w) st1" using st1(2) by simp
  let ?st2 = "st1\<lparr>s_windows := (s_windows st1)[0 := window_stats ps w 0]\<rparr>"
  have st2: "store_window ps w 0 (w - 1) st1 = Some ?st2"
    using store_window_ok[OF inv1, of] assms st1(3) by (simp add: fresh_window_def)
  have inv2: "sw_inv ps w 0 w ?st2" using st1(2) by (simp add: sw_inv_def)
  have pat: "\<forall>k. 1 \<le> k \<and> k < ?nw \<longrightarrow> length (w_pattern (s_windows ?st2 ! k)) = 32"
  proof (intro allI impI)
    fix k assume k: "1 \<le> k \<and> k < ?nw"
    then have "(replicate ?nw fresh_window)[0 := window_stats ps w 0] ! k = fresh_window"
      by (intro replicate_update_other) simp_all
    then show "length (w_pattern (s_windows ?st2 ! k)) = 32"
      using st1(3) by (simp add: fresh_window_def)
  qed
  have nw: "?nw + w = ?n + 1" using assms(2) by simp
  have len2: "length (s_windows ?st2) = ?nw" using st1(3) by simp
  note spre = slide_prefix[OF inv2 w0 nw big len2 pat]
  obtain st3 where st3: "slide_loop ps w ?nw 1 ?st2 = Some st3"
    using spre[of "?n - w"] by auto
  have first: "\<forall>k<w. \<exists>st max2 min2.
        first_window_loop ps k 0 ?st0 = Some st \<and>
        deque_ok w 0 k (s_max_dq st) \<and> deque_ok w 0 k (s_min_dq st) \<and>
        add_index_ok w 0 k (\<le>) ps (s_max_dq st) max2 \<and>
        add_index_ok w 0 k (\<ge>) ps (s_min_dq st) min2 \<and>
        first_window_loop ps (Suc k) 0 ?st0 =
          Some (st\<lparr>s_sum := dadd (s_sum st) (Finite (ps ! k)),
                    s_sum_sq := dadd (s_sum_sq st) (dmul (Finite (ps ! k)) (Finite (ps ! k))),
                    s_max_dq := max2, s_min_dq := min2\<rparr>)"
  proof (intro allI impI)
    fix k assume k: "k < w"
    obtain st where st: "first_window_loop ps k 0 ?st0 = Some st" "sw_inv ps w 0 k st"
      using pre[of k] k by auto
    have kw: "k - 0 \<le> w" using k by simp
    note ok = sw_inv_deque_ok[OF st(2) kw]
    from first_window_step[OF st(2) k assms(2)] obtain max2 min2 where
      s: "add_index_ok w 0 k (\<le>) ps (s_max_dq st) max2"
         "add_index_ok w 0 k (\<ge>) ps (s_min_dq st) min2"
         "first_window_loop ps (Suc k) k st =
             Some (st\<lparr>s_sum := dadd (s_sum st) (Finite (ps ! k)),
                       s_sum_sq := dadd (s_sum_sq st) (dmul (Finite (ps ! k)) (Finite (ps ! k))),
                       s_max_dq := max2, s_min_dq := min2\<rparr>)"
      by blast
    have "first_window_loop ps (Suc k) 0 ?st0 =
             Some (st\<lparr>s_sum := dadd (s_sum st) (Finite (ps ! k)),
                       s_sum_sq := dadd (s_sum_sq st) (dmul (Finite (ps ! k)) (Finite (ps ! k))),
                       s_max_dq := max2, s_min_dq := min2\<rparr>)"
      using first_window_loop_split[of 0 k "Suc k" ps ?st0] st(1) s(3) by simp
    then show "\<exists>st max2 min2.
        first_window_loop ps k 0 ?st0 = Some st \<and>
        deque_ok w 0 k (s_max_dq st) \<and> deque_ok w 0 k (s_min_dq st) \<and>
        add_index_ok w 0 k (\<le>) ps (s_max_dq st) max2 \<and>
        add_index_ok w 0 k (\<ge>) ps (s_min_dq st) min2 \<and>
        first_window_loop ps (Suc k) 0 ?st0 =
          Some (st\<lparr>s_sum := dadd (s_sum st) (Finite (ps ! k)),
                    s_sum_sq := dadd (s_sum_sq st) (dmul (Finite (ps ! k)) (Finite (ps ! k))),
                    s_max_dq := max2, s_min_dq := min2\<rparr>)"
      using st(1) ok s(1,2) by blast
  qed
  have ww: "w - 0 \<le> w" by simp
  note ok1 = sw_inv_deque_ok[OF st1(2) ww] sw_inv_front_ok[OF st1(2) w0]
  have slide: "\<forall>i. 1 \<le> i \<and> i < ?nw \<longrightarrow>
        (\<exists>st max0 min0 max2 min2 st'.
           slide_loop ps w i 1 ?st2 = Some st \<and>
           deque_ok w (i - 1) (i - 1 + w) (s_max_dq st) \<and>
           deque_ok w (i - 1) (i - 1 + w) (s_min_dq st) \<and>
           pop_front_while (i - 1) (s_max_dq st) = Some max0 \<and> deque_ok w i (i + w - 1) max0 \<and>
           pop_front_while (i - 1) (s_min_dq st) = Some min0 \<and> deque_ok w i (i + w - 1) min0 \<and>
           add_index_ok w i (i + w - 1) (\<le>) ps max0 max2 \<and>
           add_index_ok w i (i + w - 1) (\<ge>) ps min0 min2 \<and>
           front_ok i (i + w) max2 \<and> front_ok i (i + w) min2 \<and>
           slide_loop ps w (Suc i) 1 ?st2 = Some st' \<and>
           s_max_dq st' = max2 \<and> s_min_dq st' = min2)"
  proof (intro allI impI)
    fix i assume i: "1 \<le> i \<and> i < ?nw"
    then obtain j where j: "i = Suc j" by (cases i) auto
    have jn: "Suc j \<le> ?nw" using i j by simp
    obtain st where st: "slide_loop ps w i 1 ?st2 = Some st" "sw_inv ps w j (j + w) st"
      "length (s_windows st) = ?nw"
      "\<forall>k. Suc j \<le> k \<and> k < ?nw \<longrightarrow> s_windows st ! k = s_windows ?st2 ! k"
      using spre[OF jn] j by auto
    have inv: "sw_inv ps w (i - 1) (i - 1 + w) st" using st(2) j by simp
    have jw: "i - 1 + w - (i - 1) \<le> w" by simp
    note ok = sw_inv_deque_ok[OF inv jw]
    have c: "1 \<le> i" "i + w \<le> length ps" "i < length (s_windows st)"
      using i st(3) assms(2) by auto
    have p: "length (w_pattern (s_windows st ! i)) = 32" using st(4) pat i j by simp
    from slide_step[OF inv c(1) w0 c(2) big c(3) p] obtain max0 min0 max2 min2 st' where
      s: "pop_front_while (i - 1) (s_max_dq st) = Some max0" "deque_ok w i (i + w - 1) max0"
         "pop_front_while (i - 1) (s_min_dq st) = Some min0" "deque_ok w i (i + w - 1) min0"
         "add_index_ok w i (i + w - 1) (\<le>) ps max0 max2"
         "add_index_ok w i (i + w - 1) (\<ge>) ps min0 min2"
         "front_ok i (i + w) max2" "front_ok i (i + w) min2"
         "slide_loop ps w (Suc i) i st = Some st'"
         "s_max_dq st' = max2" "s_min_dq st' = min2"
      by blast
    have "slide_loop ps w (Suc i) 1 ?st2 = Some st'"
      using slide_loop_split[of 1 i "Suc i" ps w ?st2] st(1) s(9) c(1) by simp
    then show "\<exists>st max0 min0 max2 min2 st'.
           slide_loop ps w i 1 ?st2 = Some st \<and>
           deque_ok w (i - 1) (i - 1 + w) (s_max_dq st) \<and>
           deque_ok w (i - 1) (i - 1 + w) (s_min_dq st) \<and>
           pop_front_while (i - 1) (s_max_dq st) = Some max0 \<and> deque_ok w i (i + w - 1) max0 \<and>
           pop_front_while (i - 1) (s_min_dq st) = Some min0 \<and> deque_ok w i (i + w - 1) min0 \<and>
           add_index_ok w i (i + w - 1) (\<le>) ps max0 max2 \<and>
           add_index_ok w i (i + w - 1) (\<ge>) ps min0 min2 \<and>
           front_ok i (i + w) max2 \<and> front_ok i (i + w) min2 \<and>
           slide_loop ps w (Suc i) 1 ?st2 = Some st' \<and>
           s_max_dq st' = max2 \<and> s_min_dq st' = min2"
      using st(1) ok s(1-8,10,11) by blast
  qed
  have len: "length cps = ?n" using assms(5) by simp
  have "size_sub ?n w = ?n - w" using assms(2) big by (intro size_sub_le) simp_all
  moreover have "size_add (?n - w) 1 = ?n - w + 1" using big by (intro size_add_small) simp
  ultimately have nwc: "size_add (size_sub ?n w) 1 = ?nw" by simp
  have cap: "size_add w 1 = w + 1" using assms(2) big by (intro size_add_small) simp
  have w1: "size_sub w 1 = w - 1" using assms(1,2) big by (intro size_sub_le) simp_all
  have run: "do {
           st1 \<leftarrow> first_window_loop ps w 0
                   \<lparr>s_sum = Finite 0, s_sum_sq = Finite 0, s_max_dq = fresh_deque (size_add w 1),
                    s_min_dq = fresh_deque (size_add w 1),
                    s_windows = replicate (size_add (size_sub ?n w) 1) fresh_window\<rparr>;
           st2 \<leftarrow> store_window ps w 0 (size_sub w 1) st1;
           st3 \<leftarrow> slide_loop ps w (size_add (size_sub ?n w) 1) 1 st2;
           Some (0::int, Stored \<lparr>r_windows = s_windows st3,
                            r_num_windows = size_add (size_sub ?n w) 1,
                            r_window_size = w\<rparr>)
         } = Some (0, Stored \<lparr>r_windows = s_windows st3, r_num_windows = ?nw,
                               r_window_size = w\<rparr>)"
    by (simp only: nwc cap w1 st1(1)[unfolded sw_init_def] st2 st3 bind.bind_lunit)
  obtain al1 where 1: "malloc al = (True, al1)" "alloc_ok al1"
    using malloc_ok[OF assms(6)] by blast
  obtain al2 where 2: "malloc al1 = (True, al2)" "alloc_ok al2"
    using malloc_ok[OF 1(2)] by blast
  obtain al3 where 3: "createDeque al2 (size_add w 1) = (Some (fresh_deque (size_add w 1)), al3)"
    "alloc_ok al3"
    using createDeque_ok[OF 2(2)] by blast
  obtain al4 where 4: "createDeque al3 (size_add w 1) = (Some (fresh_deque (size_add w 1)), al4)"
    using createDeque_ok[OF 3(2)] by blast
  have ne: "cps \<noteq> []" "w \<noteq> 0" "\<not> length cps < w" "\<not> MAX_ARRAY_SIZE < length cps"
    using assms(1,2,3) len by auto
  have an: "analyzeSlidingWindow al (Some cps) w True =
       Some (0, Stored \<lparr>r_windows = s_windows st3, r_num_windows = ?nw, r_window_size = w\<rparr>)"
    unfolding analyzeSlidingWindow_def Let_def assms(5) length_map
    using assms(4) ne 1 2 3 4 run[unfolded assms(5) length_map]
    by (simp add: not_less)
  have "s_max_dq ?st2 = s_max_dq st1" "s_min_dq ?st2 = s_min_dq st1" by simp_all
  then have run: "\<exists>st1 st2 st3.
     first_window_loop ps w 0 (sw_init ps w) = Some st1 \<and>
     store_window ps w 0 (w - 1) st1 = Some st2 \<and>
     slide_loop ps w (length ps - w + 1) 1 st2 = Some st3 \<and>
     analyzeSlidingWindow al (Some cps) w True =
       Some (0, Stored \<lparr>r_windows = s_windows st3, r_num_windows = length ps - w + 1,
                        r_window_size = w\<rparr>) \<and>
     (\<forall>k<w. \<exists>st max2 min2.
        first_window_loop ps k 0 (sw_init ps w) = Some st \<and>
        deque_ok w 0 k (s_max_dq st) \<and> deque_ok w 0 k (s_min_dq st) \<and>
        add_index_ok w 0 k (\<le>) ps (s_max_dq st) max2 \<and>
        add_index_ok w 0 k (\<ge>) ps (s_min_dq st) min2 \<and>
        first_window_loop ps (Suc k) 0 (sw_init ps w) =
          Some (st\<lparr>s_sum := dadd (s_sum st) (Finite (ps ! k)),
                    s_sum_sq := dadd (s_sum_sq st) (dmul (Finite (ps ! k)) (Finite (ps ! k))),
                    s_max_dq := max2, s_min_dq := min2\<rparr>)) \<and>
     deque_ok w 0 w (s_max_dq st1) \<and> deque_ok w 0 w (s_min_dq st1) \<and>
     front_ok 0 w (s_max_dq st1) \<and> front_ok 0 w (s_min_dq st1) \<and>
     s_max_dq st2 = s_max_dq st1 \<and> s_min_dq st2 = s_min_dq st1 \<and>
     (\<forall>i. 1 \<le> i \<and> i < length ps - w + 1 \<longrightarrow>
        (\<exists>st max0 min0 max2 min2 st'.
           slide_loop ps w i 1 st2 = Some st \<and>
           deque_ok w (i - 1) (i - 1 + w) (s_max_dq st) \<and>
           deque_ok w (i - 1) (i - 1 + w) (s_min_dq st) \<and>
           pop_front_while (i - 1) (s_max_dq st) = Some max0 \<and> deque_ok w i (i + w - 1) max0 \<and>
           pop_front_while (i - 1) (s_min_dq st) = Some min0 \<and> deque_ok w i (i + w - 1) min0 \<and>
           add_index_ok w i (i + w - 1) (\<le>) ps max0 max2 \<and>
           add_index_ok w i (i + w - 1) (\<ge>) ps min0 min2 \<and>
           front_ok i (i + w) max2 \<and> front_ok i (i + w) min2 \<and>
           slide_loop ps w (Suc i) 1 st2 = Some st' \<and>
           s_max_dq st' = max2 \<and> s_min_dq st' = min2))"
    using st1(1) st2 st3 an first ok1 slide by blast
  have wb: "w < 2 ^ 62" using assms(2) big by simp
  have pops: "\<forall>d lo hi. deque_ok w lo hi d \<and> \<not> isEmptyDeque d \<longrightarrow>
      (\<exists>j. back_dq d = Some j \<and> j = last (dq_list d) \<and> lo \<le> j \<and> j < hi) \<and>
      (\<exists>j. front d = Some j \<and> j = hd (dq_list d) \<and> lo \<le> j \<and> j < hi) \<and>
      (\<exists>d'. popBack d = Some d' \<and> dq_list d' = butlast (dq_list d) \<and>
            d_indices d' = d_indices d \<and> deque_ok w lo hi d') \<and>
      (\<exists>d'. popFront d = Some d' \<and> dq_list d' = tl (dq_list d) \<and>
            d_indices d' = d_indices d \<and> deque_ok w lo hi d')"
    using deque_pop_ok[OF _ wb] by blast
  show ?thesis using run pops by (rule conjI)
qed

theorem deque_bounds_witness:
  "\<exists>st1 st2 st3 sta mxa st max0 max2.
     first_window_loop [3, 1, 2] 2 0 (sw_init [3, 1, 2] 2) = Some st1 \<and>
     store_window [3, 1, 2] 2 0 1 st1 = Some st2 \<and>
     slide_loop [3, 1, 2] 2 2 1 st2 = Some st3 \<and>
     analyzeSlidingWindow [] (Some [Finite 3, Finite 1, Finite 2]) 2 True =
       Some (0, Stored \<lparr>r_windows = s_windows st3, r_num_windows = 2, r_window_size = 2\<rparr>) \<and>
     first_window_loop [3, 1, 2] 1 0 (sw_init [3, 1, 2] 2) = Some sta \<and>
     deque_ok 2 0 1 (s_max_dq sta) \<and>
     add_index_ok 2 0 1 (\<le>) [3, 1, 2] (s_max_dq sta) mxa \<and>
     deque_ok 2 0 2 (s_max_dq st1) \<and> front_ok 0 2 (s_max_dq st1) \<and>
     slide_loop [3, 1, 2] 2 1 1 st2 = Some st \<and> deque_ok 2 0 2 (s_max_dq st) \<and>
     pop_front_while 0 (s_max_dq st) = Some max0 \<and> deque_ok 2 1 2 max0 \<and>
     add_index_ok 2 1 2 (\<le>) [3, 1, 2] max0 max2 \<and> front_ok 1 3 max2 \<and>
     (\<exists>d'. popFront max2 = Some d' \<and> dq_list d' = tl (dq_list max2) \<and> deque_ok 2 1 3 d')"
proof -
  let ?ps = "[3, 1, 2] :: real list" and ?cps = "[Finite 3, Finite 1, Finite 2]"
  have A: "1 \<le> (2::nat)" "2 \<le> length ?ps" "length ?ps \<le> MAX_ARRAY_SIZE"
    "validate_prices ?cps" "?ps = map fin ?cps" "alloc_ok []"
    by (simp_all add: MAX_ARRAY_SIZE_def alloc_ok_def)
  have K: "(1::nat) < 2" by simp
  have I: "1 \<le> (1::nat) \<and> 1 < length ?ps - 2 + 1" by simp
  from deque_bounds[OF A, THEN conjunct1] obtain st1 st2 st3 where
    a: "first_window_loop ?ps 2 0 (sw_init ?ps 2) = Some st1"
       "store_window ?ps 2 0 (2 - 1) st1 = Some st2"
       "slide_loop ?ps 2 (length ?ps - 2 + 1) 1 st2 = Some st3"
       "analyzeSlidingWindow [] (Some ?cps) 2 True =
          Some (0, Stored \<lparr>r_windows = s_windows st3, r_num_windows = length ?ps - 2 + 1,
                           r_window_size = 2\<rparr>)"
       "deque_ok 2 0 2 (s_max_dq st1)" "front_ok 0 2 (s_max_dq st1)"
    and k: "\<forall>k<2. \<exists>st max2 min2.
        first_window_loop ?ps k 0 (sw_init ?ps 2) = Some st \<and>
        deque_ok 2 0 k (s_max_dq st) \<and> deque_ok 2 0 k (s_min_dq st) \<and>
        add_index_ok 2 0 k (\<le>) ?ps (s_max_dq st) max2 \<and>
        add_index_ok 2 0 k (\<ge>) ?ps (s_min_dq st) min2 \<and>
        first_window_loop ?ps (Suc k) 0 (sw_init ?ps 2) =
          Some (st\<lparr>s_sum := dadd (s_sum st) (Finite (?ps ! k)),
                    s_sum_sq := dadd (s_sum_sq st) (dmul (Finite (?ps ! k)) (Finite (?ps ! k))),
                    s_max_dq := max2, s_min_dq := min2\<rparr>)"
    and i: "\<forall>i. 1 \<le> i \<and> i < length ?ps - 2 + 1 \<longrightarrow>
        (\<exists>st max0 min0 max2 min2 st'.
           slide_loop ?ps 2 i 1 st2 = Some st \<and>
           deque_ok 2 (i - 1) (i - 1 + 2) (s_max_dq st) \<and>
           deque_ok 2 (i - 1) (i - 1 + 2) (s_min_dq st) \<and>
           pop_front_while (i - 1) (s_max_dq st) = Some max0 \<and> deque_ok 2 i (i + 2 - 1) max0 \<and>
           pop_front_while (i - 1) (s_min_dq st) = Some min0 \<and> deque_ok 2 i (i + 2 - 1) min0 \<and>
           add_index_ok 2 i (i + 2 - 1) (\<le>) ?ps max0 max2 \<and>
           add_index_ok 2 i (i + 2 - 1) (\<ge>) ?ps min0 min2 \<and>
           front_ok i (i + 2) max2 \<and> front_ok i (i + 2) min2 \<and>
           slide_loop ?ps 2 (Suc i) 1 st2 = Some st' \<and>
           s_max_dq st' = max2 \<and> s_min_dq st' = min2)"
    by blast
  from k K obtain sta mxa where
    b: "first_window_loop ?ps 1 0 (sw_init ?ps 2) = Some sta" "deque_ok 2 0 1 (s_max_dq sta)"
       "add_index_ok 2 0 1 (\<le>) ?ps (s_max_dq sta) mxa"
    by blast
  from i I obtain st max0 max2 where
    c: "slide_loop ?ps 2 1 1 st2 = Some st" "deque_ok 2 (1 - 1) (1 - 1 + 2) (s_max_dq st)"
       "pop_front_while (1 - 1) (s_max_dq st) = Some max0" "deque_ok 2 1 (1 + 2 - 1) max0"
       "add_index_ok 2 1 (1 + 2 - 1) (\<le>) ?ps max0 max2" "front_ok 1 (1 + 2) max2"
    by blast
  have a': "store_window ?ps 2 0 1 st1 = Some st2" "slide_loop ?ps 2 2 1 st2 = Some st3"
    "analyzeSlidingWindow [] (Some ?cps) 2 True =
       Some (0, Stored \<lparr>r_windows = s_windows st3, r_num_windows = 2, r_window_size = 2\<rparr>)"
    using a(2,3,4) by (simp_all add: eval_nat_numeral)
  have c': "deque_ok 2 0 2 (s_max_dq st)" "pop_front_while 0 (s_max_dq st) = Some max0"
    "deque_ok 2 1 2 max0" "add_index_ok 2 1 2 (\<le>) ?ps max0 max2" "front_ok 1 3 max2"
    using c(2-6) by (simp_all add: eval_nat_numeral)
  have e: "\<not> isEmptyDeque max2" using c'(5) by (simp add: front_ok_def)
  have "deque_ok 2 1 (Suc 2) max2" using c'(4) unfolding add_index_ok_def by blast
  then have o: "deque_ok 2 1 3 max2" by (simp add: eval_nat_numeral)
  have d: "\<exists>d'. popFront max2 = Some d' \<and> dq_list d' = tl (dq_list max2) \<and> deque_ok 2 1 3 d'"
    using deque_bounds[OF A, THEN conjunct2] o e by blast
  show ?thesis using a(1,5,6) a' b c(1) c' d by blast
qed

section \<open>Status codes\<close>

lemma validate_prices_nan:
  "validate_prices ps \<longleftrightarrow> \<not> (\<exists>p\<in>set ps. isnan p \<or> isinf p)"
  by (induction ps) auto

lemma malloc_take:
  "malloc al = (b, al') \<Longrightarrow> alloc_ok (take (Suc n) al) \<longleftrightarrow> b \<and> alloc_ok (take n al')"
  by (cases al) (auto simp: alloc_ok_def)

lemma createStack_take:
  assumes "createStack al c = (r, al')"
  shows "(alloc_ok (take 2 al) \<longrightarrow>
            r = Some \<lparr>st_data = replicate c 0, st_top = 0, st_capacity = c\<rparr>) \<and>
         (\<not> alloc_ok (take 2 al) \<longrightarrow> r = None)"
proof -
  obtain b1 al1 where 1: "malloc al = (b1, al1)" by (cases "malloc al")
  obtain b2 al2 where 2: "malloc al1 = (b2, al2)" by (cases "malloc al1")
  have t: "alloc_ok (take 2 al) \<longleftrightarrow> b1 \<and> b2"
    using malloc_take[OF 1, of 1] malloc_take[OF 2, of 0]
    by (simp add: numeral_2_eq_2 alloc_ok_def)
  show ?thesis using assms 1 2 t by (cases b1; cases b2) (auto simp: createStack_def)
qed

lemma createDeque_take:
  assumes "createDeque al c = (r, al')"
  shows "(r = None \<longrightarrow> \<not> alloc_ok (take (Suc (Suc n)) al)) \<and>
         (r \<noteq> None \<longrightarrow> r = Some (fresh_deque c) \<and>
            (alloc_ok (take (Suc (Suc n)) al) \<longleftrightarrow> alloc_ok (take n al')))"
proof -
  obtain b1 al1 where 1: "malloc al = (b1, al1)" by (cases "malloc al")
  obtain b2 al2 where 2: "malloc al1 = (b2, al2)" by (cases "malloc al1")
  have t: "alloc_ok (take (Suc (Suc n)) al) \<longleftrightarrow> b1 \<and> b2 \<and> alloc_ok (take n al2)"
    using malloc_take[OF 1, of "Suc n"] malloc_take[OF 2, of n] by simp
  show ?thesis using assms 1 2 t
    by (cases b1; cases b2) (auto simp: createDeque_def fresh_deque_def)
qed

lemma span_run:
  assumes "1 \<le> length ps" "length ps \<le> MAX_ARRAY_SIZE"
  shows "\<exists>s' spans. span_loop ps 0 \<lparr>st_data = replicate (length ps) 0, st_top = 0,
                                     st_capacity = length ps\<rparr>
                       (replicate (length ps) (0::int)) = Some (s', spans)"
proof -
  let ?s0 = "\<lparr>st_data = replicate (length ps) 0, st_top = 0, st_capacity = length ps\<rparr>"
  have "\<exists>s' spans'. span_loop ps 0 ?s0 (replicate (length ps) 0) = Some (s', spans') \<and>
          length spans' = length ps \<and>
          (\<forall>k<0. spans' ! k = (replicate (length ps) 0) ! k) \<and>
          (\<forall>k. 0 \<le> k \<and> k < length ps \<longrightarrow> spans' ! k = int (span_spec ps k))"
    by (rule span_loop_correct) (use assms in \<open>simp_all add: stk_def\<close>)
  then show ?thesis by auto
qed

lemma calculateStockSpan_status:
  assumes "1 \<le> length ps" "length ps \<le> MAX_ARRAY_SIZE" "validate_prices ps"
  shows "(\<not> alloc_ok (take 3 al) \<longrightarrow>
            calculateStockSpan al (Some ps) True = Some (- 3, StoredNull)) \<and>
         (alloc_ok (take 3 al) \<longrightarrow>
            (\<exists>spans. calculateStockSpan al (Some ps) True = Some (0, Stored spans)))"
proof -
  obtain b1 al1 where 1: "malloc al = (b1, al1)" by (cases "malloc al")
  obtain r al2 where 2: "createStack al1 (length ps) = (r, al2)"
    by (cases "createStack al1 (length ps)")
  have t: "alloc_ok (take 3 al) \<longleftrightarrow> b1 \<and> alloc_ok (take 2 al1)"
    using malloc_take[OF 1, of 2] by (simp add: numeral_3_eq_3 numeral_2_eq_2)
  note c = createStack_take[OF 2]
  have ne: "length ps \<noteq> 0" "\<not> MAX_ARRAY_SIZE < length ps" using assms by auto
  from span_run[of "map fin ps"] assms obtain s' spans where
    run: "span_loop (map fin ps) 0 \<lparr>st_data = replicate (length ps) 0, st_top = 0,
            st_capacity = length ps\<rparr> (replicate (length ps) 0) = Some (s', spans)"
    by auto
  show ?thesis
  proof (cases "alloc_ok (take 3 al)")
    case True
    then have "b1" "r = Some \<lparr>st_data = replicate (length ps) 0, st_top = 0,
            st_capacity = length ps\<rparr>" using t c by auto
    then show ?thesis using True 1 2 ne assms(3) run by (simp add: calculateStockSpan_def)
  next
    case False
    then have "\<not> b1 \<or> r = None" using t c by auto
    then show ?thesis using False 1 2 ne assms(3)
      by (cases b1) (auto simp add: calculateStockSpan_def)
  qed
qed

lemma buildSegmentTree_status:
  assumes "1 \<le> length ps" "length ps \<le> MAX_ARRAY_SIZE" "validate_prices ps"
  shows "(\<not> alloc_ok (take 2 al) \<longrightarrow>
            buildSegmentTree al (Some ps) True = Some (- 3, Untouched)) \<and>
         (alloc_ok (take 2 al) \<longrightarrow>
            (\<exists>t. buildSegmentTree al (Some ps) True = Some (0, Stored t)))"
proof -
  obtain b1 al1 where 1: "malloc al = (b1, al1)" by (cases "malloc al")
  obtain b2 al2 where 2: "malloc al1 = (b2, al2)" by (cases "malloc al1")
  have t: "alloc_ok (take 2 al) \<longleftrightarrow> b1 \<and> b2"
    using malloc_take[OF 1, of 1] malloc_take[OF 2, of 0]
    by (simp add: numeral_2_eq_2 alloc_ok_def)
  have ne: "length ps \<noteq> 0" "\<not> MAX_ARRAY_SIZE < length ps" using assms by auto
  have "1 \<le> length (map fin ps)" using assms(1) by simp
  from build_loops[OF this] obtain nodes1 nodes2 where
    l: "leaf_loop (map fin ps) 0 (replicate (2 * length ps) None) = Some nodes1"
       "merge_loop (length ps - 1) nodes1 = Some nodes2"
    by auto
  show ?thesis using 1 2 t ne assms(3) l
    by (cases b1; cases b2) (simp_all add: buildSegmentTree_def)
qed

lemma analyzeSlidingWindow_status:
  assumes "1 \<le> w" "w \<le> length ps" "length ps \<le> MAX_ARRAY_SIZE" "validate_prices ps"
  shows "(\<not> alloc_ok (take 6 al) \<longrightarrow>
            analyzeSlidingWindow al (Some ps) w True = Some (- 3, Untouched)) \<and>
         (alloc_ok (take 6 al) \<longrightarrow>
            (\<exists>r. analyzeSlidingWindow al (Some ps) w True = Some (0, Stored r)))"
proof -
  obtain b1 al1 where 1: "malloc al = (b1, al1)" by (cases "malloc al")
  obtain b2 al2 where 2: "malloc al1 = (b2, al2)" by (cases "malloc al1")
  obtain r3 al3 where 3: "createDeque al2 (size_add w 1) = (r3, al3)"
    by (cases "createDeque al2 (size_add w 1)")
  obtain r4 al4 where 4: "createDeque al3 (size_add w 1) = (r4, al4)"
    by (cases "createDeque al3 (size_add w 1)")
  have t: "alloc_ok (take 6 al) \<longleftrightarrow> b1 \<and> b2 \<and> alloc_ok (take 4 al2)"
    using malloc_take[OF 1, of 5] malloc_take[OF 2, of 4] by (simp add: eval_nat_numeral)
  have c3: "r3 = None \<longrightarrow> \<not> alloc_ok (take 4 al2)"
    "r3 \<noteq> None \<longrightarrow> r3 = Some (fresh_deque (size_add w 1)) \<and>
       (alloc_ok (take 4 al2) \<longleftrightarrow> alloc_ok (take 2 al3))"
    using createDeque_take[OF 3, of 2] by (simp_all add: eval_nat_numeral)
  have c4: "r4 = None \<longrightarrow> \<not> alloc_ok (take 2 al3)"
    "r4 \<noteq> None \<longrightarrow> r4 = Some (fresh_deque (size_add w 1)) \<and> alloc_ok (take 2 al3)"
    using createDeque_take[OF 4, of 0] by (simp_all add: eval_nat_numeral alloc_ok_def)
  have ne: "length ps \<noteq> 0" "\<not> MAX_ARRAY_SIZE < length ps" "w \<noteq> 0" "\<not> length ps < w"
    using assms by auto
  note R = analyze_run_fin[OF assms(1,2,3)]
  have ok: "alloc_ok (take 6 al) \<longleftrightarrow> b1 \<and> b2 \<and> r3 \<noteq> None \<and> r4 \<noteq> None"
    using t c3 c4 by blast
  show ?thesis
  proof (cases "alloc_ok (take 6 al)")
    case True
    then have "b1" "b2" "r3 = Some (fresh_deque (size_add w 1))"
      "r4 = Some (fresh_deque (size_add w 1))" using ok c3 c4 by auto
    then show ?thesis using True 1 2 3 4 ne assms(4) R
      by (simp add: analyzeSlidingWindow_def Let_def)
  next
    case False
    then have "\<not> b1 \<or> \<not> b2 \<or> r3 = None \<or> r4 = None" using ok by blast
    then show ?thesis using False 1 2 3 4 ne assms(4)
      by (cases b1; cases b2; cases r3; cases r4) (simp_all add: analyzeSlidingWindow_def Let_def)
  qed
qed

lemma calculateStockSpan_effect:
  assumes "calculateStockSpan al prices out = Some (st, eff)"
  shows "(st = 0 \<and> (\<exists>spans. eff = Stored spans)) \<or> (st \<in> {- 1, - 2, - 4} \<and> eff = Untouched) \<or>
         (st = - 3 \<and> eff = StoredNull)"
  using assms unfolding calculateStockSpan_def
  by (auto split: option.splits if_splits prod.splits bool.splits)

lemma buildSegmentTree_effect:
  assumes "buildSegmentTree al prices out = Some (st, eff)"
  shows "(st = 0 \<and> (\<exists>t. eff = Stored t)) \<or> (st \<in> {- 1, - 2, - 3, - 4} \<and> eff = Untouched)"
  using assms unfolding buildSegmentTree_def
  by (auto split: option.splits if_splits prod.splits bool.splits)

lemma analyzeSlidingWindow_effect:
  assumes "analyzeSlidingWindow al prices w out = Some (st, eff)"
  shows "(st = 0 \<and> (\<exists>r. eff = Stored r)) \<or> (st \<in> {- 1, - 2, - 3, - 4} \<and> eff = Untouched)"
  using assms unfolding analyzeSlidingWindow_def Let_def
  by (auto split: option.splits if_splits prod.splits bool.splits Option.bind_splits)

lemma querySegmentTree_effect:
  assumes "querySegmentTree h ql qr out_min out_max out_avg out_variance mem = Some (st, mem')"
  shows "st = 0 \<or> (st \<in> {- 1, - 2} \<and> mem' = mem)"
  using assms unfolding querySegmentTree_def
  by (auto split: option.splits if_splits prod.splits)

lemma getWindowResult_effect:
  assumes "getWindowResult g idx out_max out_min out_avg out_pattern mem = Some (st, mem', pat')"
  shows "st = 0 \<or> (st \<in> {- 1, - 2} \<and> mem' = mem \<and> pat' = out_pattern)"
  using assms unfolding getWindowResult_def Let_def
  by (auto split: option.splits if_splits prod.splits Option.bind_splits)

lemma calculateStockSpan_returns: "\<exists>st eff. calculateStockSpan al prices out = Some (st, eff)"
proof (cases prices)
  case None
  then show ?thesis by (simp add: calculateStockSpan_def)
next
  case (Some ps)
  show ?thesis
  proof (cases "out \<and> 1 \<le> length ps \<and> length ps \<le> MAX_ARRAY_SIZE \<and> validate_prices ps")
    case True
    then show ?thesis using calculateStockSpan_status[of ps al] Some
      by (cases "alloc_ok (take 3 al)") auto
  next
    case False
    then show ?thesis using Some by (auto simp: calculateStockSpan_def Suc_le_eq)
  qed
qed

lemma buildSegmentTree_returns: "\<exists>st eff. buildSegmentTree al prices out = Some (st, eff)"
proof (cases prices)
  case None
  then show ?thesis by (simp add: buildSegmentTree_def)
next
  case (Some ps)
  show ?thesis
  proof (cases "out \<and> 1 \<le> length ps \<and> length ps \<le> MAX_ARRAY_SIZE \<and> validate_prices ps")
    case True
    then show ?thesis using buildSegmentTree_status[of ps al] Some
      by (cases "alloc_ok (take 2 al)") auto
  next
    case False
    then show ?thesis using Some by (auto simp: buildSegmentTree_def Suc_le_eq)
  qed
qed

lemma analyzeSlidingWindow_returns:
  "\<exists>st eff. analyzeSlidingWindow al prices w out = Some (st, eff)"
proof (cases prices)
  case None
  then show ?thesis by (simp add: analyzeSlidingWindow_def)
next
  case (Some ps)
  show ?thesis
  proof (cases "out \<and> 1 \<le> w \<and> w \<le> length ps \<and> length ps \<le> MAX_ARRAY_SIZE \<and> validate_prices ps")
    case True
    then show ?thesis using analyzeSlidingWindow_status[of w ps al] Some
      by (cases "alloc_ok (take 6 al)") auto
  next
    case False
    then show ?thesis using Some by (auto simp: analyzeSlidingWindow_def Suc_le_eq)
  qed
qed

text \<open>
  Claim C7. The status of every operation, in the order in which the source tests.
  A NULL required argument gives -1. Otherwise an empty or oversized sequence, a window
  size of 0 or above the length, a query range with \<open>ql > qr\<close> or \<open>qr\<close> beyond the tree,
  and a window index beyond the result give -2. Otherwise a price that is NaN or
  infinite gives -4. Otherwise a failing allocation (one of the first three of
  \<open>calculateStockSpan\<close>, the first two of \<open>buildSegmentTree\<close>, the first six of
  \<open>analyzeSlidingWindow\<close>) gives -3. Otherwise the call returns 0. The three analyses
  always return. A call that returns a status other than 0 hands no span array and no
  handle to the caller: \<open>buildSegmentTree\<close> and \<open>analyzeSlidingWindow\<close> do not write
  through their output pointer, \<open>calculateStockSpan\<close> does not either for -1, -2 and -4
  and leaves NULL behind it for -3; \<open>querySegmentTree\<close> and \<open>getWindowResult\<close> leave the
  caller's memory and pattern buffer as they were.
\<close>

theorem status_codes:
  "(calculateStockSpan al None out = Some (- 1, Untouched) \<and>
    calculateStockSpan al prices False = Some (- 1, Untouched) \<and>
    buildSegmentTree al None out = Some (- 1, Untouched) \<and>
    buildSegmentTree al prices False = Some (- 1, Untouched) \<and>
    analyzeSlidingWindow al None w out = Some (- 1, Untouched) \<and>
    analyzeSlidingWindow al prices w False = Some (- 1, Untouched) \<and>
    querySegmentTree None ql qr out_min out_max out_avg out_variance mem = Some (- 1, mem) \<and>
    getWindowResult None idx out_wmax out_wmin out_wavg out_pattern mem =
      Some (- 1, mem, out_pattern)) \<and>
   ((length ps = 0 \<or> length ps > MAX_ARRAY_SIZE \<longrightarrow>
       calculateStockSpan al (Some ps) True = Some (- 2, Untouched) \<and>
       buildSegmentTree al (Some ps) True = Some (- 2, Untouched)) \<and>
    (length ps = 0 \<or> length ps > MAX_ARRAY_SIZE \<or> w = 0 \<or> w > length ps \<longrightarrow>
       analyzeSlidingWindow al (Some ps) w True = Some (- 2, Untouched)) \<and>
    (ql > qr \<or> qr \<ge> t_length t \<longrightarrow>
       querySegmentTree (Some t) ql qr out_min out_max out_avg out_variance mem =
         Some (- 2, mem)) \<and>
    (idx \<ge> r_num_windows r \<longrightarrow>
       getWindowResult (Some r) idx out_wmax out_wmin out_wavg out_pattern mem =
         Some (- 2, mem, out_pattern))) \<and>
   (1 \<le> length ps \<and> length ps \<le> MAX_ARRAY_SIZE \<and> (\<exists>p\<in>set ps. isnan p \<or> isinf p) \<longrightarrow>
      calculateStockSpan al (Some ps) True = Some (- 4, Untouched) \<and>
      buildSegmentTree al (Some ps) True = Some (- 4, Untouched) \<and>
      (1 \<le> w \<and> w \<le> length ps \<longrightarrow>
         analyzeSlidingWindow al (Some ps) w True = Some (- 4, Untouched))) \<and>
   (1 \<le> length ps \<and> length ps \<le> MAX_ARRAY_SIZE \<and> (\<forall>p\<in>set ps. \<not> isnan p \<and> \<not> isinf p) \<longrightarrow>
      (\<not> alloc_ok (take 3 al) \<longrightarrow>
         calculateStockSpan al (Some ps) True = Some (- 3, StoredNull)) \<and>
      (\<not> alloc_ok (take 2 al) \<longrightarrow>
         buildSegmentTree al (Some ps) True = Some (- 3, Untouched)) \<and>
      (1 \<le> w \<and> w \<le> length ps \<and> \<not> alloc_ok (take 6 al) \<longrightarrow>
         analyzeSlidingWindow al (Some ps) w True = Some (- 3, Untouched)) \<and>
      (alloc_ok (take 3 al) \<longrightarrow>
         (\<exists>spans. calculateStockSpan al (Some ps) True = Some (0, Stored spans))) \<and>
      (alloc_ok (take 2 al) \<longrightarrow>
         (\<exists>t'. buildSegmentTree al (Some ps) True = Some (0, Stored t'))) \<and>
      (1 \<le> w \<and> w \<le> length ps \<and> alloc_ok (take 6 al) \<longrightarrow>
         (\<exists>r'. analyzeSlidingWindow al (Some ps) w True = Some (0, Stored r')))) \<and>
   ((buildSegmentTree al1 (Some ps1) out1 = Some (0, Stored t) \<and> ql \<le> qr \<and> qr < length ps1 \<longrightarrow>
       (\<exists>mem'. querySegmentTree (Some t) ql qr out_min out_max out_avg out_variance mem =
                  Some (0, mem'))) \<and>
    (analyzeSlidingWindow al2 (Some ps2) w2 out2 = Some (0, Stored r) \<and> idx < r_num_windows r \<and>
     (\<forall>buf. out_pattern = Some buf \<longrightarrow> length buf < 2 ^ 64) \<longrightarrow>
       (\<exists>mem' pat'. getWindowResult (Some r) idx out_wmax out_wmin out_wavg out_pattern mem =
                       Some (0, mem', pat')))) \<and>
   ((\<exists>st eff. calculateStockSpan al prices out = Some (st, eff)) \<and>
    (\<exists>st eff. buildSegmentTree al prices out = Some (st, eff)) \<and>
    (\<exists>st eff. analyzeSlidingWindow al prices w out = Some (st, eff))) \<and>
   ((calculateStockSpan al prices out = Some (st, seff) \<and> st \<noteq> 0 \<longrightarrow>
       st \<in> {- 1, - 2, - 3, - 4} \<and> (seff = Untouched \<or> st = - 3 \<and> seff = StoredNull)) \<and>
    (buildSegmentTree al prices out = Some (st, teff) \<and> st \<noteq> 0 \<longrightarrow>
       st \<in> {- 1, - 2, - 3, - 4} \<and> teff = Untouched) \<and>
    (analyzeSlidingWindow al prices w out = Some (st, weff) \<and> st \<noteq> 0 \<longrightarrow>
       st \<in> {- 1, - 2, - 3, - 4} \<and> weff = Untouched) \<and>
    (querySegmentTree h ql qr out_min out_max out_avg out_variance mem = Some (st, qmem) \<and>
     st \<noteq> 0 \<longrightarrow> st \<in> {- 1, - 2} \<and> qmem = mem) \<and>
    (getWindowResult g idx out_wmax out_wmin out_wavg out_pattern mem = Some (st, gmem, gpat) \<and>
     st \<noteq> 0 \<longrightarrow> st \<in> {- 1, - 2} \<and> gmem = mem \<and> gpat = out_pattern))"
proof -
  have null: "calculateStockSpan al None out = Some (- 1, Untouched) \<and>
    calculateStockSpan al prices False = Some (- 1, Untouched) \<and>
    buildSegmentTree al None out = Some (- 1, Untouched) \<and>
    buildSegmentTree al prices False = Some (- 1, Untouched) \<and>
    analyzeSlidingWindow al None w out = Some (- 1, Untouched) \<and>
    analyzeSlidingWindow al prices w False = Some (- 1, Untouched) \<and>
    querySegmentTree None ql qr out_min out_max out_avg out_variance mem = Some (- 1, mem) \<and>
    getWindowResult None idx out_wmax out_wmin out_wavg out_pattern mem =
      Some (- 1, mem, out_pattern)"
    by (simp add: calculateStockSpan_def buildSegmentTree_def analyzeSlidingWindow_def
        querySegmentTree_def getWindowResult_def split: option.splits)
  have len: "(length ps = 0 \<or> length ps > MAX_ARRAY_SIZE \<longrightarrow>
       calculateStockSpan al (Some ps) True = Some (- 2, Untouched) \<and>
       buildSegmentTree al (Some ps) True = Some (- 2, Untouched)) \<and>
    (length ps = 0 \<or> length ps > MAX_ARRAY_SIZE \<or> w = 0 \<or> w > length ps \<longrightarrow>
       analyzeSlidingWindow al (Some ps) w True = Some (- 2, Untouched)) \<and>
    (ql > qr \<or> qr \<ge> t_length t \<longrightarrow>
       querySegmentTree (Some t) ql qr out_min out_max out_avg out_variance mem =
         Some (- 2, mem)) \<and>
    (idx \<ge> r_num_windows r \<longrightarrow>
       getWindowResult (Some r) idx out_wmax out_wmin out_wavg out_pattern mem =
         Some (- 2, mem, out_pattern))"
    by (auto simp: calculateStockSpan_def buildSegmentTree_def analyzeSlidingWindow_def
        querySegmentTree_def getWindowResult_def)
  have nan: "1 \<le> length ps \<and> length ps \<le> MAX_ARRAY_SIZE \<and> (\<exists>p\<in>set ps. isnan p \<or> isinf p) \<longrightarrow>
      calculateStockSpan al (Some ps) True = Some (- 4, Untouched) \<and>
      buildSegmentTree al (Some ps) True = Some (- 4, Untouched) \<and>
      (1 \<le> w \<and> w \<le> length ps \<longrightarrow>
         analyzeSlidingWindow al (Some ps) w True = Some (- 4, Untouched))"
  proof (intro impI)
    assume a: "1 \<le> length ps \<and> length ps \<le> MAX_ARRAY_SIZE \<and> (\<exists>p\<in>set ps. isnan p \<or> isinf p)"
    then have v: "\<not> validate_prices ps" "length ps \<noteq> 0" "\<not> MAX_ARRAY_SIZE < length ps"
      using validate_prices_nan[of ps] by auto
    then show "calculateStockSpan al (Some ps) True = Some (- 4, Untouched) \<and>
      buildSegmentTree al (Some ps) True = Some (- 4, Untouched) \<and>
      (1 \<le> w \<and> w \<le> length ps \<longrightarrow>
         analyzeSlidingWindow al (Some ps) w True = Some (- 4, Untouched))"
      by (auto simp: calculateStockSpan_def buildSegmentTree_def analyzeSlidingWindow_def)
  qed
  have alloc: "1 \<le> length ps \<and> length ps \<le> MAX_ARRAY_SIZE \<and> (\<forall>p\<in>set ps. \<not> isnan p \<and> \<not> isinf p) \<longrightarrow>
      (\<not> alloc_ok (take 3 al) \<longrightarrow>
         calculateStockSpan al (Some ps) True = Some (- 3, StoredNull)) \<and>
      (\<not> alloc_ok (take 2 al) \<longrightarrow>
         buildSegmentTree al (Some ps) True = Some (- 3, Untouched)) \<and>
      (1 \<le> w \<and> w \<le> length ps \<and> \<not> alloc_ok (take 6 al) \<longrightarrow>
         analyzeSlidingWindow al (Some ps) w True = Some (- 3, Untouched)) \<and>
      (alloc_ok (take 3 al) \<longrightarrow>
         (\<exists>spans. calculateStockSpan al (Some ps) True = Some (0, Stored spans))) \<and>
      (alloc_ok (take 2 al) \<longrightarrow>
         (\<exists>t'. buildSegmentTree al (Some ps) True = Some (0, Stored t'))) \<and>
      (1 \<le> w \<and> w \<le> length ps \<and> alloc_ok (take 6 al) \<longrightarrow>
         (\<exists>r'. analyzeSlidingWindow al (Some ps) w True = Some (0, Stored r')))"
  proof (intro impI)
    assume a: "1 \<le> length ps \<and> length ps \<le> MAX_ARRAY_SIZE \<and> (\<forall>p\<in>set ps. \<not> isnan p \<and> \<not> isinf p)"
    then have v: "validate_prices ps" "1 \<le> length ps" "length ps \<le> MAX_ARRAY_SIZE"
      using validate_prices_nan[of ps] by auto
    show "(\<not> alloc_ok (take 3 al) \<longrightarrow>
         calculateStockSpan al (Some ps) True = Some (- 3, StoredNull)) \<and>
      (\<not> alloc_ok (take 2 al) \<longrightarrow>
         buildSegmentTree al (Some ps) True = Some (- 3, Untouched)) \<and>
      (1 \<le> w \<and> w \<le> length ps \<and> \<not> alloc_ok (take 6 al) \<longrightarrow>
         analyzeSlidingWindow al (Some ps) w True = Some (- 3, Untouched)) \<and>
      (alloc_ok (take 3 al) \<longrightarrow>
         (\<exists>spans. calculateStockSpan al (Some ps) True = Some (0, Stored spans))) \<and>
      (alloc_ok (take 2 al) \<longrightarrow>
         (\<exists>t'. buildSegmentTree al (Some ps) True = Some (0, Stored t'))) \<and>
      (1 \<le> w \<and> w \<le> length ps \<and> alloc_ok (take 6 al) \<longrightarrow>
         (\<exists>r'. analyzeSlidingWindow al (Some ps) w True = Some (0, Stored r')))"
      using calculateStockSpan_status[OF v(2,3,1), of al] buildSegmentTree_status[OF v(2,3,1), of al]
        analyzeSlidingWindow_status[OF _ _ v(3,1), of w al]
      by blast
  qed
  have succ: "(buildSegmentTree al1 (Some ps1) out1 = Some (0, Stored t) \<and> ql \<le> qr \<and> qr < length ps1 \<longrightarrow>
       (\<exists>mem'. querySegmentTree (Some t) ql qr out_min out_max out_avg out_variance mem =
                  Some (0, mem'))) \<and>
    (analyzeSlidingWindow al2 (Some ps2) w2 out2 = Some (0, Stored r) \<and> idx < r_num_windows r \<and>
     (\<forall>buf. out_pattern = Some buf \<longrightarrow> length buf < 2 ^ 64) \<longrightarrow>
       (\<exists>mem' pat'. getWindowResult (Some r) idx out_wmax out_wmin out_wavg out_pattern mem =
                       Some (0, mem', pat')))"
  proof (intro conjI impI)
    assume a: "buildSegmentTree al1 (Some ps1) out1 = Some (0, Stored t) \<and> ql \<le> qr \<and> qr < length ps1"
    have lay: "tree_layout (map fin ps1) t" "length (map fin ps1) \<le> MAX_ARRAY_SIZE"
      using build_Stored[of al1 "Some ps1" out1 0 t] a by auto
    have q: "ql \<le> qr" "qr < length (map fin ps1)" using a by simp_all
    show "\<exists>mem'. querySegmentTree (Some t) ql qr out_min out_max out_avg out_variance mem =
                  Some (0, mem')"
      using querySegmentTree_ok[OF lay q] by blast
  next
    assume a: "analyzeSlidingWindow al2 (Some ps2) w2 out2 = Some (0, Stored r) \<and>
      idx < r_num_windows r \<and> (\<forall>buf. out_pattern = Some buf \<longrightarrow> length buf < 2 ^ 64)"
    have r: "r = analyze_spec (map fin ps2) w2"
      using analyze_Stored[of al2 "Some ps2" w2 out2 0 r] a by auto
    have len: "length (r_windows r) = r_num_windows r" unfolding r by (rule analyze_spec_length)
    show "\<exists>mem' pat'. getWindowResult (Some r) idx out_wmax out_wmin out_wavg out_pattern mem =
                       Some (0, mem', pat')"
      using getWindowResult_ok[OF _ len, of idx out_pattern out_wmax out_wmin out_wavg mem] a
      by blast
  qed
  have ret: "(\<exists>st eff. calculateStockSpan al prices out = Some (st, eff)) \<and>
    (\<exists>st eff. buildSegmentTree al prices out = Some (st, eff)) \<and>
    (\<exists>st eff. analyzeSlidingWindow al prices w out = Some (st, eff))"
    using calculateStockSpan_returns buildSegmentTree_returns analyzeSlidingWindow_returns
    by blast
  have eff: "(calculateStockSpan al prices out = Some (st, seff) \<and> st \<noteq> 0 \<longrightarrow>
       st \<in> {- 1, - 2, - 3, - 4} \<and> (seff = Untouched \<or> st = - 3 \<and> seff = StoredNull)) \<and>
    (buildSegmentTree al prices out = Some (st, teff) \<and> st \<noteq> 0 \<longrightarrow>
       st \<in> {- 1, - 2, - 3, - 4} \<and> teff = Untouched) \<and>
    (analyzeSlidingWindow al prices w out = Some (st, weff) \<and> st \<noteq> 0 \<longrightarrow>
       st \<in> {- 1, - 2, - 3, - 4} \<and> weff = Untouched) \<and>
    (querySegmentTree h ql qr out_min out_max out_avg out_variance mem = Some (st, qmem) \<and>
     st \<noteq> 0 \<longrightarrow> st \<in> {- 1, - 2} \<and> qmem = mem) \<and>
    (getWindowResult g idx out_wmax out_wmin out_wavg out_pattern mem = Some (st, gmem, gpat) \<and>
     st \<noteq> 0 \<longrightarrow> st \<in> {- 1, - 2} \<and> gmem = mem \<and> gpat = out_pattern)"
    using calculateStockSpan_effect[of al prices out st seff]
      buildSegmentTree_effect[of al prices out st teff]
      analyzeSlidingWindow_effect[of al prices w out st weff]
      querySegmentTree_effect[of h ql qr out_min out_max out_avg out_variance mem st qmem]
      getWindowResult_effect[of g idx out_wmax out_wmin out_wavg out_pattern mem st gmem gpat]
    by auto
  show ?thesis using null len nan alloc succ ret eff by blast
qed

theorem status_codes_witness:
  "calculateStockSpan [] None True = Some (- 1, Untouched) \<and>
   buildSegmentTree [] (Some []) False = Some (- 1, Untouched) \<and>
   calculateStockSpan [] (Some []) True = Some (- 2, Untouched) \<and>
   analyzeSlidingWindow [] (Some [Finite 1, Finite 2]) 0 True = Some (- 2, Untouched) \<and>
   querySegmentTree (Some \<lparr>t_nodes = [], t_length = 0, t_tree_size = 0\<rparr>) 1 0
     (Some 3) None None None (\<lambda>a. Finite 0) = Some (- 2, \<lambda>a. Finite 0) \<and>
   getWindowResult (Some \<lparr>r_windows = [], r_num_windows = 0, r_window_size = 0\<rparr>) 0
     (Some 3) None None None (\<lambda>a. Finite 0) = Some (- 2, \<lambda>a. Finite 0, None) \<and>
   buildSegmentTree [] (Some [Finite 1, NaN]) True = Some (- 4, Untouched) \<and>
   analyzeSlidingWindow [] (Some [Finite 1, PosInf]) 1 True = Some (- 4, Untouched) \<and>
   calculateStockSpan [True, False] (Some [Finite 1, Finite 2]) True = Some (- 3, StoredNull) \<and>
   buildSegmentTree [True, False] (Some [Finite 1, Finite 2]) True = Some (- 3, Untouched) \<and>
   analyzeSlidingWindow [True, True, True, True, True, False] (Some [Finite 1, Finite 2]) 1 True =
     Some (- 3, Untouched) \<and>
   (\<exists>spans. calculateStockSpan [] (Some [Finite 1, Finite 2]) True = Some (0, Stored spans)) \<and>
   (\<exists>t. buildSegmentTree [] (Some [Finite 1, Finite 2]) True = Some (0, Stored t) \<and>
      (\<exists>mem'. querySegmentTree (Some t) 0 1 (Some 3) None None None (\<lambda>a. Finite 0) = Some (0, mem'))) \<and>
   (\<exists>r. analyzeSlidingWindow [] (Some [Finite 1, Finite 2]) 1 True = Some (0, Stored r) \<and>
      (\<exists>mem' pat'. getWindowResult (Some r) 1 (Some 3) None None None (\<lambda>a. Finite 0) =
                      Some (0, mem', pat')))"
proof -
  let ?ps = "[Finite 1, Finite 2]"
  let ?t0 = "\<lparr>t_nodes = [], t_length = 0, t_tree_size = 0\<rparr>"
  let ?r0 = "\<lparr>r_windows = [], r_num_windows = 0, r_window_size = 0\<rparr>"
  let ?m = "\<lambda>a::nat. Finite 0"
  have a: "calculateStockSpan [] None True = Some (- 1, Untouched) \<and>
    buildSegmentTree [] (Some []) False = Some (- 1, Untouched) \<and>
    calculateStockSpan [] (Some []) True = Some (- 2, Untouched) \<and>
    querySegmentTree (Some ?t0) 1 0 (Some 3) None None None ?m = Some (- 2, ?m) \<and>
    getWindowResult (Some ?r0) 0 (Some 3) None None None ?m = Some (- 2, ?m, None)"
    using status_codes[where al = "[]" and ps = "[]" and prices = "Some []" and out = True and
        ql = 1 and qr = 0 and t = ?t0 and idx = 0 and r = ?r0 and out_min = "Some 3" and
        out_max = None and out_avg = None and out_variance = None and mem = ?m and
        out_wmax = "Some 3" and out_wmin = None and out_wavg = None and out_pattern = None]
    by simp
  have b: "analyzeSlidingWindow [] (Some ?ps) 0 True = Some (- 2, Untouched)"
    using status_codes[where al = "[]" and ps = ?ps and w = 0] by simp
  have c: "buildSegmentTree [] (Some [Finite 1, NaN]) True = Some (- 4, Untouched)"
    using status_codes[where al = "[]" and ps = "[Finite 1, NaN]"]
    by (simp add: MAX_ARRAY_SIZE_def)
  have d: "analyzeSlidingWindow [] (Some [Finite 1, PosInf]) 1 True = Some (- 4, Untouched)"
    using status_codes[where al = "[]" and ps = "[Finite 1, PosInf]" and w = 1]
    by (simp add: MAX_ARRAY_SIZE_def)
  have e: "calculateStockSpan [True, False] (Some ?ps) True = Some (- 3, StoredNull) \<and>
    buildSegmentTree [True, False] (Some ?ps) True = Some (- 3, Untouched)"
    using status_codes[where al = "[True, False]" and ps = ?ps]
    by (simp add: MAX_ARRAY_SIZE_def alloc_ok_def)
  have f: "analyzeSlidingWindow [True, True, True, True, True, False] (Some ?ps) 1 True =
     Some (- 3, Untouched)"
    using status_codes[where al = "[True, True, True, True, True, False]" and ps = ?ps and w = 1]
    by (simp add: MAX_ARRAY_SIZE_def alloc_ok_def)
  have g: "(\<exists>spans. calculateStockSpan [] (Some ?ps) True = Some (0, Stored spans)) \<and>
    (\<exists>t. buildSegmentTree [] (Some ?ps) True = Some (0, Stored t)) \<and>
    (\<exists>r. analyzeSlidingWindow [] (Some ?ps) 1 True = Some (0, Stored r))"
    using status_codes[where al = "[]" and ps = ?ps and w = 1]
    by (simp add: MAX_ARRAY_SIZE_def alloc_ok_def)
  then obtain t r where t: "buildSegmentTree [] (Some ?ps) True = Some (0, Stored t)"
    and r: "analyzeSlidingWindow [] (Some ?ps) 1 True = Some (0, Stored r)" by blast
  have n: "r_num_windows r = 2"
    using analyze_Stored[OF r] by (simp add: analyze_spec_def)
  have h: "(\<exists>mem'. querySegmentTree (Some t) 0 1 (Some 3) None None None ?m = Some (0, mem')) \<and>
    (\<exists>mem' pat'. getWindowResult (Some r) 1 (Some 3) None None None ?m = Some (0, mem', pat'))"
    using status_codes[where ?al1.0 = "[]" and ?ps1.0 = ?ps and ?out1.0 = True and t = t and
        ql = 0 and qr = 1 and ?al2.0 = "[]" and ?ps2.0 = ?ps and ?w2.0 = 1 and ?out2.0 = True and
        r = r and idx = 1 and out_pattern = None and out_min = "Some 3" and
        out_max = None and out_avg = None and out_variance = None and mem = ?m and
        out_wmax = "Some 3" and out_wmin = None and out_wavg = None] t r n
    by simp
  show ?thesis using a b c d e f g t r h by blast
qed

end
